(* ===== verification/Prelude.thy ===== *)
theory Prelude
  imports Main "HOL-Library.Word"
begin

text \<open>
  Shared vocabulary of the development: the machine types of the Rust sources, the outcome of
  code that may panic, the cursor reads of the \<^verbatim>\<open>bytes::Buf\<close> trait on a byte slice, the
  little-endian layout of \<^verbatim>\<open>u64::to_le_bytes\<close>, UTF-8 validation as in
  \<^verbatim>\<open>String::from_utf8\<close>, and the generic lemmas on words and lists that the component
  theories share.  The collection \<open>exec_simps\<close> evaluates code written in the outcome type.
\<close>

unbundle bit_operations_syntax

named_theorems exec_simps \<open>rules that run code of the outcome type\<close>

type_synonym byte = "8 word"
type_synonym u16 = "16 word"
type_synonym u32 = "32 word"
type_synonym u64 = "64 word"
type_synonym bytes = "byte list"

section \<open>Outcomes: code that may panic\<close>

text \<open>A Rust call either returns or panics.\<close>

datatype 'a exec = Done 'a | Panic

definition exec_bind :: "'a exec \<Rightarrow> ('a \<Rightarrow> 'b exec) \<Rightarrow> 'b exec" where
  "exec_bind m k = (case m of Done x \<Rightarrow> k x | Panic \<Rightarrow> Panic)"

text \<open>The question mark operator in code that may also panic.\<close>

definition try_bind :: "('e + 'a) exec \<Rightarrow> ('a \<Rightarrow> ('e + 'b) exec) \<Rightarrow> ('e + 'b) exec" where
  "try_bind m k = exec_bind m (\<lambda>r. case r of Inl e \<Rightarrow> Done (Inl e) | Inr x \<Rightarrow> k x)"

section \<open>Reading a byte cursor (bytes::Buf on a slice)\<close>

text \<open>
  \<^verbatim>\<open>copy_to_slice\<close>, \<^verbatim>\<open>get_u8\<close> and \<^verbatim>\<open>get_u64_le\<close> advance the cursor and panic when fewer
  bytes remain than they read.  A cursor is the list of the bytes that remain.
\<close>

definition copy_to_slice :: "nat \<Rightarrow> bytes \<Rightarrow> (bytes \<times> bytes) exec" where
  "copy_to_slice n buf = (if length buf < n then Panic else Done (take n buf, drop n buf))"

definition get_u8 :: "bytes \<Rightarrow> (byte \<times> bytes) exec" where
  "get_u8 buf = (case buf of [] \<Rightarrow> Panic | b # rest \<Rightarrow> Done (b, rest))"

fun nat_to_le :: "nat \<Rightarrow> nat \<Rightarrow> bytes" where
  "nat_to_le 0 v = []"
| "nat_to_le (Suc n) v = of_nat (v mod 256) # nat_to_le n (v div 256)"

fun le_to_nat :: "bytes \<Rightarrow> nat" where
  "le_to_nat [] = 0"
| "le_to_nat (b # bs) = unat b + 256 * le_to_nat bs"

definition u64_to_le_bytes :: "u64 \<Rightarrow> bytes" where
  "u64_to_le_bytes v = nat_to_le 8 (unat v)"

definition u64_from_le_bytes :: "bytes \<Rightarrow> u64" where
  "u64_from_le_bytes bs = of_nat (le_to_nat bs)"

definition get_u64_le :: "bytes \<Rightarrow> (u64 \<times> bytes) exec" where
  "get_u64_le buf = exec_bind (copy_to_slice 8 buf) (\<lambda>(bs, rest). Done (u64_from_le_bytes bs, rest))"

section \<open>UTF-8 validation (String::from_utf8)\<close>

definition utf8_cont :: "byte \<Rightarrow> bool" where
  "utf8_cont b \<longleftrightarrow> 0x80 \<le> b \<and> b \<le> 0xBF"

text \<open>The well-formed byte sequences of the Unicode standard: no overlong forms, no surrogates,
  nothing above U+10FFFF.\<close>

fun utf8_valid :: "bytes \<Rightarrow> bool" where
  "utf8_valid [] = True"
| "utf8_valid (a # bs) =
     (if a \<le> 0x7F then utf8_valid bs
      else if 0xC2 \<le> a \<and> a \<le> 0xDF then
        (case bs of b # rest \<Rightarrow> utf8_cont b \<and> utf8_valid rest | _ \<Rightarrow> False)
      else if 0xE0 \<le> a \<and> a \<le> 0xEF then
        (case bs of b # c # rest \<Rightarrow>
             (if a = 0xE0 then 0xA0 \<le> b \<and> b \<le> 0xBF
              else if a = 0xED then 0x80 \<le> b \<and> b \<le> 0x9F
              else utf8_cont b)
             \<and> utf8_cont c \<and> utf8_valid rest
         | _ \<Rightarrow> False)
      else if 0xF0 \<le> a \<and> a \<le> 0xF4 then
        (case bs of b # c # d # rest \<Rightarrow>
             (if a = 0xF0 then 0x90 \<le> b \<and> b \<le> 0xBF
              else if a = 0xF4 then 0x80 \<le> b \<and> b \<le> 0x8F
              else utf8_cont b)
             \<and> utf8_cont c \<and> utf8_cont d \<and> utf8_valid rest
         | _ \<Rightarrow> False)
      else False)"

text \<open>A Rust \<^verbatim>\<open>&str\<close> literal: its ASCII characters as bytes.\<close>

definition ascii :: "string \<Rightarrow> bytes" where
  "ascii s = map (\<lambda>c. of_char c) s"

section \<open>Facts about outcomes and cursors\<close>

lemma unat_of_nat_less: "n < 2 ^ LENGTH('w) \<Longrightarrow> unat (of_nat n :: 'w::len word) = n"
  by (simp add: unsigned_of_nat take_bit_nat_eq_self)

lemma unat_byte_less [simp]: "unat (b :: byte) < 256"
  using unsigned_less [of b] by simp

lemma unat_u64_less: "unat (v :: u64) < 2 ^ 64"
  using unsigned_less [of v] by simp

lemma unat_of_nat_u64: "n < 2 ^ 64 \<Longrightarrow> unat (of_nat n :: u64) = n"
  by (rule unat_of_nat_less) simp

lemma exec_bind_simps [simp, exec_simps]:
  "exec_bind (Done x) k = k x"
  "exec_bind Panic k = Panic"
  by (simp_all add: exec_bind_def)

lemma exec_bind_eq_Done:
  "exec_bind m k = Done y \<longleftrightarrow> (\<exists>x. m = Done x \<and> k x = Done y)"
  by (cases m) auto

lemma try_bind_simps [simp]:
  "try_bind (Done (Inl e)) k = Done (Inl e)"
  "try_bind (Done (Inr x)) k = k x"
  "try_bind Panic k = Panic"
  by (simp_all add: try_bind_def)

lemma try_bind_eq_Inr: "try_bind m k = Done (Inr y) \<longleftrightarrow> (\<exists>x. m = Done (Inr x) \<and> k x = Done (Inr y))"
proof (cases m)
  case (Done r)
  then show ?thesis by (cases r) simp_all
qed simp

lemma try_bind_total: "m = Done r \<Longrightarrow> (\<And>x. r = Inr x \<Longrightarrow> k x \<noteq> Panic) \<Longrightarrow> try_bind m k \<noteq> Panic"
  by (cases r) (simp_all add: try_bind_def exec_bind_def)

lemma copy_to_slice_enough [exec_simps]:
  "n \<le> length buf \<Longrightarrow> copy_to_slice n buf = Done (take n buf, drop n buf)"
  by (simp add: copy_to_slice_def)

lemma copy_to_slice_append [exec_simps]:
  "length xs = n \<Longrightarrow> copy_to_slice n (xs @ ys) = Done (xs, ys)"
  by (simp add: copy_to_slice_def)

lemma get_u8_Cons [exec_simps]: "get_u8 (b # rest) = Done (b, rest)"
  by (simp add: get_u8_def)

lemma get_u8_drop [exec_simps]:
  "n < length buf \<Longrightarrow> get_u8 (drop n buf) = Done (buf ! n, drop (Suc n) buf)"
  by (simp add: get_u8_def Cons_nth_drop_Suc [symmetric])

lemma length_nat_to_le [simp]: "length (nat_to_le n v) = n"
  by (induction n arbitrary: v) auto

lemma le_to_nat_bound: "le_to_nat bs < 256 ^ length bs"
proof (induction bs)
  case (Cons b bs)
  have "unat b + 256 * le_to_nat bs < 256 * 256 ^ length bs"
    using unat_byte_less [of b] Cons by linarith
  then show ?case by simp
qed simp

lemma le_to_nat_nat_to_le: "v < 256 ^ n \<Longrightarrow> le_to_nat (nat_to_le n v) = v"
proof (induction n arbitrary: v)
  case (Suc n)
  then have "v div 256 < 256 ^ n" by (simp add: less_mult_imp_div_less mult.commute)
  moreover have "unat (of_nat (v mod 256) :: byte) = v mod 256"
    by (rule unat_of_nat_less) simp
  ultimately show ?case by (simp add: Suc.IH)
qed simp

lemma nat_to_le_le_to_nat: "nat_to_le (length bs) (le_to_nat bs) = bs"
proof (induction bs)
  case (Cons b bs)
  have b: "unat b < 256" by simp
  then have "(unat b + 256 * le_to_nat bs) mod 256 = unat b" by simp
  moreover from b have "(unat b + 256 * le_to_nat bs) div 256 = le_to_nat bs" by simp
  ultimately show ?case using Cons by simp
qed simp

lemma length_u64_to_le_bytes [simp]: "length (u64_to_le_bytes v) = 8"
  by (simp add: u64_to_le_bytes_def)

lemma u64_le_roundtrip [simp]: "u64_from_le_bytes (u64_to_le_bytes v) = v"
proof -
  have "unat v < 256 ^ 8" using unat_u64_less [of v] by simp
  then show ?thesis
    by (simp add: u64_from_le_bytes_def u64_to_le_bytes_def le_to_nat_nat_to_le)
qed

lemma u64_le_roundtrip_inv:
  assumes "length bs = 8"
  shows "u64_to_le_bytes (u64_from_le_bytes bs) = bs"
proof -
  have "le_to_nat bs < 2 ^ LENGTH(64)" using le_to_nat_bound [of bs] assms by simp
  then have "unat (u64_from_le_bytes bs) = le_to_nat bs"
    unfolding u64_from_le_bytes_def by (rule unat_of_nat_less)
  then show ?thesis using nat_to_le_le_to_nat [of bs] assms by (simp add: u64_to_le_bytes_def)
qed

lemma u64_to_le_bytes_inject [simp]: "u64_to_le_bytes v = u64_to_le_bytes w \<longleftrightarrow> v = w"
  by (metis u64_le_roundtrip)

lemma get_u64_le_enough [exec_simps]:
  "8 \<le> length buf \<Longrightarrow> get_u64_le buf = Done (u64_from_le_bytes (take 8 buf), drop 8 buf)"
  by (simp add: get_u64_le_def exec_simps)

lemma get_u64_le_append [exec_simps]: "get_u64_le (u64_to_le_bytes v @ ys) = Done (v, ys)"
  by (simp add: get_u64_le_def exec_simps)

section \<open>Facts about words and lists\<close>

lemma unat_or_push_bit:
  fixes a b :: "'w::len word"
  assumes a: "unat a < 2 ^ k" and b: "unat b * 2 ^ k < 2 ^ LENGTH('w)"
  shows "unat (a OR push_bit k b) = unat a + unat b * 2 ^ k"
proof -
  have p: "unat (push_bit k b) = unat b * 2 ^ k"
    unfolding unsigned_push_bit_eq using b by (simp add: push_bit_eq_mult take_bit_nat_eq_self)
  have ta: "take_bit k a = a"
    using a by (metis take_bit_nat_eq_self unsigned_take_bit_eq unsigned_word_eqI)
  have disj: "a AND push_bit k b = 0"
    by (subst ta [symmetric]) (auto simp: bit_eq_iff bit_simps)
  then have eq: "a OR push_bit k b = a + push_bit k b" by (simp add: disjunctive_add_eq_or)
  have "unat a + unat (push_bit k b) < 2 ^ LENGTH('w)"
  proof (cases "unat b = 0")
    case True
    then show ?thesis using unsigned_less [of a] p by simp
  next
    case False
    have k: "k < LENGTH('w)"
    proof (rule ccontr)
      assume "\<not> k < LENGTH('w)"
      then have "(2::nat) ^ LENGTH('w) \<le> 2 ^ k" by simp
      also have "\<dots> \<le> unat b * 2 ^ k" using False by simp
      finally show False using b by simp
    qed
    then have split: "(2::nat) ^ LENGTH('w) = 2 ^ (LENGTH('w) - k) * 2 ^ k"
      by (simp flip: power_add)
    with b have "unat b < 2 ^ (LENGTH('w) - k)" by simp
    then have "(unat b + 1) * 2 ^ k \<le> 2 ^ (LENGTH('w) - k) * 2 ^ k"
      by (intro mult_right_mono) auto
    then show ?thesis using a split p by (simp add: algebra_simps)
  qed
  then show ?thesis using eq p by (simp add: unat_word_ariths(1) mod_less)
qed

lemma concat_filter_append: "concat (map f (filter P (xs @ ys))) = concat (map f (filter P xs)) @ concat (map f (filter P ys))"
  by simp

end
