(* ===== verification/Varint.thy ===== *)
theory Varint
  imports Prelude
begin

text \<open>
  The LEB128 variable-length integers of \<^verbatim>\<open>construct-veil-protocol/src/varint.rs\<close>: the encoder
  loop, the decoder that tells an incomplete input from a malformed one, and their wrappers.
  \<open>varint_bytes\<close> is the reference form of an encoding; the loops are proved against it.
\<close>

section \<open>Operations\<close>

definition VARINT_MAX_BYTES :: nat where
  "VARINT_MAX_BYTES = 10"

lemma unat_drop_bit_7: "unat (drop_bit 7 (v :: u64)) = unat v div 128"
  by (simp add: drop_bit_eq_div unat_div_distrib)

text \<open>The \<^verbatim>\<open>while value > 0\<close> loop of the encoder, over the buffer and the byte count.\<close>

function encode_varint_loop :: "u64 \<Rightarrow> bytes \<Rightarrow> nat \<Rightarrow> bytes \<times> nat" where
  "encode_varint_loop v buf n =
     (if 0 < v then
        let b = ucast (v AND 0x7F) :: byte;
            v' = drop_bit 7 v;
            b' = (if 0 < v' then b OR 0x80 else b)
        in encode_varint_loop v' (buf @ [b']) (n + 1)
      else (buf, n))"
  by pat_completeness auto
termination
proof (relation "measure (\<lambda>(v, buf, n). unat v)", goal_cases)
  case 1
  show ?case by simp
next
  case (2 v buf n)
  then have "unat v \<noteq> 0" by (simp add: unat_eq_zero word_gt_0)
  then show ?case using 2 by (simp add: unat_drop_bit_7)
qed

declare encode_varint_loop.simps [simp del]

definition encode_varint :: "u64 \<Rightarrow> bytes \<Rightarrow> bytes \<times> nat" where
  "encode_varint v buf = (if v = 0 then (buf @ [0], 1) else encode_varint_loop v buf 0)"

datatype Varint = Value u64 nat | Incomplete | Malformed

text \<open>The decoder loop: the value so far, the bytes read so far, the cursor.\<close>

fun decode_varint_loop :: "u64 \<Rightarrow> nat \<Rightarrow> bytes \<Rightarrow> Varint \<times> bytes" where
  "decode_varint_loop result n buf =
     (if n = VARINT_MAX_BYTES then (Malformed, buf)
      else case buf of
        [] \<Rightarrow> (Incomplete, [])
      | b # buf' \<Rightarrow>
          let low7 = ucast (b AND 0x7F) :: u64; shift = 7 * n; n' = n + 1
          in if n' = VARINT_MAX_BYTES \<and> 1 < low7 then (Malformed, buf')
             else let result' = result OR push_bit shift low7
                  in if b AND 0x80 = 0
                     then if 1 < n' \<and> low7 = 0 then (Malformed, buf')
                          else (Value result' n', buf')
                     else decode_varint_loop result' n' buf')"

declare decode_varint_loop.simps [simp del]

definition decode_varint_checked :: "bytes \<Rightarrow> Varint \<times> bytes" where
  "decode_varint_checked buf = decode_varint_loop 0 0 buf"

definition decode_varint :: "bytes \<Rightarrow> (u64 \<times> nat) option \<times> bytes" where
  "decode_varint buf =
     (case decode_varint_checked buf of
        (Value v n, rest) \<Rightarrow> (Some (v, n), rest)
      | (Incomplete, rest) \<Rightarrow> (None, rest)
      | (Malformed, rest) \<Rightarrow> (None, rest))"

definition decode_varint_slice :: "bytes \<Rightarrow> (u64 \<times> nat) option" where
  "decode_varint_slice data = fst (decode_varint data)"

definition encode_varint_vec :: "u64 \<Rightarrow> bytes" where
  "encode_varint_vec v = fst (encode_varint v [])"

section \<open>Reference form\<close>

fun varint_bytes :: "nat \<Rightarrow> bytes" where
  "varint_bytes v =
     (if v < 128 then [of_nat v] else of_nat (v mod 128 + 128) # varint_bytes (v div 128))"

declare varint_bytes.simps [simp del]

lemma varint_bytes_small: "v < 128 \<Longrightarrow> varint_bytes v = [of_nat v]"
  by (simp add: varint_bytes.simps)

lemma varint_bytes_large:
  "128 \<le> v \<Longrightarrow> varint_bytes v = of_nat (v mod 128 + 128) # varint_bytes (v div 128)"
  by (simp add: varint_bytes.simps [of v])

section \<open>Single bytes\<close>

lemma unat_low7: "unat (ucast (b AND 0x7F :: byte) :: u64) = unat b mod 128"
proof -
  have "b AND 0x7F = take_bit 7 b" by (simp add: take_bit_eq_mask mask_eq_exp_minus_1)
  then have "unat (b AND 0x7F) = unat b mod 128"
    by (simp add: unsigned_take_bit_eq take_bit_eq_mod unat_mod_distrib)
  moreover have "unat (ucast x :: u64) = unat x" for x :: byte
    by (simp add: unsigned_ucast_eq take_bit_nat_eq_self_iff less_trans [OF unat_byte_less])
  ultimately show ?thesis by simp
qed

lemma high_bit_clear: "(b AND 0x80 :: byte) = 0 \<longleftrightarrow> unat b < 128"
proof -
  have "(b AND 0x80) = 0 \<longleftrightarrow> \<not> bit b 7"
    using and_exp_eq_0_iff_not_bit [of b 7] by simp
  also have "bit b 7 \<longleftrightarrow> bit (unat b) 7"
    by (simp add: bit_unsigned_iff)
  also have "bit (unat b) 7 \<longleftrightarrow> odd (unat b div 128)"
    by (simp add: bit_iff_odd)
  also have "odd (unat b div 128) \<longleftrightarrow> 128 \<le> unat b"
  proof (cases "unat b < 128")
    case False
    then have "unat b div 128 = 1" using unat_byte_less [of b] by (intro div_nat_eqI) simp_all
    with False show ?thesis by simp
  qed simp
  finally show ?thesis by auto
qed

lemma encode_byte: "ucast (v AND 0x7F :: u64) = (of_nat (unat v mod 128) :: byte)"
proof -
  have "v AND 0x7F = take_bit 7 v" by (simp add: take_bit_eq_mask mask_eq_exp_minus_1)
  then have "unat (v AND 0x7F) = unat v mod 128"
    by (simp add: unsigned_take_bit_eq take_bit_eq_mod unat_mod_distrib)
  then have "unat (ucast (v AND 0x7F) :: byte) = unat (of_nat (unat v mod 128) :: byte)"
    by (simp add: unsigned_ucast_eq unsigned_of_nat take_bit_eq_mod)
  then show ?thesis by (rule unsigned_word_eqI)
qed

lemma continuation_byte:
  assumes "m < 128"
  shows "of_nat m OR 0x80 = (of_nat (m + 128) :: byte)"
proof -
  have m: "unat (of_nat m :: byte) = m" using assms by (simp add: unat_of_nat_less)
  have "unat (of_nat m OR push_bit 7 (1 :: byte)) = m + 128"
    using assms m by (subst unat_or_push_bit) simp_all
  moreover have "unat (of_nat (m + 128) :: byte) = m + 128"
    using assms by (intro unat_of_nat_less) simp
  moreover have "push_bit 7 (1 :: byte) = 0x80" by simp
  ultimately show ?thesis by (metis unsigned_word_eqI)
qed

section \<open>The encoder loop computes the reference form\<close>

lemma encode_varint_loop_eq:
  "0 < v \<Longrightarrow> encode_varint_loop v buf n =
     (buf @ varint_bytes (unat v), n + length (varint_bytes (unat v)))"
proof (induction "unat v" arbitrary: v buf n rule: less_induct)
  case less
  have d: "unat (drop_bit 7 v) = unat v div 128" by (rule unat_drop_bit_7)
  have v: "unat v \<noteq> 0" using less.prems by (simp add: unat_eq_zero word_gt_0)
  note unfold = encode_varint_loop.simps [of v buf n] Let_def encode_byte
  show ?case
  proof (cases "unat v < 128")
    case True
    then have z: "drop_bit 7 v = 0" using d by (simp add: unat_eq_zero)
    show ?thesis
      using less.prems True
      by (simp add: unfold z varint_bytes_small encode_varint_loop.simps [of 0])
  next
    case False
    then have p: "0 < drop_bit 7 v"
      using d by (metis div_greater_zero_iff not_less unat_0 word_gt_0 zero_less_numeral less_irrefl)
    have "unat (drop_bit 7 v) < unat v" using v d by simp
    note IH = less.hyps [OF this p, unfolded d]
    show ?thesis
      using less.prems False p
      by (simp add: unfold IH continuation_byte varint_bytes_large)
  qed
qed

lemma encode_varint_eq:
  "encode_varint v buf = (buf @ varint_bytes (unat v), length (varint_bytes (unat v)))"
  by (cases "v = 0")
     (simp_all add: encode_varint_def varint_bytes_small encode_varint_loop_eq word_gt_0)

lemma encode_varint_vec_eq: "encode_varint_vec v = varint_bytes (unat v)"
  by (simp add: encode_varint_vec_def encode_varint_eq)

section \<open>The decoder on a reference encoding\<close>

lemma varint_bytes_Nil [simp]: "varint_bytes w \<noteq> []"
  by (simp add: varint_bytes.simps [of w])

lemma decode_varint_loop_last:
  assumes r: "unat r < 2 ^ (7 * n)" and w: "w < 128" and v: "unat r + w * 2 ^ (7 * n) < 2 ^ 64"
    and n: "n < 10" and nz: "n = 0 \<or> w \<noteq> 0"
  shows "decode_varint_loop r n (of_nat w # rest) =
    (Value (of_nat (unat r + w * 2 ^ (7 * n))) (Suc n), rest)"
proof -
  have wb: "unat (of_nat w :: byte) = w" using w by (intro unat_of_nat_less) simp
  have low: "unat (ucast (of_nat w AND 0x7F :: byte) :: u64) = w" using w by (simp add: unat_low7 wb)
  have hi: "(of_nat w AND 0x80 :: byte) = 0" using w by (simp add: high_bit_clear wb)
  have "unat (r OR push_bit (7 * n) (ucast (of_nat w AND 0x7F :: byte))) = unat r + w * 2 ^ (7 * n)"
    using v low by (subst unat_or_push_bit [OF r]) simp_all
  then have res: "r OR push_bit (7 * n) (ucast (of_nat w AND 0x7F :: byte)) =
      of_nat (unat r + w * 2 ^ (7 * n))"
    by (metis of_nat_unat ucast_id)
  have nine: "w \<le> 1" if "n = 9"
    using v unfolding that by simp
  have gt: "1 < (ucast (of_nat w AND 0x7F :: byte) :: u64) \<longleftrightarrow> 1 < w"
    by (simp add: word_less_nat_alt low)
  have zero: "(ucast (of_nat w AND 0x7F :: byte) :: u64) = 0 \<longleftrightarrow> w = 0"
    by (simp add: unat_eq_zero [symmetric] low)
  show ?thesis
    unfolding decode_varint_loop.simps [of r n "of_nat w # rest"]
    using n nz
    by (auto dest: nine simp add: VARINT_MAX_BYTES_def Let_def hi res gt zero del: of_nat_add of_nat_mult of_nat_power)
qed

lemma decode_varint_loop_more:
  assumes r: "unat r < 2 ^ (7 * n)" and b: "128 \<le> unat b" and n: "n < 9"
  shows "\<exists>r'. decode_varint_loop r n (b # rest) = decode_varint_loop r' (Suc n) rest
    \<and> unat r' = unat r + (unat b mod 128) * 2 ^ (7 * n) \<and> unat r' < 2 ^ (7 * Suc n)"
proof -
  let ?l = "ucast (b AND 0x7F) :: u64"
  let ?r = "r OR push_bit (7 * n) ?l"
  have hi: "b AND 0x80 \<noteq> 0" using b by (simp add: high_bit_clear)
  define p :: nat where "p = 2 ^ (7 * n)"
  have "unat b mod 128 + 1 \<le> 128" using mod_less_divisor [of 128 "unat b"] by simp
  then have "(unat b mod 128 + 1) * p \<le> 128 * p"
    by (rule mult_right_mono) simp
  then have le: "(unat b mod 128) * p + p \<le> 128 * p" by (simp only: distrib_right mult_1)
  have "7 * n + 7 \<le> 63" using n by simp
  then have "(2::nat) ^ (7 * n + 7) \<le> 2 ^ 63" by (rule power_increasing) simp
  then have big: "128 * p \<le> 2 ^ 63" by (simp only: power_add p_def) simp
  have len64: "(2::nat) ^ LENGTH(64) = 2 * 2 ^ 63" by simp
  have "unat ?l * 2 ^ (7 * n) < 2 ^ LENGTH(64)"
    unfolding unat_low7 p_def [symmetric] len64
    by (rule order.strict_trans1 [of _ "2 ^ 63"]) (use le big in linarith, simp)
  then have eq: "unat ?r = unat r + (unat b mod 128) * 2 ^ (7 * n)"
    unfolding unat_low7 [symmetric] by (rule unat_or_push_bit [OF r])
  have "(2::nat) ^ (7 * Suc n) = 128 * p" by (simp add: p_def power_add)
  then have "unat ?r < 2 ^ (7 * Suc n)"
    using eq r le unfolding p_def [symmetric] by linarith
  moreover have "decode_varint_loop r n (b # rest) = decode_varint_loop ?r (Suc n) rest"
    using n hi by (subst decode_varint_loop.simps) (simp add: VARINT_MAX_BYTES_def Let_def)
  ultimately show ?thesis using eq by blast
qed

lemma decode_varint_loop_encoded:
  "unat r < 2 ^ (7 * n) \<Longrightarrow> unat r + w * 2 ^ (7 * n) < 2 ^ 64 \<Longrightarrow> n < 10 \<Longrightarrow> n = 0 \<or> w \<noteq> 0 \<Longrightarrow>
   decode_varint_loop r n (varint_bytes w @ rest) =
     (Value (of_nat (unat r + w * 2 ^ (7 * n))) (n + length (varint_bytes w)), rest)"
proof (induction w arbitrary: r n rule: varint_bytes.induct)
  case (1 w)
  show ?case
  proof (cases "w < 128")
    case True
    with 1 show ?thesis by (simp add: varint_bytes_small decode_varint_loop_last)
  next
    case False
    then have big: "128 \<le> w" by simp
    let ?b = "of_nat (w mod 128 + 128) :: byte"
    have b: "unat ?b = w mod 128 + 128" by (rule unat_of_nat_less) simp
    have n: "n < 9"
    proof (rule ccontr)
      assume "\<not> n < 9"
      then have "(2::nat) ^ 63 \<le> 2 ^ (7 * n)" by (intro power_increasing) auto
      then have "128 * 2 ^ 63 \<le> w * 2 ^ (7 * n)" using big by (intro mult_mono) auto
      with "1.prems"(2) show False by simp
    qed
    have "128 \<le> unat ?b" and m: "unat ?b mod 128 = w mod 128" unfolding b by simp_all
    from decode_varint_loop_more [OF "1.prems"(1) this(1) n, unfolded m] obtain r' where
      step: "decode_varint_loop r n (?b # varint_bytes (w div 128) @ rest)
        = decode_varint_loop r' (Suc n) (varint_bytes (w div 128) @ rest)"
      and r': "unat r' = unat r + (w mod 128) * 2 ^ (7 * n)" "unat r' < 2 ^ (7 * Suc n)"
      by blast
    have "w * 2 ^ (7 * n) = (w mod 128) * 2 ^ (7 * n) + (w div 128) * 2 ^ (7 * Suc n)"
    proof -
      have "w * 2 ^ (7 * n) = (w mod 128 + (w div 128) * 128) * 2 ^ (7 * n)"
        by (simp only: mod_div_mult_eq)
      then show ?thesis by (simp only: distrib_right mult_Suc_right power_add) simp
    qed
    then have sum: "unat r' + (w div 128) * 2 ^ (7 * Suc n) = unat r + w * 2 ^ (7 * n)"
      using r' by simp
    have "decode_varint_loop r' (Suc n) (varint_bytes (w div 128) @ rest) =
      (Value (of_nat (unat r' + (w div 128) * 2 ^ (7 * Suc n)))
        (Suc n + length (varint_bytes (w div 128))), rest)"
      using False r' sum "1.prems"(2) n by (intro "1.IH") auto
    then show ?thesis
      unfolding varint_bytes_large [OF big] append_Cons step sum by simp
  qed
qed

section \<open>What the decoder accepts\<close>

lemma continuation_byte_value:
  assumes "128 \<le> unat (b :: byte)"
  shows "of_nat (unat b mod 128 + 128) = b"
proof -
  have "unat b - 128 < 128" using unat_byte_less [of b] by linarith
  then have "unat b mod 128 + 128 = unat b" using assms le_mod_geq [OF assms] by simp
  then show ?thesis by (simp only: of_nat_unat ucast_id)
qed

lemma varint_last_bound:
  assumes r: "unat r < 2 ^ (7 * n)" and n: "n < 10" and w: "w < 128" and nine: "n = 9 \<Longrightarrow> w \<le> 1"
  shows "unat r + w * 2 ^ (7 * n) < 2 ^ 64"
proof (cases "n = 9")
  case True
  then show ?thesis using r nine by (cases w) auto
next
  case False
  define p :: nat where "p = 2 ^ (7 * n)"
  have "7 * n + 7 \<le> 63" using n False by simp
  then have "(2::nat) ^ (7 * n + 7) \<le> 2 ^ 63" by (rule power_increasing) simp
  then have big: "128 * p \<le> 2 ^ 63" by (simp only: power_add p_def) simp
  have "(w + 1) * p \<le> 128 * p" using w by (intro mult_right_mono) auto
  then have "w * p + p \<le> 2 ^ 63" using big by (simp only: distrib_right mult_1)
  then show ?thesis using r unfolding p_def [symmetric] by simp
qed

lemma decode_varint_loop_Value_last:
  assumes "decode_varint_loop r n (b # bs) = (Value v m, rest)" "unat r < 2 ^ (7 * n)" "n < 10" "unat b < 128"
  shows "rest = bs \<and> m = Suc n \<and> unat v = unat r + unat b * 2 ^ (7 * n) \<and> (n = 0 \<or> unat b \<noteq> 0)"
proof -
  have "n = 9 \<Longrightarrow> unat b \<le> 1" and nz: "n = 0 \<or> unat b \<noteq> 0"
    using assms(1) [unfolded decode_varint_loop.simps [of r n "b # bs"]] assms(3,4) unat_low7 [of b] high_bit_clear [of b]
    by (auto simp: VARINT_MAX_BYTES_def Let_def word_less_nat_alt unat_eq_zero [symmetric] split: if_splits)
  then have bound: "unat r + unat b * 2 ^ (7 * n) < 2 ^ 64"
    using varint_last_bound [OF assms(2,3,4)] by blast
  have "of_nat (unat b) = b" by simp
  then have "(v, m, rest) = (of_nat (unat r + unat b * 2 ^ (7 * n)), Suc n, bs)"
    using decode_varint_loop_last [OF assms(2,4) bound assms(3) nz, of bs] assms(1) by simp
  moreover from this have "unat v = unat r + unat b * 2 ^ (7 * n)"
    using unat_of_nat_u64 [OF bound] by (simp only: prod.inject)
  ultimately show ?thesis using nz by simp
qed

text \<open>Every accepted input is the reference encoding of the value it decodes to.\<close>

lemma decode_varint_loop_Value:
  "decode_varint_loop r n bs = (Value v m, rest) \<Longrightarrow> unat r < 2 ^ (7 * n) \<Longrightarrow> n < 10 \<Longrightarrow>
   \<exists>w. bs = varint_bytes w @ rest \<and> unat v = unat r + w * 2 ^ (7 * n)
     \<and> m = n + length (varint_bytes w) \<and> (n = 0 \<or> w \<noteq> 0)"
proof (induction bs arbitrary: r n)
  case Nil
  then show ?case by (simp add: decode_varint_loop.simps VARINT_MAX_BYTES_def)
next
  case (Cons b bs)
  show ?case
  proof (cases "unat b < 128")
    case True
    from decode_varint_loop_Value_last [OF Cons.prems True] show ?thesis
      using True by (intro exI [of _ "unat b"]) (simp add: varint_bytes_small)
  next
    case False
    then have b: "128 \<le> unat b" by simp
    have n: "n < 9"
    proof (rule ccontr)
      assume "\<not> n < 9"
      with Cons.prems(3) have "n = 9" by simp
      with Cons.prems(1) b show False
        by (auto simp: decode_varint_loop.simps [of r 9 "b # bs"] VARINT_MAX_BYTES_def Let_def
            high_bit_clear decode_varint_loop.simps [of _ 10] split: if_splits)
    qed
    from decode_varint_loop_more [OF Cons.prems(2) b n, of bs] obtain r' where
      step: "decode_varint_loop r n (b # bs) = decode_varint_loop r' (Suc n) bs"
      and r': "unat r' = unat r + (unat b mod 128) * 2 ^ (7 * n)" "unat r' < 2 ^ (7 * Suc n)"
      by blast
    from Cons.IH [of r' "Suc n"] Cons.prems(1) step r'(2) n obtain w where
      w: "bs = varint_bytes w @ rest" "unat v = unat r' + w * 2 ^ (7 * Suc n)"
        "m = Suc n + length (varint_bytes w)" "w \<noteq> 0" by auto
    have bb: "of_nat (unat b mod 128 + 128) = b"
      by (rule continuation_byte_value [OF b])
    let ?w = "unat b mod 128 + w * 128"
    have dm: "?w div 128 = w" "?w mod 128 = unat b mod 128" by simp_all
    have "varint_bytes ?w = b # varint_bytes w"
      using varint_bytes_large [of ?w, unfolded dm bb] w(4) by simp
    moreover have "unat v = unat r + ?w * 2 ^ (7 * n)"
      unfolding w(2) r'(1) by (simp only: distrib_right mult_Suc_right power_add) simp
    ultimately show ?thesis using w by (intro exI [of _ ?w]) simp
  qed
qed

lemma decode_varint_loop_Incomplete:
  "n < 10 \<Longrightarrow> (fst (decode_varint_loop r n bs) = Incomplete) \<longleftrightarrow>
     length bs + n < 10 \<and> (\<forall>b\<in>set bs. 128 \<le> unat b)"
proof (induction bs arbitrary: r n)
  case Nil
  then show ?case by (simp add: decode_varint_loop.simps VARINT_MAX_BYTES_def)
next
  case (Cons b bs)
  show ?case
  proof (cases "n = 9")
    case True
    then show ?thesis
      by (simp add: decode_varint_loop.simps [of r 9 "b # bs"] decode_varint_loop.simps [of _ 10]
          VARINT_MAX_BYTES_def Let_def)
  next
    case False
    with Cons.prems have "Suc n < 10" by simp
    with Cons.IH [OF this] False Cons.prems show ?thesis
      by (auto simp: decode_varint_loop.simps [of r n "b # bs"] VARINT_MAX_BYTES_def Let_def
          high_bit_clear)
  qed
qed

text \<open>A decoder that says it needs more bytes holds the beginning of some encoding.\<close>

lemma continuation_prefix:
  "\<forall>b\<in>set bs. 128 \<le> unat (b :: byte) \<Longrightarrow>
    \<exists>w. varint_bytes w = bs @ [1] \<and> 0 < w \<and> w < 2 * 128 ^ length bs"
proof (induction bs)
  case Nil
  then show ?case by (intro exI [of _ 1]) (simp add: varint_bytes_small)
next
  case (Cons b bs)
  then obtain w where w: "varint_bytes w = bs @ [1]" "0 < w" "w < 2 * 128 ^ length bs" by auto
  let ?w = "unat b mod 128 + w * 128"
  have b: "128 \<le> unat b" using Cons.prems by simp
  have bb: "of_nat (unat b mod 128 + 128) = b" by (rule continuation_byte_value [OF b])
  have dm: "?w div 128 = w" "?w mod 128 = unat b mod 128" by simp_all
  have "varint_bytes ?w = b # bs @ [1]"
    using varint_bytes_large [of ?w, unfolded dm bb w(1)] w(2) by simp
  moreover have "unat b mod 128 < 128" by simp
  moreover have "(w + 1) * 128 \<le> 2 * 128 ^ length bs * 128"
    using w(3) by (intro mult_right_mono) auto
  ultimately show ?case using w(2) by (intro exI [of _ ?w]) (simp add: algebra_simps)
qed

lemma length_varint_bytes_le: "w < 128 ^ Suc k \<Longrightarrow> length (varint_bytes w) \<le> Suc k"
proof (induction k arbitrary: w)
  case 0
  then show ?case by (simp add: varint_bytes_small)
next
  case (Suc k)
  show ?case
  proof (cases "w < 128")
    case True
    then show ?thesis by (simp add: varint_bytes_small)
  next
    case False
    have "w div 128 < 128 ^ Suc k" using Suc.prems by (simp add: div_less_iff_less_mult mult.commute)
    with Suc.IH have "length (varint_bytes (w div 128)) \<le> Suc k" by blast
    then show ?thesis using False by (simp add: varint_bytes_large)
  qed
qed

section \<open>The contract of the codec\<close>

lemma decode_varint_loop_extend:
  "decode_varint_loop r n bs = (res, rest) \<Longrightarrow> res \<noteq> Incomplete \<Longrightarrow>
   decode_varint_loop r n (bs @ ext) = (res, rest @ ext)"
proof (induction bs arbitrary: r n)
  case Nil
  then show ?case by (auto simp: decode_varint_loop.simps split: if_splits)
next
  case (Cons b bs)
  then show ?case
    by (auto simp: decode_varint_loop.simps [of r n "b # _"] Let_def split: if_splits)
qed

lemma decode_varint_checked_extend:
  "fst (decode_varint_checked bs) \<noteq> Incomplete \<Longrightarrow>
   fst (decode_varint_checked (bs @ ext)) = fst (decode_varint_checked bs)"
  using decode_varint_loop_extend [of 0 0 bs "fst (decode_varint_checked bs)"
      "snd (decode_varint_checked bs)"]
  by (simp add: decode_varint_checked_def)

lemma length_encode_varint_vec:
  "0 < length (encode_varint_vec v)" "length (encode_varint_vec v) \<le> 10"
  using length_varint_bytes_le [of "unat v" 9] unat_u64_less [of v]
  by (simp_all add: encode_varint_vec_eq)

lemma encode_varint_vec_Nil [simp]: "encode_varint_vec v \<noteq> []"
  by (simp add: encode_varint_vec_eq)

lemma decode_varint_checked_encode [simp]:
  "decode_varint_checked (encode_varint_vec v @ rest) = (Value v (length (encode_varint_vec v)), rest)"
  using decode_varint_loop_encoded [of 0 0 "unat v" rest] unat_u64_less [of v]
  by (simp add: decode_varint_checked_def encode_varint_vec_eq)

lemma decode_varint_checked_Value:
  assumes "decode_varint_checked bs = (Value v m, rest)"
  shows "bs = encode_varint_vec v @ rest" "m = length (encode_varint_vec v)"
proof -
  from decode_varint_loop_Value [OF assms [unfolded decode_varint_checked_def]]
  obtain w where "bs = varint_bytes w @ rest" "unat v = w" "m = length (varint_bytes w)" by auto
  then show "bs = encode_varint_vec v @ rest" "m = length (encode_varint_vec v)"
    by (simp_all add: encode_varint_vec_eq)
qed

lemma decode_varint_checked_Value_iff:
  "decode_varint_checked bs = (Value v m, rest) \<longleftrightarrow>
     bs = encode_varint_vec v @ rest \<and> m = length (encode_varint_vec v)"
  using decode_varint_checked_Value by fastforce

lemma decode_varint_checked_Incomplete:
  "(fst (decode_varint_checked bs) = Incomplete) \<longleftrightarrow>
     length bs < 10 \<and> (\<forall>b\<in>set bs. 128 \<le> unat b)"
  by (simp add: decode_varint_checked_def decode_varint_loop_Incomplete)

lemma varint_bytes_init:
  "varint_bytes w = bs @ ext \<Longrightarrow> ext \<noteq> [] \<Longrightarrow> \<forall>b\<in>set bs. 128 \<le> unat b"
proof (induction w arbitrary: bs rule: varint_bytes.induct)
  case (1 w)
  show ?case
  proof (cases "w < 128")
    case True
    with "1.prems" show ?thesis by (cases bs) (auto simp: varint_bytes_small)
  next
    case False
    let ?b = "of_nat (w mod 128 + 128) :: byte"
    have b: "unat ?b = w mod 128 + 128" by (rule unat_of_nat_less) simp
    show ?thesis
    proof (cases bs)
      case (Cons c cs)
      with "1.prems"(1) False have "c = ?b" "varint_bytes (w div 128) = cs @ ext"
        by (simp_all add: varint_bytes_large)
      with "1.IH" [of cs] False "1.prems"(2) Cons b show ?thesis by (simp del: of_nat_add)
    qed simp
  qed
qed

lemma decode_varint_checked_proper_prefix:
  assumes "encode_varint_vec v = bs @ ext" "ext \<noteq> []"
  shows "fst (decode_varint_checked bs) = Incomplete"
proof -
  have "\<forall>b\<in>set bs. 128 \<le> unat b"
    using assms varint_bytes_init unfolding encode_varint_vec_eq by blast
  moreover have "length bs < 10"
    using length_encode_varint_vec(2) [of v] assms by (cases ext) auto
  ultimately show ?thesis by (simp add: decode_varint_checked_Incomplete)
qed

lemma decode_varint_checked_Incomplete_prefix:
  assumes "fst (decode_varint_checked bs) = Incomplete"
  shows "\<exists>v ext. ext \<noteq> [] \<and> encode_varint_vec v = bs @ ext"
proof -
  have b: "length bs < 10" "\<forall>b\<in>set bs. 128 \<le> unat b"
    using assms by (simp_all add: decode_varint_checked_Incomplete)
  from continuation_prefix [OF b(2)] obtain w where
    w: "varint_bytes w = bs @ [1]" "w < 2 * 128 ^ length bs" by blast
  have "(128::nat) ^ length bs \<le> 128 ^ 9" using b(1) by (intro power_increasing) auto
  with w(2) have "w < 2 ^ 64" by simp
  with w(1) have "encode_varint_vec (of_nat w) = bs @ [1]"
    by (simp add: encode_varint_vec_eq unat_of_nat_u64)
  then show ?thesis by (intro exI [of _ "of_nat w"] exI [of _ "[1]"]) simp
qed

text \<open>(C39) The varint decoder is the inverse of the encoder and accepts nothing else: it returns a
  value with its byte count and the unread rest exactly when the buffer starts with the encoding of
  that value, so over-long, truncated and overflowing forms are never accepted.\<close>

theorem varint_decodes_exactly_encodings:
  "decode_varint bs = (Some (v, m), rest) \<longleftrightarrow>
     bs = encode_varint_vec v @ rest \<and> m = length (encode_varint_vec v) \<and> m \<in> {1..10}"
proof -
  have "decode_varint bs = (Some (v, m), rest) \<longleftrightarrow> decode_varint_checked bs = (Value v m, rest)"
    by (auto simp: decode_varint_def split: prod.splits Varint.splits)
  then show ?thesis
    using length_encode_varint_vec [of v] by (auto simp: decode_varint_checked_Value_iff Suc_le_eq)
qed

text \<open>The decoder asks for more input exactly when the bytes it has are a proper beginning of
  some encoding, so a streaming reader never waits on bytes that no continuation could complete.\<close>

theorem varint_incomplete_iff_extensible:
  "fst (decode_varint_checked bs) = Incomplete \<longleftrightarrow>
     (\<exists>v ext. ext \<noteq> [] \<and> encode_varint_vec v = bs @ ext)"
  using decode_varint_checked_Incomplete_prefix decode_varint_checked_proper_prefix by blast

end
