(* ===== verification/Framing.thy ===== *)
theory Framing
  imports Varint
begin

text \<open>The frame codec of the protocol crate (\<^verbatim>\<open>src/crates/construct-veil-protocol/src/framing.rs\<close>)
  and the wire constants of its \<^verbatim>\<open>lib.rs\<close>.  The buffer that the Rust code passes by mutable
  reference is an argument and a result.  An \<^verbatim>\<open>io::Error\<close> is a value of \<^verbatim>\<open>frame_error\<close>, one
  constructor per message of the source.  The largest \<^verbatim>\<open>usize\<close> of the target is the first argument
  of \<^verbatim>\<open>decode_on\<close>; \<^verbatim>\<open>decode\<close> fixes a 64-bit target.

  The second half gives the contract every reader of the stream relies on: the decoder is
  characterised by the wire form of a frame, it is stable when more bytes arrive, and the loop that
  empties a receive buffer does not depend on how the stream was cut into reads.  That last part is
  proved once in the locale \<^verbatim>\<open>stream_decoder\<close> and interpreted on the codec.\<close>

section \<open>Wire constants\<close>

definition WIRE_VER :: byte where "WIRE_VER = 3"
definition EXPORTER_LABEL :: string where "EXPORTER_LABEL = ''construct veil-front auth v1''"
definition EXPORTER_LEN :: nat where "EXPORTER_LEN = 32"
definition SUITE_CLASSIC_V1 :: byte where "SUITE_CLASSIC_V1 = 1"
definition FRAME_TYPE_AUTH :: byte where "FRAME_TYPE_AUTH = 0"
definition FRAME_TYPE_DATA :: byte where "FRAME_TYPE_DATA = 1"
definition FRAME_TYPE_CHAFF :: byte where "FRAME_TYPE_CHAFF = 2"
definition FRAME_TYPE_AUTH_V2 :: byte where "FRAME_TYPE_AUTH_V2 = 3"
definition FRAME_TYPE_AUTH_V3 :: byte where "FRAME_TYPE_AUTH_V3 = 4"

named_theorems frame_type_defs
declare FRAME_TYPE_AUTH_def [frame_type_defs] FRAME_TYPE_DATA_def [frame_type_defs]
  FRAME_TYPE_CHAFF_def [frame_type_defs] FRAME_TYPE_AUTH_V2_def [frame_type_defs]
  FRAME_TYPE_AUTH_V3_def [frame_type_defs]

section \<open>Padding buckets\<close>

definition DEFAULT_MAX_PAYLOAD :: nat where "DEFAULT_MAX_PAYLOAD = 1024 * 1024"

definition LENGTH_BUCKETS :: "nat list" where
  "LENGTH_BUCKETS = [64, 128, 192, 256, 384, 512, 768, 1024, 1536, 2048, 3072, 4096, 6144, 8192,
     12288, 16384]"

fun pick_bucket :: "nat list \<Rightarrow> nat \<Rightarrow> nat" where
  "pick_bucket [] payload_len = payload_len"
| "pick_bucket (b # bs) payload_len = (if payload_len \<le> b then b else pick_bucket bs payload_len)"

section \<open>The codec's configuration and its frames\<close>

record VeilFrontCodec =
  max_payload :: nat
  buckets :: "nat list option"

definition codec_new :: VeilFrontCodec where
  "codec_new = \<lparr>max_payload = DEFAULT_MAX_PAYLOAD, buckets = None\<rparr>"

definition with_max_payload :: "nat \<Rightarrow> VeilFrontCodec" where
  "with_max_payload m = \<lparr>max_payload = m, buckets = None\<rparr>"

definition with_buckets :: "nat list \<Rightarrow> VeilFrontCodec \<Rightarrow> VeilFrontCodec" where
  "with_buckets b codec = codec\<lparr>buckets := Some b\<rparr>"

record Frame =
  frame_type :: byte
  payload :: bytes

definition frame_new :: "byte \<Rightarrow> bytes \<Rightarrow> Frame" where
  "frame_new ty p = \<lparr>frame_type = ty, payload = p\<rparr>"

definition frame_data :: "bytes \<Rightarrow> Frame" where
  "frame_data p = \<lparr>frame_type = FRAME_TYPE_DATA, payload = p\<rparr>"

definition frame_chaff :: "bytes \<Rightarrow> Frame" where
  "frame_chaff p = \<lparr>frame_type = FRAME_TYPE_CHAFF, payload = p\<rparr>"

definition frame_auth :: "bytes \<Rightarrow> Frame" where
  "frame_auth p = \<lparr>frame_type = FRAME_TYPE_AUTH, payload = p\<rparr>"

definition frame_auth_v2 :: "bytes \<Rightarrow> Frame" where
  "frame_auth_v2 p = \<lparr>frame_type = FRAME_TYPE_AUTH_V2, payload = p\<rparr>"

definition frame_auth_v3 :: "bytes \<Rightarrow> Frame" where
  "frame_auth_v3 p = \<lparr>frame_type = FRAME_TYPE_AUTH_V3, payload = p\<rparr>"

definition is_auth :: "Frame \<Rightarrow> bool" where "is_auth f \<longleftrightarrow> frame_type f = FRAME_TYPE_AUTH"
definition is_auth_v2 :: "Frame \<Rightarrow> bool" where "is_auth_v2 f \<longleftrightarrow> frame_type f = FRAME_TYPE_AUTH_V2"
definition is_auth_v3 :: "Frame \<Rightarrow> bool" where "is_auth_v3 f \<longleftrightarrow> frame_type f = FRAME_TYPE_AUTH_V3"
definition is_data :: "Frame \<Rightarrow> bool" where "is_data f \<longleftrightarrow> frame_type f = FRAME_TYPE_DATA"
definition is_chaff :: "Frame \<Rightarrow> bool" where "is_chaff f \<longleftrightarrow> frame_type f = FRAME_TYPE_CHAFF"

lemmas frame_kind_defs = is_auth_def is_auth_v2_def is_auth_v3_def is_data_def is_chaff_def
  frame_data_def frame_chaff_def frame_auth_def frame_auth_v2_def frame_auth_v3_def

section \<open>Encoder\<close>

definition encode_to_bytes :: "Frame \<Rightarrow> bytes" where
  "encode_to_bytes f =
     (let buf = [WIRE_VER];
          buf = buf @ [frame_type f];
          buf = fst (encode_varint (of_nat (length (payload f))) buf);
          buf = fst (encode_varint 0 buf)
      in buf @ payload f)"

datatype frame_error =
    UnknownVersion byte
  | MalformedHeader string
  | TooLarge string u64 nat
  | TruncatedAtEof

datatype ErrorKind = InvalidData | UnexpectedEof

fun frame_error_kind :: "frame_error \<Rightarrow> ErrorKind" where
  "frame_error_kind (UnknownVersion _) = InvalidData"
| "frame_error_kind (MalformedHeader _) = InvalidData"
| "frame_error_kind (TooLarge _ _ _) = InvalidData"
| "frame_error_kind TruncatedAtEof = UnexpectedEof"

definition encode :: "VeilFrontCodec \<Rightarrow> Frame \<Rightarrow> bytes \<Rightarrow> (frame_error + unit) \<times> bytes" where
  "encode codec item dst =
     (let payload_len = length (payload item);
          pad_len = (case buckets codec of
                       Some b \<Rightarrow> pick_bucket b payload_len - payload_len
                     | None \<Rightarrow> 0);
          dst = dst @ [WIRE_VER];
          dst = dst @ [frame_type item];
          dst = fst (encode_varint (of_nat payload_len) dst);
          dst = fst (encode_varint (of_nat pad_len) dst);
          dst = dst @ payload item;
          dst = (if 0 < pad_len then dst @ replicate pad_len 0 else dst)
      in (Inr (), dst))"

section \<open>Decoder\<close>

definition checked_add :: "nat \<Rightarrow> nat \<Rightarrow> nat \<Rightarrow> nat option" where
  "checked_add umax a b = (if a + b \<le> umax then Some (a + b) else None)"

definition bounded_len :: "nat \<Rightarrow> u64 \<Rightarrow> nat \<Rightarrow> string \<Rightarrow> frame_error + nat" where
  "bounded_len umax len cap what =
     (if unat len \<le> umax \<and> unat len \<le> cap then Inr (unat len) else Inl (TooLarge what len cap))"

definition decode_on ::
  "nat \<Rightarrow> VeilFrontCodec \<Rightarrow> bytes \<Rightarrow> (frame_error + Frame option) \<times> bytes" where
  "decode_on umax codec src =
     (if src = [] then (Inr None, src)
      else if src ! 0 \<noteq> WIRE_VER then (Inl (UnknownVersion (src ! 0)), src)
      else if length src < 2 then (Inr None, src)
      else case fst (decode_varint_checked (drop 2 src)) of
        Incomplete \<Rightarrow> (Inr None, src)
      | Malformed \<Rightarrow> (Inl (MalformedHeader ''payload_len''), src)
      | Value pl vb_payload \<Rightarrow>
          (case bounded_len umax pl (max_payload codec) ''payload'' of
             Inl e \<Rightarrow> (Inl e, src)
           | Inr payload_len \<Rightarrow>
               let pre_pad_off = 2 + vb_payload in
               if length src \<le> pre_pad_off then (Inr None, src)
               else case fst (decode_varint_checked (drop pre_pad_off src)) of
                 Incomplete \<Rightarrow> (Inr None, src)
               | Malformed \<Rightarrow> (Inl (MalformedHeader ''pad_len''), src)
               | Value pd vb_pad \<Rightarrow>
                   (case bounded_len umax pd (max_payload codec) ''pad'' of
                      Inl e \<Rightarrow> (Inl e, src)
                    | Inr pad_len \<Rightarrow>
                        (case Option.bind (checked_add umax (2 + vb_payload + vb_pad) payload_len)
                                (\<lambda>n. checked_add umax n pad_len) of
                           None \<Rightarrow> (Inl (MalformedHeader ''frame length''), src)
                         | Some total_len \<Rightarrow>
                             let header_len = 2 + vb_payload + vb_pad in
                             if length src < total_len then (Inr None, src)
                             else let src' = drop header_len src;
                                      p = take payload_len src';
                                      src' = drop payload_len src';
                                      src' = drop pad_len src'
                                  in (Inr (Some \<lparr>frame_type = src ! 1, payload = p\<rparr>), src')))))"

definition USIZE_MAX :: nat where "USIZE_MAX = 2 ^ 64 - 1"

definition decode :: "VeilFrontCodec \<Rightarrow> bytes \<Rightarrow> (frame_error + Frame option) \<times> bytes" where
  "decode = decode_on USIZE_MAX"

definition decode_eof :: "bytes \<Rightarrow> frame_error + Frame option" where
  "decode_eof src = (if src \<noteq> [] then Inl TruncatedAtEof else Inr None)"

section \<open>The wire form of a frame\<close>

text \<open>The reference for both directions: header, payload, and any padding bytes.\<close>

definition wire :: "Frame \<Rightarrow> bytes \<Rightarrow> bytes" where
  "wire f pad = WIRE_VER # frame_type f # encode_varint_vec (of_nat (length (payload f)))
     @ encode_varint_vec (of_nat (length pad)) @ payload f @ pad"

definition frame_pad :: "VeilFrontCodec \<Rightarrow> Frame \<Rightarrow> nat" where
  "frame_pad codec f =
     (case buckets codec of
        Some b \<Rightarrow> pick_bucket b (length (payload f)) - length (payload f)
      | None \<Rightarrow> 0)"

definition frame_bytes :: "VeilFrontCodec \<Rightarrow> Frame \<Rightarrow> bytes" where
  "frame_bytes codec f = wire f (replicate (frame_pad codec f) 0)"

text \<open>A codec accepts a frame with a given number of padding bytes.\<close>

definition fits :: "VeilFrontCodec \<Rightarrow> Frame \<Rightarrow> nat \<Rightarrow> bool" where
  "fits codec f pad \<longleftrightarrow> length (payload f) \<le> max_payload codec \<and> pad \<le> max_payload codec"

definition codec_ok :: "nat \<Rightarrow> VeilFrontCodec \<Rightarrow> bool" where
  "codec_ok umax codec \<longleftrightarrow> 22 + 2 * max_payload codec \<le> umax"

lemma wire_Nil [simp]: "wire f pad \<noteq> []"
  by (simp add: wire_def)

lemma length_wire:
  "length (wire f pad) = 2 + length (encode_varint_vec (of_nat (length (payload f))))
     + length (encode_varint_vec (of_nat (length pad))) + length (payload f) + length pad"
  by (simp add: wire_def)

lemma length_wire_le: "length (wire f pad) \<le> 22 + length (payload f) + length pad"
  using length_encode_varint_vec(2) [of "of_nat (length (payload f))"]
    length_encode_varint_vec(2) [of "of_nat (length pad)"] by (simp add: length_wire)

lemma encode_varint_append: "fst (encode_varint v buf) = buf @ encode_varint_vec v"
  by (simp add: encode_varint_vec_eq encode_varint_eq)

lemma encode_eq: "encode codec f dst = (Inr (), dst @ frame_bytes codec f)"
  by (cases "frame_pad codec f")
     (auto simp: encode_def frame_bytes_def frame_pad_def wire_def Let_def encode_varint_append
       split: option.splits)

lemma encode_to_bytes_eq: "encode_to_bytes f = wire f []"
  by (simp add: encode_to_bytes_def wire_def Let_def encode_varint_append)

lemma encode_to_bytes_frame_bytes: "buckets codec = None \<Longrightarrow> encode_to_bytes f = frame_bytes codec f"
  by (simp add: encode_to_bytes_eq frame_bytes_def frame_pad_def)

section \<open>The decoder against the wire form\<close>

lemma fst_decode_varint_checked_encode [simp]:
  "fst (decode_varint_checked (encode_varint_vec v @ rest)) = Value v (length (encode_varint_vec v))"
  by simp

lemma fst_decode_varint_checked_Value:
  assumes "fst (decode_varint_checked bs) = Value v m"
  shows "\<exists>rest. bs = encode_varint_vec v @ rest \<and> m = length (encode_varint_vec v)"
  using decode_varint_checked_Value [of bs v m "snd (decode_varint_checked bs)"] assms
  by (metis prod.collapse)

lemma decode_on_wire:
  assumes umax: "umax < 2 ^ 64" and fits: "fits codec f (length pad)"
    and total: "length (wire f pad) \<le> umax"
  shows "decode_on umax codec (wire f pad @ rest) = (Inr (Some f), rest)"
proof -
  let ?p = "of_nat (length (payload f)) :: u64" and ?d = "of_nat (length pad) :: u64"
  have p: "unat ?p = length (payload f)" and d: "unat ?d = length pad"
    using umax total by (auto simp: length_wire intro!: unat_of_nat_u64)
  have b: "bounded_len umax ?p (max_payload codec) ''payload'' = Inr (length (payload f))"
    "bounded_len umax ?d (max_payload codec) ''pad'' = Inr (length pad)"
    using fits total by (auto simp: bounded_len_def p d fits_def length_wire)
  have a: "Option.bind (checked_add umax (2 + length (encode_varint_vec ?p)
      + length (encode_varint_vec ?d)) (length (payload f))) (\<lambda>n. checked_add umax n (length pad))
    = Some (length (wire f pad))"
    using total by (simp add: checked_add_def length_wire)
  have src: "wire f pad @ rest = WIRE_VER # frame_type f # encode_varint_vec ?p
      @ encode_varint_vec ?d @ payload f @ pad @ rest"
    by (simp add: wire_def)
  show ?thesis
    unfolding decode_on_def src using a by (simp add: b Let_def length_wire)
qed

lemma decode_on_Some:
  assumes "decode_on umax codec src = (Inr (Some f), rest)"
  shows "\<exists>pad. src = wire f pad @ rest \<and> fits codec f (length pad) \<and> length (wire f pad) \<le> umax"
proof -
  from assms obtain pl n pd m where
    src: "src \<noteq> []" "src ! 0 = WIRE_VER" "2 \<le> length src"
    and pl: "fst (decode_varint_checked (drop 2 src)) = Value pl n"
      "unat pl \<le> umax" "unat pl \<le> max_payload codec"
    and pd: "fst (decode_varint_checked (drop (2 + n) src)) = Value pd m"
      "unat pd \<le> umax" "unat pd \<le> max_payload codec"
    and tot: "2 + n + m + unat pl + unat pd \<le> umax" "2 + n + m + unat pl + unat pd \<le> length src"
    and f: "f = \<lparr>frame_type = src ! 1, payload = take (unat pl) (drop (2 + n + m) src)\<rparr>"
    and rest: "rest = drop (unat pd) (drop (unat pl) (drop (2 + n + m) src))"
    by (auto simp: decode_on_def Let_def bounded_len_def checked_add_def bind_eq_Some_conv
        simp del: drop_drop split: if_splits Varint.splits option.splits sum.splits)
  obtain ty t where t: "src = WIRE_VER # ty # t"
    using src(2,3) by (auto simp: numeral_2_eq_2 Suc_le_length_iff)
  obtain r1 where r1: "t = encode_varint_vec pl @ r1" "n = length (encode_varint_vec pl)"
    using pl(1) unfolding t by (auto dest!: fst_decode_varint_checked_Value)
  obtain r2 where r2: "r1 = encode_varint_vec pd @ r2" "m = length (encode_varint_vec pd)"
    using pd(1) unfolding t r1 by (auto dest!: fst_decode_varint_checked_Value)
  let ?pad = "take (unat pd) (drop (unat pl) r2)"
  have len: "unat pl + unat pd \<le> length r2" using tot(2) t r1 r2 by simp
  have f': "f = \<lparr>frame_type = ty, payload = take (unat pl) r2\<rparr>" using f t r1 r2 by simp
  have "src = wire f ?pad @ rest"
    using len rest t r1 r2 f' by (simp add: wire_def flip: drop_drop)
  moreover have "length ?pad = unat pd" "length (payload f) = unat pl" using len f' by simp_all
  ultimately show ?thesis
    using pl pd tot r1 r2 by (intro exI [of _ ?pad]) (simp add: fits_def length_wire)
qed

lemma decode_on_Some_iff:
  assumes "umax < 2 ^ 64"
  shows "decode_on umax codec src = (Inr (Some f), rest) \<longleftrightarrow>
    (\<exists>pad. src = wire f pad @ rest \<and> fits codec f (length pad) \<and> length (wire f pad) \<le> umax)"
  using decode_on_Some decode_on_wire [OF assms] by metis

section \<open>More bytes never change a verdict\<close>

lemma decode_on_error_extend:
  assumes "decode_on umax codec src = (Inl e, src')"
  shows "decode_on umax codec (src @ ext) = (Inl e, src' @ ext)"
proof -
  have nz: "src \<noteq> []" using assms by (auto simp: decode_on_def)
  show ?thesis
  proof (cases "src ! 0 = WIRE_VER")
    case False
    with nz assms show ?thesis by (auto simp: decode_on_def nth_append)
  next
    case True
    have two: "2 \<le> length src" using assms nz True by (auto simp: decode_on_def split: if_splits)
    have no: "fst (decode_varint_checked (drop 2 src)) \<noteq> Incomplete"
      using assms nz True two by (auto simp: decode_on_def)
    note e1 = decode_varint_checked_extend [OF no, of ext]
    show ?thesis
    proof (cases "fst (decode_varint_checked (drop 2 src))")
      case (Value pl n)
      show ?thesis
      proof (cases "bounded_len umax pl (max_payload codec) ''payload''")
        case (Inl e')
        then show ?thesis using assms nz True two e1 Value by (simp add: decode_on_def nth_append)
      next
        case (Inr p)
        have off: "\<not> length src \<le> 2 + n"
          using assms nz True two Value Inr by (auto simp: decode_on_def Let_def)
        have no2: "fst (decode_varint_checked (drop (2 + n) src)) \<noteq> Incomplete"
          using assms nz True two Value Inr off by (auto simp: decode_on_def Let_def)
        note e2 = decode_varint_checked_extend [OF no2, of ext]
        show ?thesis
          using assms nz True two e1 e2 Value Inr off no2
          by (auto simp: decode_on_def nth_append Let_def
              split: Varint.splits sum.splits option.splits if_splits)
      qed
    qed (use assms nz True two e1 no in \<open>simp_all add: decode_on_def nth_append\<close>)
  qed
qed

lemma decode_on_Some_extend:
  assumes "umax < 2 ^ 64" "decode_on umax codec src = (Inr (Some f), rest)"
  shows "decode_on umax codec (src @ ext) = (Inr (Some f), rest @ ext)"
proof -
  from decode_on_Some [OF assms(2)] obtain pad where
    "src @ ext = wire f pad @ (rest @ ext)" "fits codec f (length pad)" "length (wire f pad) \<le> umax"
    by auto
  then show ?thesis using decode_on_wire [OF assms(1)] by simp
qed

lemma decode_on_None: "decode_on umax codec src = (Inr None, src') \<Longrightarrow> src' = src"
  by (auto simp: decode_on_def Let_def split: if_splits Varint.splits sum.splits option.splits)

lemma decode_on_error_keeps: "decode_on umax codec src = (Inl e, src') \<Longrightarrow> src' = src"
  by (auto simp: decode_on_def Let_def split: if_splits Varint.splits sum.splits option.splits)

lemma decode_on_shrinks: "decode_on umax codec src = (Inr (Some f), rest) \<Longrightarrow> length rest < length src"
  using decode_on_Some length_wire by fastforce

lemma decode_on_proper_prefix:
  assumes umax: "umax < 2 ^ 64" and ok: "codec_ok umax codec" and fits: "fits codec f (length pad)"
    and pre: "src @ ext = wire f pad" and ext: "ext \<noteq> []"
  shows "decode_on umax codec src = (Inr None, src)"
proof -
  have "length (wire f pad) \<le> umax"
    using length_wire_le [of f pad] ok fits by (simp add: codec_ok_def fits_def)
  then have full: "decode_on umax codec (src @ ext) = (Inr (Some f), [])"
    using decode_on_wire [OF umax fits, of "[]"] pre by simp
  obtain r src' where d: "decode_on umax codec src = (r, src')" by fastforce
  show ?thesis
  proof (cases r)
    case (Inl e)
    then show ?thesis using decode_on_error_extend [of umax codec src e src' ext] d full by simp
  next
    case (Inr o1)
    then show ?thesis
      using decode_on_Some_extend [OF umax, of codec src _ src' ext] decode_on_None d full ext
      by (cases o1) auto
  qed
qed

lemma decode_on_None_bound:
  assumes "decode_on umax codec src = (Inr None, src')"
  shows "length src < 22 + 2 * max_payload codec"
proof (rule ccontr)
  assume "\<not> ?thesis"
  then have big: "22 + 2 * max_payload codec \<le> length src" by simp
  have inc: "fst (decode_varint_checked (drop k src)) \<noteq> Incomplete" if "k + 10 \<le> length src" for k
    using that by (auto simp: decode_varint_checked_Incomplete)
  have cnt: "n \<le> 10" if "fst (decode_varint_checked (drop k src)) = Value v n" for k v n
    using that fst_decode_varint_checked_Value length_encode_varint_vec(2) by blast
  have src: "src \<noteq> []" "src ! 0 = WIRE_VER" "\<not> length src < 2"
    using assms big by (auto simp: decode_on_def split: if_splits)
  obtain pl n p where pl: "fst (decode_varint_checked (drop 2 src)) = Value pl n"
    "bounded_len umax pl (max_payload codec) ''payload'' = Inr p"
    using assms src inc [of 2] big by (auto simp: decode_on_def split: Varint.splits sum.splits)
  have n: "2 + n + 10 \<le> length src" using cnt [OF pl(1)] big by simp
  obtain pd m d where pd: "fst (decode_varint_checked (drop (2 + n) src)) = Value pd m"
    "bounded_len umax pd (max_payload codec) ''pad'' = Inr d"
    using assms src pl inc [OF n] n
    by (auto simp: decode_on_def Let_def split: Varint.splits sum.splits)
  have "2 + n + m + p + d \<le> length src"
    using cnt [OF pl(1)] cnt [OF pd(1)] pl(2) pd(2) big
    by (auto simp: bounded_len_def split: if_splits)
  then show False
    using assms src pl pd n
    by (auto simp: decode_on_def Let_def checked_add_def split: option.splits if_splits)
qed

lemma bounded_len_targets:
  "cap \<le> u1 \<Longrightarrow> cap \<le> u2 \<Longrightarrow> bounded_len u1 len cap what = bounded_len u2 len cap what"
  by (auto simp: bounded_len_def)

lemma decode_on_targets:
  assumes "codec_ok u1 codec" "codec_ok u2 codec"
  shows "decode_on u1 codec src = decode_on u2 codec src"
proof -
  have b: "bounded_len u1 len (max_payload codec) what = bounded_len u2 len (max_payload codec) what"
    for len what using assms by (intro bounded_len_targets) (auto simp: codec_ok_def)
  have cnt: "n \<le> 10" if "fst (decode_varint_checked bs) = Value v n" for bs v n
    using that fst_decode_varint_checked_Value length_encode_varint_vec(2) by blast
  have c: "Option.bind (checked_add u1 (2 + n + m) p) (\<lambda>k. checked_add u1 k d)
      = Option.bind (checked_add u2 (2 + n + m) p) (\<lambda>k. checked_add u2 k d)"
    if "fst (decode_varint_checked bs) = Value v n" "fst (decode_varint_checked bs') = Value v' m"
      "bounded_len u2 v (max_payload codec) w = Inr p" "bounded_len u2 v' (max_payload codec) w' = Inr d"
    for n m p d bs bs' v v' w w'
    using cnt [OF that(1)] cnt [OF that(2)] that(3,4) assms
    by (auto simp: checked_add_def codec_ok_def bounded_len_def split: if_splits)
  show ?thesis
  proof (cases "\<exists>pl n p pd m d. fst (decode_varint_checked (drop 2 src)) = Value pl n
      \<and> bounded_len u2 pl (max_payload codec) ''payload'' = Inr p
      \<and> fst (decode_varint_checked (drop (2 + n) src)) = Value pd m
      \<and> bounded_len u2 pd (max_payload codec) ''pad'' = Inr d")
    case True
    then obtain pl n p pd m d where v: "fst (decode_varint_checked (drop 2 src)) = Value pl n"
      "fst (decode_varint_checked (drop (2 + n) src)) = Value pd m"
      "bounded_len u2 pl (max_payload codec) ''payload'' = Inr p"
      "bounded_len u2 pd (max_payload codec) ''pad'' = Inr d"
      by blast
    show ?thesis by (simp only: decode_on_def Let_def b v c [OF v] Varint.case sum.case)
  next
    case False
    then show ?thesis
      by (auto simp: decode_on_def Let_def b split: Varint.splits sum.splits)
  qed
qed

section \<open>Emptying a receive buffer\<close>

text \<open>The loop every reader of the stream runs after a read: decode frames until the buffer holds no
  complete one, or the stream is broken.\<close>

function drain_frames :: "VeilFrontCodec \<Rightarrow> bytes \<Rightarrow> Frame list \<times> frame_error option \<times> bytes" where
  "drain_frames codec buf =
     (case decode codec buf of
        (Inl e, buf') \<Rightarrow> ([], Some e, buf')
      | (Inr None, buf') \<Rightarrow> ([], None, buf')
      | (Inr (Some f), buf') \<Rightarrow>
          (case drain_frames codec buf' of (fs, e, rest) \<Rightarrow> (f # fs, e, rest)))"
  by pat_completeness auto

lemma decode_shrinks: "decode codec src = (Inr (Some f), rest) \<Longrightarrow> length rest < length src"
  by (simp add: decode_def decode_on_shrinks)

termination drain_frames
  by (relation "measure (length \<circ> snd)") (auto dest: decode_shrinks [OF sym])

declare drain_frames.simps [simp del]

text \<open>A reader that is fed one chunk per read, keeps what is left, and stops at the first error.\<close>

fun drain_chunks ::
  "VeilFrontCodec \<Rightarrow> bytes \<Rightarrow> bytes list \<Rightarrow> Frame list \<times> frame_error option \<times> bytes" where
  "drain_chunks codec buf [] = ([], None, buf)"
| "drain_chunks codec buf (c # cs) =
     (case drain_frames codec (buf @ c) of
        (fs, Some e, rest) \<Rightarrow> (fs, Some e, rest)
      | (fs, None, rest) \<Rightarrow>
          (case drain_chunks codec rest cs of (fs', e, rest') \<Rightarrow> (fs @ fs', e, rest')))"

locale stream_decoder =
  fixes dec :: "bytes \<Rightarrow> ('e + 'f option) \<times> bytes"
    and drain :: "bytes \<Rightarrow> 'f list \<times> 'e option \<times> bytes"
  assumes dec_shrinks: "dec b = (Inr (Some f), r) \<Longrightarrow> length r < length b"
    and dec_None_keeps: "dec b = (Inr None, r) \<Longrightarrow> r = b"
    and dec_Some_extend: "dec b = (Inr (Some f), r) \<Longrightarrow> dec (b @ x) = (Inr (Some f), r @ x)"
    and dec_error_extend: "dec b = (Inl e, r) \<Longrightarrow> dec (b @ x) = (Inl e, r @ x)"
    and drain_unfold: "drain b =
      (case dec b of
         (Inl e, b') \<Rightarrow> ([], Some e, b')
       | (Inr None, b') \<Rightarrow> ([], None, b')
       | (Inr (Some f), b') \<Rightarrow> (case drain b' of (fs, e, rest) \<Rightarrow> (f # fs, e, rest)))"
begin

lemma drain_extend:
  "drain b = (fs, e, r) \<Longrightarrow>
   drain (b @ x) =
     (case e of
        Some _ \<Rightarrow> (fs, e, r @ x)
      | None \<Rightarrow> (case drain (r @ x) of (fs', e', r') \<Rightarrow> (fs @ fs', e', r')))"
proof (induction "length b" arbitrary: b fs rule: less_induct)
  case less
  obtain d b' where d: "dec b = (d, b')" by fastforce
  show ?case
  proof (cases d)
    case (Inl e')
    with less.prems d have "fs = []" "e = Some e'" "r = b'" by (simp_all add: drain_unfold [of b])
    then show ?thesis
      using dec_error_extend [of b e' b' x] d Inl by (simp add: drain_unfold [of "b @ x"])
  next
    case (Inr o')
    show ?thesis
    proof (cases o')
      case None
      with less.prems d Inr have "fs = []" "e = None" "r = b" using dec_None_keeps
        by (auto simp: drain_unfold [of b])
      then show ?thesis by (simp split: prod.splits)
    next
      case (Some f)
      from d Inr Some have f: "dec b = (Inr (Some f), b')" by simp
      obtain gs where gs: "drain b' = (gs, e, r)" "fs = f # gs"
        using less.prems by (auto simp: drain_unfold [of b] f split: prod.splits)
      from less.hyps [OF dec_shrinks [OF f] gs(1)] gs(2) show ?thesis
        by (auto simp: drain_unfold [of "b @ x"] dec_Some_extend [OF f] split: option.splits prod.splits)
    qed
  qed
qed

lemma drain_rest_blocked: "drain b = (fs, None, r) \<Longrightarrow> dec r = (Inr None, r)"
proof (induction "length b" arbitrary: b fs rule: less_induct)
  case less
  then show ?case
    using dec_None_keeps [of b] dec_shrinks [of b]
    by (auto simp: drain_unfold [of b] split: prod.splits sum.splits option.splits)
qed

lemma drain_rest_idle: "drain b = (fs, None, r) \<Longrightarrow> drain r = ([], None, r)"
  by (simp add: drain_unfold [of r] drain_rest_blocked)

end

locale chunk_reader = stream_decoder dec drain
  for dec :: "bytes \<Rightarrow> ('e + 'f option) \<times> bytes"
    and drain :: "bytes \<Rightarrow> 'f list \<times> 'e option \<times> bytes" +
  fixes feed :: "bytes \<Rightarrow> bytes list \<Rightarrow> 'f list \<times> 'e option \<times> bytes"
  assumes feed_Nil: "feed buf [] = ([], None, buf)"
    and feed_Cons: "feed buf (c # cs) =
      (case drain (buf @ c) of
         (fs, Some e, rest) \<Rightarrow> (fs, Some e, rest)
       | (fs, None, rest) \<Rightarrow> (case feed rest cs of (fs', e, rest') \<Rightarrow> (fs @ fs', e, rest')))"
begin

text \<open>The frames and the error do not depend on where the stream was cut, and without an error
  neither does the unread rest.\<close>

lemma feed_drain:
  assumes "drain buf = ([], None, buf)"
  shows "\<exists>unread. drain (buf @ concat cs) =
    (case feed buf cs of (fs, e, rest) \<Rightarrow> (fs, e, rest @ (if e = None then [] else unread)))"
  using assms
proof (induction cs arbitrary: buf)
  case Nil
  then show ?case by (simp add: feed_Nil)
next
  case (Cons c cs)
  obtain fs e r where d: "drain (buf @ c) = (fs, e, r)" by (cases "drain (buf @ c)")
  note ext = drain_extend [OF d, of "concat cs"]
  show ?case
  proof (cases e)
    case (Some e')
    then show ?thesis using ext d by (auto simp: feed_Cons)
  next
    case None
    then have "drain r = ([], None, r)" using d drain_rest_idle by blast
    from Cons.IH [OF this] ext d None show ?thesis
      by (auto simp: feed_Cons split: prod.splits)
  qed
qed

end

lemma usize_max_less: "USIZE_MAX < 2 ^ 64"
  by (simp add: USIZE_MAX_def)

interpretation codec: chunk_reader "decode codec" "drain_frames codec" "drain_chunks codec" for codec
proof
  fix b f r x and e :: frame_error
  show "decode codec b = (Inr (Some f), r) \<Longrightarrow> length r < length b" by (rule decode_shrinks)
  show "decode codec b = (Inr None, r) \<Longrightarrow> r = b" by (simp add: decode_def decode_on_None)
  show "decode codec b = (Inr (Some f), r) \<Longrightarrow> decode codec (b @ x) = (Inr (Some f), r @ x)"
    by (simp add: decode_def decode_on_Some_extend [OF usize_max_less])
  show "decode codec b = (Inl e, r) \<Longrightarrow> decode codec (b @ x) = (Inl e, r @ x)"
    by (simp add: decode_def decode_on_error_extend)
qed (auto simp: drain_frames.simps [of codec])

section \<open>Frames through the stream\<close>

lemma fits_length_wire:
  "codec_ok umax d \<Longrightarrow> fits d f (length pad) \<Longrightarrow> length (wire f pad) \<le> umax"
  using length_wire_le [of f pad] by (simp add: codec_ok_def fits_def)

lemma decode_wire:
  "codec_ok USIZE_MAX d \<Longrightarrow> fits d f (length pad) \<Longrightarrow> decode d (wire f pad @ rest) = (Inr (Some f), rest)"
  by (simp add: decode_def decode_on_wire [OF usize_max_less] fits_length_wire)

lemma decode_frame_bytes:
  "codec_ok USIZE_MAX d \<Longrightarrow> fits d f (frame_pad c f) \<Longrightarrow>
   decode d (frame_bytes c f @ rest) = (Inr (Some f), rest)"
  by (simp add: frame_bytes_def decode_wire)

lemma decode_Nil [simp]: "decode d [] = (Inr None, [])"
  by (simp add: decode_def decode_on_def)

lemma drain_frames_Nil [simp]: "drain_frames d [] = ([], None, [])"
  by (simp add: drain_frames.simps)

lemma drain_frames_Cons:
  "codec_ok USIZE_MAX d \<Longrightarrow> fits d f (frame_pad c f) \<Longrightarrow>
   drain_frames d (frame_bytes c f @ rest) =
     (case drain_frames d rest of (fs, e, r) \<Rightarrow> (f # fs, e, r))"
  by (simp add: drain_frames.simps [of d "frame_bytes c f @ rest"] decode_frame_bytes)

lemma drain_frames_concat:
  "codec_ok USIZE_MAX d \<Longrightarrow> \<forall>f\<in>set fs. fits d f (frame_pad c f) \<Longrightarrow>
   drain_frames d (concat (map (frame_bytes c) fs) @ rest) =
     (case drain_frames d rest of (gs, e, r) \<Rightarrow> (fs @ gs, e, r))"
  by (induction fs) (auto simp: drain_frames_Cons split: prod.splits)

lemma drain_chunks_stream:
  assumes "codec_ok USIZE_MAX d" "\<forall>f\<in>set fs. fits d f (frame_pad c f)"
    and "concat cs = concat (map (frame_bytes c) fs)"
  shows "drain_chunks d [] cs = (fs, None, [])"
proof -
  have "drain_frames d (concat cs) = (fs, None, [])"
    using drain_frames_concat [OF assms(1,2), of "[]"] assms(3) by simp
  with codec.feed_drain [of d "[]" cs] show ?thesis
    by (cases "drain_chunks d [] cs") (auto split: if_splits)
qed

text \<open>Encoding a list of frames one after the other into one buffer.\<close>

definition encode_all :: "VeilFrontCodec \<Rightarrow> Frame list \<Rightarrow> bytes \<Rightarrow> bytes" where
  "encode_all c fs dst = foldl (\<lambda>dst f. snd (encode c f dst)) dst fs"

lemma encode_all_eq: "encode_all c fs dst = dst @ concat (map (frame_bytes c) fs)"
  by (induction fs arbitrary: dst) (simp_all add: encode_all_def encode_eq)

lemma codec_new_ok: "codec_ok USIZE_MAX codec_new"
  by (simp add: codec_ok_def codec_new_def USIZE_MAX_def DEFAULT_MAX_PAYLOAD_def)

lemma codec_ok_32: "codec_ok (2 ^ 32 - 1) codec_new"
  by (simp add: codec_ok_def codec_new_def DEFAULT_MAX_PAYLOAD_def)

lemma pick_bucket_ge: "payload_len \<le> pick_bucket bs payload_len"
  by (induction bs) auto

lemma pick_bucket_in: "\<exists>b\<in>set bs. payload_len \<le> b \<Longrightarrow> pick_bucket bs payload_len \<in> set bs"
  by (induction bs) auto

lemma pick_bucket_least:
  "sorted bs \<Longrightarrow> b \<in> set bs \<Longrightarrow> payload_len \<le> b \<Longrightarrow> pick_bucket bs payload_len \<le> b"
  by (induction bs) auto

lemma pick_bucket_none: "\<forall>b\<in>set bs. b < payload_len \<Longrightarrow> pick_bucket bs payload_len = payload_len"
  by (induction bs) auto

text \<open>A bucketed encoder and a decoder with the default limit understand each other on every payload
  up to 1 MiB.\<close>

lemma LENGTH_BUCKETS_fits:
  assumes "length (payload f) \<le> max_payload codec_new"
  shows "fits codec_new f (frame_pad (with_buckets LENGTH_BUCKETS codec_new) f)"
proof -
  have "pick_bucket LENGTH_BUCKETS (length (payload f)) \<le> max 16384 (length (payload f))"
    by (auto simp: LENGTH_BUCKETS_def)
  then show ?thesis
    using assms by (auto simp: fits_def frame_pad_def with_buckets_def codec_new_def
        DEFAULT_MAX_PAYLOAD_def)
qed

text \<open>(C8) Frames survive the trip over a byte stream: whatever the encoder appended for a list of
  frames, a reader that gets those bytes in arbitrary pieces decodes exactly those frames in that
  order, sees no error and is left with an empty buffer.\<close>

theorem frames_survive_any_chunking:
  assumes "codec_ok USIZE_MAX d" "\<forall>f\<in>set fs. fits d f (frame_pad c f)"
    and "concat chunks = encode_all c fs []"
  shows "drain_chunks d [] chunks = (fs, None, [])"
  using assms drain_chunks_stream by (simp add: encode_all_eq)

theorem frames_survive_any_chunking_witness:
  "drain_chunks codec_new [] [[3, 1, 2], [], [0, 7], [9, 3, 2, 0, 0]] =
     ([frame_data [7, 9], frame_chaff []], None, [])"
  by (rule frames_survive_any_chunking [where c = codec_new])
     (simp_all add: codec_ok_def USIZE_MAX_def fits_def frame_pad_def codec_new_def DEFAULT_MAX_PAYLOAD_def
       encode_all_eq frame_bytes_def wire_def frame_kind_defs frame_type_defs WIRE_VER_def
       encode_varint_vec_eq varint_bytes_small)

text \<open>(C23) The decoder accepts exactly the wire forms within its limit: it returns a frame and the
  unread rest if and only if the buffer starts with that frame's header, payload and some padding,
  neither longer than the configured maximum.\<close>

theorem decode_accepts_exactly_wire_frames:
  assumes "codec_ok USIZE_MAX codec"
  shows "decode codec src = (Inr (Some f), rest) \<longleftrightarrow>
    (\<exists>pad. src = wire f pad @ rest \<and> length (payload f) \<le> max_payload codec
       \<and> length pad \<le> max_payload codec)"
  using fits_length_wire [OF assms] decode_on_Some_iff [OF usize_max_less, of codec src f rest]
  by (auto simp: decode_def fits_def)

theorem decode_accepts_exactly_wire_frames_witness:
  "decode codec_new [3, 1, 1, 2, 7, 0, 0, 9] = (Inr (Some (frame_data [7])), [9])"
  by (subst decode_accepts_exactly_wire_frames [OF codec_new_ok], rule exI [of _ "[0, 0]"])
     (simp add: wire_def frame_kind_defs frame_type_defs WIRE_VER_def encode_varint_vec_eq
       varint_bytes_small codec_new_def DEFAULT_MAX_PAYLOAD_def)

text \<open>(C24) The decoder neither gives up early nor buffers without bound: on every proper beginning of
  an acceptable frame it waits and leaves the buffer alone, and it never waits once the buffer holds
  22 bytes plus twice the payload limit.\<close>

theorem decode_waits_only_for_bounded_input:
  assumes "codec_ok USIZE_MAX codec"
  shows "(src @ ext = wire f pad \<and> ext \<noteq> [] \<and> fits codec f (length pad)
            \<longrightarrow> decode codec src = (Inr None, src))
    \<and> (fst (decode codec src) = Inr None \<longrightarrow> length src < 22 + 2 * max_payload codec)"
proof -
  have "length src < 22 + 2 * max_payload codec" if "fst (decode codec src) = Inr None"
    using decode_on_None_bound [of USIZE_MAX codec src "snd (decode codec src)"] that
    by (metis decode_def prod.collapse)
  then show ?thesis
    using decode_on_proper_prefix [OF usize_max_less assms] by (auto simp: decode_def)
qed

theorem decode_waits_only_for_bounded_input_witness:
  "decode codec_new [3, 1, 1, 0] = (Inr None, [3, 1, 1, 0])"
  using decode_waits_only_for_bounded_input [OF codec_new_ok, of "[3, 1, 1, 0]" "[7]"
      "frame_data [7]" "[]"]
  by (simp add: wire_def frame_kind_defs frame_type_defs WIRE_VER_def encode_varint_vec_eq
      varint_bytes_small fits_def codec_new_def DEFAULT_MAX_PAYLOAD_def)

text \<open>A 32-bit and a 64-bit peer read the same stream alike: with any payload limit that leaves
  room for a header in the smaller address space, the decoder's result does not depend on the width
  of \<^verbatim>\<open>usize\<close>, in particular for length fields above the 32-bit range.\<close>

theorem decode_same_on_32_and_64_bit:
  assumes "22 + 2 * max_payload codec < 2 ^ 32"
  shows "decode_on (2 ^ 32 - 1) codec src = decode codec src"
  unfolding decode_def using assms
  by (intro decode_on_targets) (auto simp: codec_ok_def USIZE_MAX_def)

theorem decode_same_on_32_and_64_bit_witness:
  "decode_on (2 ^ 32 - 1) codec_new (3 # 1 # encode_varint_vec (2 ^ 32 + 5) @ [0]) =
     decode codec_new (3 # 1 # encode_varint_vec (2 ^ 32 + 5) @ [0])"
  by (rule decode_same_on_32_and_64_bit) (simp add: codec_new_def DEFAULT_MAX_PAYLOAD_def)

text \<open>With the bucket table, payload plus padding of an encoded frame is the smallest table entry
  that holds the payload, and a payload above the largest entry is sent without padding.\<close>

theorem bucketed_frame_size:
  fixes f :: Frame
  defines "n \<equiv> length (payload f)" and "c \<equiv> with_buckets LENGTH_BUCKETS codec_new"
  shows "\<exists>pad. encode c f [] = (Inr (), wire f (replicate pad 0))
    \<and> (n \<le> 16384 \<longrightarrow> n + pad \<in> set LENGTH_BUCKETS \<and> (\<forall>b\<in>set LENGTH_BUCKETS. n \<le> b \<longrightarrow> n + pad \<le> b))
    \<and> (16384 < n \<longrightarrow> pad = 0)"
proof -
  have pad: "frame_pad c f = pick_bucket LENGTH_BUCKETS n - n"
    by (simp add: frame_pad_def c_def with_buckets_def n_def)
  have sum: "n + frame_pad c f = pick_bucket LENGTH_BUCKETS n"
    using pick_bucket_ge [of n LENGTH_BUCKETS] by (simp add: pad)
  have srt: "sorted LENGTH_BUCKETS" by (simp add: LENGTH_BUCKETS_def)
  have "n + frame_pad c f \<in> set LENGTH_BUCKETS" if "n \<le> 16384"
    unfolding sum using that by (intro pick_bucket_in) (auto simp: LENGTH_BUCKETS_def)
  moreover have "n + frame_pad c f \<le> b" if "b \<in> set LENGTH_BUCKETS" "n \<le> b" for b
    unfolding sum by (rule pick_bucket_least [OF srt that])
  moreover have "frame_pad c f = 0" if "16384 < n"
    using that pick_bucket_none [of LENGTH_BUCKETS n] by (auto simp: pad LENGTH_BUCKETS_def)
  ultimately show ?thesis
    by (intro exI [of _ "frame_pad c f"]) (simp add: encode_eq frame_bytes_def)
qed

theorem bucketed_frame_size_witness:
  "\<exists>pad. encode (with_buckets LENGTH_BUCKETS codec_new) (frame_data (replicate 65 7)) []
      = (Inr (), wire (frame_data (replicate 65 7)) (replicate pad 0)) \<and> 65 + pad \<le> 128"
  using bucketed_frame_size [of "frame_data (replicate 65 7)"]
  by (auto simp: LENGTH_BUCKETS_def frame_data_def)

text \<open>The bucket table does not give one wire length per bucket: the length field itself grows by
  a byte at 128, so two payloads padded to the same bucket produce frames of different lengths.\<close>

theorem same_bucket_different_wire_length:
  "pick_bucket LENGTH_BUCKETS 65 = pick_bucket LENGTH_BUCKETS 128
   \<and> length (snd (encode (with_buckets LENGTH_BUCKETS codec_new) (frame_data (replicate 65 0)) [])) = 132
   \<and> length (snd (encode (with_buckets LENGTH_BUCKETS codec_new) (frame_data (replicate 128 0)) [])) = 133"
  by (simp add: encode_eq frame_bytes_def length_wire frame_pad_def with_buckets_def codec_new_def
      LENGTH_BUCKETS_def frame_data_def encode_varint_vec_eq varint_bytes_small varint_bytes_large)

end
