(* ===== verification/Pump.thy ===== *)
theory Pump
  imports Framing "HOL-Library.Sublist"
begin

text \<open>Asynchronous byte streams, and the loop shape that the relay's tunnel and chain share.

  The read half of a connection is the list of what its reads deliver: data (none is the end of the
  stream) or an error; when the list is exhausted the peer is silent and the task waits.  The write
  half records what was done to it, and may fail at any action, possibly after part of a write.  A
  task returns, fails, or is left waiting with a receive buffer.

  The locales \<^verbatim>\<open>frame_pump\<close> and \<^verbatim>\<open>pump_loop\<close> state the shape of the loops that decode frames and
  forward the DATA payloads, and derive what such a loop writes: exactly the payloads of the decoded
  DATA frames, in order, flushed before it waits; and under any write failure a prefix of that.\<close>

section \<open>Errors and streams\<close>

datatype io_kind =
    ConnectionReset | BrokenPipe | KInvalidData | KUnexpectedEof | KTimedOut | KConnectionRefused
  | KConnectionAborted | KInterrupted | KWouldBlock | KOutOfMemory | KOther

datatype direction = ClientToBackend | BackendToClient

text \<open>An \<^verbatim>\<open>io::Error\<close>: its kind and the direction tags put in front of its message.\<close>

datatype io_error = IoError (io_error_kind: io_kind) (io_error_tags: "direction list")

fun frame_io :: "frame_error \<Rightarrow> io_error" where
  "frame_io e = IoError (case frame_error_kind e of
     InvalidData \<Rightarrow> KInvalidData | UnexpectedEof \<Rightarrow> KUnexpectedEof) []"

datatype read_event = RData bytes | RFail io_error

datatype stream_end = Quiet | Eof | Broken io_error

fun stream_data :: "read_event list \<Rightarrow> bytes" where
  "stream_data [] = []"
| "stream_data (RData d # rs) = (if d = [] then [] else d @ stream_data rs)"
| "stream_data (RFail e # rs) = []"

fun stream_ends :: "read_event list \<Rightarrow> stream_end" where
  "stream_ends [] = Quiet"
| "stream_ends (RData d # rs) = (if d = [] then Eof else stream_ends rs)"
| "stream_ends (RFail e # rs) = Broken e"

datatype write_act = Write bytes | Flush | Shutdown

record writer =
  acts :: "write_act list"
  faults :: "nat \<Rightarrow> (nat \<times> io_error) option"

fun cut_act :: "nat \<Rightarrow> write_act \<Rightarrow> write_act list" where
  "cut_act k (Write b) = [Write (take k b)]"
| "cut_act k _ = []"

definition write_op :: "write_act \<Rightarrow> writer \<Rightarrow> (io_error + unit) \<times> writer" where
  "write_op a w =
     (case faults w (length (acts w)) of
        None \<Rightarrow> (Inr (), w\<lparr>acts := acts w @ [a]\<rparr>)
      | Some (k, e) \<Rightarrow> (Inl e, w\<lparr>acts := acts w @ cut_act k a\<rparr>))"

definition faultless :: "writer \<Rightarrow> bool" where
  "faultless w \<longleftrightarrow> (\<forall>k. faults w k = None)"

fun written :: "write_act list \<Rightarrow> bytes" where
  "written [] = []"
| "written (Write b # as) = b @ written as"
| "written (_ # as) = written as"

text \<open>Everything written has been flushed.\<close>

fun dirty_after :: "bool \<Rightarrow> write_act \<Rightarrow> bool" where
  "dirty_after dirty (Write b) = True"
| "dirty_after dirty Flush = False"
| "dirty_after dirty Shutdown = dirty"

definition all_flushed :: "write_act list \<Rightarrow> bool" where
  "all_flushed as \<longleftrightarrow> \<not> foldl dirty_after False as"

datatype task_end = Returned | Failed io_error | Blocked bytes

text \<open>A read under a timer, as the relay makes them while it injects cover traffic: data arrives, or the
  tick passes without any.  Each is stamped with the milliseconds since the loop started.\<close>

datatype timed_event = Arrives read_event | IdleTick

text \<open>Randomness comes from a third-party generator: \<^verbatim>\<open>gen_range n\<close> draws below \<^verbatim>\<open>n\<close>, and
  \<^verbatim>\<open>fill_bytes n\<close> draws \<^verbatim>\<open>n\<close> bytes.\<close>

record 's rng =
  gen_range :: "nat \<Rightarrow> 's \<Rightarrow> nat \<times> 's"
  fill_bytes :: "nat \<Rightarrow> 's \<Rightarrow> bytes \<times> 's"

definition rng_ok :: "'s rng \<Rightarrow> bool" where
  "rng_ok g \<longleftrightarrow> (\<forall>n s. 0 < n \<longrightarrow> fst (gen_range g n s) < n) \<and> (\<forall>n s. length (fst (fill_bytes g n s)) = n)"

section \<open>Frames that carry payload\<close>

definition data_payloads :: "Frame list \<Rightarrow> bytes list" where
  "data_payloads fs = map payload (filter is_data fs)"

lemma data_payloads_simps [simp]:
  "data_payloads [] = []"
  "data_payloads (f # fs) = (if is_data f then payload f # data_payloads fs else data_payloads fs)"
  "data_payloads (fs @ gs) = data_payloads fs @ data_payloads gs"
  by (simp_all add: data_payloads_def)

lemma written_append [simp]: "written (as @ bs) = written as @ written bs"
  by (induction as rule: written.induct) auto

lemma written_writes [simp]: "written (map (\<lambda>p. Write (g p)) ps) = concat (map g ps)"
  by (induction ps) auto

lemma write_op_ok: "faultless w \<Longrightarrow> write_op a w = (Inr (), w\<lparr>acts := acts w @ [a]\<rparr>)"
  by (simp add: write_op_def faultless_def)

lemma faultless_acts [simp]: "faultless (w\<lparr>acts := as\<rparr>) = faultless w"
  by (simp add: faultless_def)

lemma write_op_prefix:
  "write_op a w = (r, w') \<Longrightarrow> \<exists>ds. written (acts w') = written (acts w) @ ds
    \<and> prefix ds (written [a]) \<and> (r = Inr () \<longrightarrow> ds = written [a])"
  by (cases a; cases "faults w (length (acts w))")
     (auto simp: write_op_def take_is_prefix split: prod.splits)

lemma write_op_control:
  "write_op Flush w = (x, w') \<Longrightarrow> written (acts w') = written (acts w)"
  "write_op Shutdown w = (x, w') \<Longrightarrow> written (acts w') = written (acts w)"
  by (auto simp: write_op_def split: option.splits prod.splits)

lemma all_flushed_simps [simp]:
  "all_flushed []" "all_flushed (as @ [Flush])" "all_flushed (as @ [Shutdown]) = all_flushed as"
  by (simp_all add: all_flushed_def)

section \<open>Draining a buffer into a writer\<close>

text \<open>\<^verbatim>\<open>out\<close> is what is written for a payload, \<^verbatim>\<open>early\<close> whether the byte counter moves before the
  write.\<close>

locale frame_pump =
  fixes out :: "bytes \<Rightarrow> bytes"
    and early :: bool
    and pump :: "bytes \<Rightarrow> writer \<Rightarrow> u64 \<Rightarrow> bool \<Rightarrow> (io_error + bytes \<times> bool) \<times> writer \<times> u64"
  assumes pump_unfold: "pump buf w n wrote =
    (case decode codec_new buf of
       (Inl e, _) \<Rightarrow> (Inl (frame_io e), w, n)
     | (Inr None, buf') \<Rightarrow> (Inr (buf', wrote), w, n)
     | (Inr (Some f), buf') \<Rightarrow>
         if is_data f then
           let n' = n + of_nat (length (payload f)) in
           (case write_op (Write (out (payload f))) w of
              (Inl er, w') \<Rightarrow> (Inl er, w', if early then n' else n)
            | (Inr _, w') \<Rightarrow> pump buf' w' n' True)
         else pump buf' w n wrote)"
begin

lemma pump_faultless:
  assumes "faultless w" "drain_frames codec_new buf = (fs, e, r)"
  shows "pump buf w n wrote =
    ((case e of Some er \<Rightarrow> Inl (frame_io er) | None \<Rightarrow> Inr (r, wrote \<or> data_payloads fs \<noteq> [])),
     w\<lparr>acts := acts w @ map (\<lambda>p. Write (out p)) (data_payloads fs)\<rparr>,
     n + of_nat (length (concat (data_payloads fs))))"
  using assms
proof (induction "length buf" arbitrary: buf w n wrote fs rule: less_induct)
  case less
  obtain d b' where d: "decode codec_new buf = (d, b')" by fastforce
  show ?case
  proof (cases "\<exists>f. d = Inr (Some f)")
    case False
    then show ?thesis using less.prems d
      by (auto simp: pump_unfold [of buf] drain_frames.simps [of codec_new buf]
          split: sum.splits option.splits)
  next
    case True
    then obtain f where f: "decode codec_new buf = (Inr (Some f), b')" using d by blast
    obtain gs where gs: "drain_frames codec_new b' = (gs, e, r)" "fs = f # gs"
      using less.prems(2) by (auto simp: drain_frames.simps [of codec_new buf] f split: prod.splits)
    note IH = less.hyps [OF decode_shrinks [OF f] _ gs(1)]
    show ?thesis
      using IH less.prems(1) gs(2)
      by (simp add: pump_unfold [of buf] f write_op_ok Let_def split: option.splits)
  qed
qed

text \<open>Under any failure: what was written is a prefix, and a normal end means nothing failed.\<close>

lemma pump_prefix:
  assumes "pump buf w n wrote = (res, w', n')" "drain_frames codec_new buf = (fs, e, r)"
  shows "\<exists>ds. written (acts w') = written (acts w) @ ds
    \<and> prefix ds (concat (map out (data_payloads fs)))
    \<and> (\<forall>b v. res = Inr (b, v) \<longrightarrow> b = r \<and> e = None \<and> ds = concat (map out (data_payloads fs)))"
  using assms
proof (induction "length buf" arbitrary: buf w n wrote fs rule: less_induct)
  case less
  obtain d b' where d: "decode codec_new buf = (d, b')" by fastforce
  show ?case
  proof (cases "\<exists>f. d = Inr (Some f)")
    case False
    then show ?thesis using less.prems d
      by (auto simp: pump_unfold [of buf] drain_frames.simps [of codec_new buf]
          split: sum.splits option.splits)
  next
    case True
    then obtain f where f: "decode codec_new buf = (Inr (Some f), b')" using d by blast
    obtain gs where gs: "drain_frames codec_new b' = (gs, e, r)" "fs = f # gs"
      using less.prems(2) by (auto simp: drain_frames.simps [of codec_new buf] f split: prod.splits)
    note IH = less.hyps [OF decode_shrinks [OF f] _ gs(1)]
    show ?thesis
    proof (cases "is_data f")
      case False
      then show ?thesis using IH less.prems(1) gs(2) by (simp add: pump_unfold [of buf] f)
    next
      case data: True
      obtain x w1 where x: "write_op (Write (out (payload f))) w = (x, w1)" by fastforce
      from write_op_prefix [OF x] obtain ds where
        ds: "written (acts w1) = written (acts w) @ ds" "prefix ds (out (payload f))"
          "x = Inr () \<longrightarrow> ds = out (payload f)" by auto
      show ?thesis
      proof (cases x)
        case (Inl er)
        with less.prems(1) x data have "res = Inl er" "w' = w1"
          by (auto simp: pump_unfold [of buf] f Let_def)
        with ds data gs(2) show ?thesis by (auto simp: prefix_append)
      next
        case (Inr u)
        with less.prems(1) x data have "pump b' w1 (n + of_nat (length (payload f))) True = (res, w', n')"
          by (auto simp: pump_unfold [of buf] f Let_def)
        from IH [OF this] ds Inr data gs(2) show ?thesis by auto
      qed
    qed
  qed
qed

end

section \<open>The read loop around it\<close>

text \<open>The result of such a loop over working streams, for the frames \<open>fs\<close> the input holds, its rest \<open>r\<close> and its
  framing error \<open>e\<close>: how the task ends, that the payloads were written and flushed, and the shutdown
  at the end of the stream.\<close>

definition loop_end :: "frame_error option \<Rightarrow> read_event list \<Rightarrow> bytes \<Rightarrow> task_end" where
  "loop_end e reads r =
     (case e of
        Some er \<Rightarrow> Failed (frame_io er)
      | None \<Rightarrow> (case stream_ends reads of Quiet \<Rightarrow> Blocked r | Eof \<Rightarrow> Returned | Broken er \<Rightarrow> Failed er))"

definition loop_runs ::
  "(bytes \<Rightarrow> bytes) \<Rightarrow> read_event list \<Rightarrow> Frame list \<Rightarrow> frame_error option \<Rightarrow> bytes \<Rightarrow> writer \<Rightarrow> u64 \<Rightarrow>
     task_end \<times> writer \<times> u64 \<Rightarrow> bool" where
  "loop_runs out reads fs e r w n res \<longleftrightarrow>
     (\<exists>as. written as = concat (map out (data_payloads fs))
       \<and> res = (loop_end e reads r, w\<lparr>acts := acts w @ as\<rparr>, n + of_nat (length (concat (data_payloads fs))))
       \<and> (e = None \<longrightarrow> all_flushed (acts w) \<longrightarrow> all_flushed (acts w @ as))
       \<and> (e = None \<longrightarrow> stream_ends reads = Eof \<longrightarrow> as \<noteq> [] \<and> last as = Shutdown))"

lemma loop_runs_after:
  assumes "d \<noteq> []" "written as = concat (map out (data_payloads fs))" "all_flushed (acts w) \<longrightarrow> all_flushed (acts w @ as)"
    and "loop_runs out reads gs e r (w\<lparr>acts := acts w @ as\<rparr>) (n + of_nat (length (concat (data_payloads fs)))) res"
  shows "loop_runs out (RData d # reads) (fs @ gs) e r w n res"
proof -
  obtain bs where "written bs = concat (map out (data_payloads gs))"
    "res = (loop_end e reads r, w\<lparr>acts := acts w @ as @ bs\<rparr>,
       n + of_nat (length (concat (data_payloads fs))) + of_nat (length (concat (data_payloads gs))))"
    "e = None \<longrightarrow> all_flushed (acts w @ as) \<longrightarrow> all_flushed (acts w @ as @ bs)"
    "e = None \<longrightarrow> stream_ends reads = Eof \<longrightarrow> bs \<noteq> [] \<and> last bs = Shutdown"
    using assms(4) unfolding loop_runs_def by auto
  moreover have "loop_end e (RData d # reads) r = loop_end e reads r" "stream_ends (RData d # reads) = stream_ends reads"
    using assms(1) by (simp_all add: loop_end_def split: option.split)
  ultimately show ?thesis unfolding loop_runs_def using assms(2,3)
    by (intro exI [of _ "as @ bs"]) (simp add: algebra_simps)
qed

locale pump_loop = frame_pump out early pump
  for out :: "bytes \<Rightarrow> bytes" and early :: bool
    and pump :: "bytes \<Rightarrow> writer \<Rightarrow> u64 \<Rightarrow> bool \<Rightarrow> (io_error + bytes \<times> bool) \<times> writer \<times> u64" +
  fixes loop :: "read_event list \<Rightarrow> bytes \<Rightarrow> writer \<Rightarrow> u64 \<Rightarrow> task_end \<times> writer \<times> u64"
  assumes loop_unfold: "loop reads buf w n =
    (case pump buf w n False of
       (Inl e, w, n) \<Rightarrow> (Failed e, w, n)
     | (Inr (buf, wrote), w, n) \<Rightarrow>
         (case (if wrote then write_op Flush w else (Inr (), w)) of
            (Inl e, w) \<Rightarrow> (Failed e, w, n)
          | (Inr _, w) \<Rightarrow>
              (case reads of
                 [] \<Rightarrow> (Blocked buf, w, n)
               | RFail e # _ \<Rightarrow> (Failed e, w, n)
               | RData d # reads' \<Rightarrow>
                   if d = [] then
                     (case write_op Shutdown w of
                        (Inl e, w) \<Rightarrow> (Failed e, w, n)
                      | (Inr _, w) \<Rightarrow> (Returned, w, n))
                   else loop reads' (buf @ d) w n)))"
begin

text \<open>The frames of a stream that continues after a drained buffer.\<close>

lemma drain_step:
  assumes "drain_frames codec_new buf = (fs, None, r)"
  shows "drain_frames codec_new (buf @ x) =
    (case drain_frames codec_new (r @ x) of (gs, e, r') \<Rightarrow> (fs @ gs, e, r'))"
  using codec.drain_extend [OF assms] by simp

lemma round_faultless:
  assumes "faultless w" "drain_frames codec_new buf = (fs, None, r)"
  shows "\<exists>as. written as = concat (map out (data_payloads fs))
    \<and> (all_flushed (acts w) \<longrightarrow> all_flushed (acts w @ as))
    \<and> (let w1 = w\<lparr>acts := acts w @ as\<rparr>; n1 = n + of_nat (length (concat (data_payloads fs)))
       in loop reads buf w n =
         (case reads of
            [] \<Rightarrow> (Blocked r, w1, n1)
          | RFail e # _ \<Rightarrow> (Failed e, w1, n1)
          | RData d # reads' \<Rightarrow>
              if d = [] then (Returned, w1\<lparr>acts := acts w1 @ [Shutdown]\<rparr>, n1)
              else loop reads' (r @ d) w1 n1))"
proof -
  let ?as = "map (\<lambda>p. Write (out p)) (data_payloads fs) @ (if data_payloads fs = [] then [] else [Flush])"
  have "all_flushed (acts w) \<longrightarrow> all_flushed (acts w @ ?as)"
    using all_flushed_simps(2) [of "acts w @ map (\<lambda>p. Write (out p)) (data_payloads fs)"] by auto
  then show ?thesis
    using assms(1)
    by (intro exI [of _ ?as])
       (auto simp: Let_def loop_unfold [of reads] pump_faultless [OF assms] write_op_ok
         split: list.splits read_event.splits)
qed

lemma loop_stops:
  assumes "faultless w" "drain_frames codec_new buf = (fs, e, r)"
    and "e \<noteq> None \<or> reads = [] \<or> (\<exists>a reads'. reads = a # reads' \<and> (\<nexists>d. a = RData d \<and> d \<noteq> []))"
  shows "loop_runs out reads fs e r w n (loop reads buf w n)"
proof (cases e)
  case (Some er)
  then show ?thesis unfolding loop_runs_def using assms(1,2)
    by (intro exI [of _ "map (\<lambda>p. Write (out p)) (data_payloads fs)"])
       (simp add: loop_unfold [of reads] pump_faultless loop_end_def)
next
  case None
  obtain as where as: "written as = concat (map out (data_payloads fs))" "all_flushed (acts w) \<longrightarrow> all_flushed (acts w @ as)"
    and round: "let w1 = w\<lparr>acts := acts w @ as\<rparr>; n1 = n + of_nat (length (concat (data_payloads fs)))
       in loop reads buf w n =
         (case reads of
            [] \<Rightarrow> (Blocked r, w1, n1)
          | RFail e # _ \<Rightarrow> (Failed e, w1, n1)
          | RData d # reads' \<Rightarrow>
              if d = [] then (Returned, w1\<lparr>acts := acts w1 @ [Shutdown]\<rparr>, n1) else loop reads' (r @ d) w1 n1)"
    using round_faultless [OF assms(1) assms(2) [unfolded None], of n reads] by blast
  consider "reads = []" | er reads' where "reads = RFail er # reads'" | reads' where "reads = RData [] # reads'"
    using assms(3) None by (metis read_event.exhaust)
  then show ?thesis
  proof cases
    case 3
    then show ?thesis unfolding loop_runs_def using round as None
      by (intro exI [of _ "as @ [Shutdown]"]) (simp add: Let_def loop_end_def flip: append_assoc)
  qed (use round as None in \<open>simp_all add: loop_runs_def Let_def loop_end_def\<close>, blast+)
qed

lemma loop_runs_faultless:
  assumes "faultless w" "drain_frames codec_new (buf @ stream_data reads) = (fs, e, r)"
  shows "loop_runs out reads fs e r w n (loop reads buf w n)"
  using assms
proof (induction reads arbitrary: buf w n fs)
  case Nil
  then show ?case by (intro loop_stops) simp_all
next
  case (Cons a reads)
  obtain fs1 e1 r1 where d1: "drain_frames codec_new buf = (fs1, e1, r1)" by (metis prod_cases3)
  show ?case
  proof (cases "e1 = None \<and> (\<exists>d. a = RData d \<and> d \<noteq> [])")
    case False
    have "fs = fs1 \<and> e = e1 \<and> (e1 = None \<longrightarrow> r = r1)"
    proof (cases e1)
      case None
      then have "stream_data (a # reads) = []" using False by (cases a) auto
      then show ?thesis using Cons.prems(2) d1 by simp
    qed (use codec.drain_extend [OF d1, of "stream_data (a # reads)"] Cons.prems(2) in auto)
    then have "loop_runs out (a # reads) fs e r1 w n (loop (a # reads) buf w n)" "e = None \<longrightarrow> r = r1"
      using loop_stops [OF Cons.prems(1) d1, of "a # reads" n] False by auto
    then show ?thesis by (cases e) (simp_all add: loop_runs_def loop_end_def)
  next
    case True
    then obtain d where d: "a = RData d" "d \<noteq> []" "e1 = None" by blast
    obtain as where as: "written as = concat (map out (data_payloads fs1))" "all_flushed (acts w) \<longrightarrow> all_flushed (acts w @ as)"
      "loop (a # reads) buf w n =
         loop reads (r1 @ d) (w\<lparr>acts := acts w @ as\<rparr>) (n + of_nat (length (concat (data_payloads fs1))))"
      using round_faultless [OF Cons.prems(1) d1 [unfolded d(3)], of n "a # reads"] d(1,2) by (auto simp: Let_def)
    obtain gs where gs: "drain_frames codec_new ((r1 @ d) @ stream_data reads) = (gs, e, r)" "fs = fs1 @ gs"
      using drain_step [OF d1 [unfolded d(3)], of "d @ stream_data reads"] Cons.prems(2) d by (auto split: prod.splits)
    show ?thesis unfolding as(3) gs(2) unfolding d(1)
      by (rule loop_runs_after [OF d(2) as(1,2) Cons.IH [OF _ gs(1)]]) (use Cons.prems(1) in simp)
  qed
qed

lemma loop_faultless:
  assumes "faultless w" "drain_frames codec_new (buf @ stream_data reads) = (fs, e, r)"
  shows "\<exists>as. written as = concat (map out (data_payloads fs))
    \<and> loop reads buf w n =
        ((case e of
            Some er \<Rightarrow> Failed (frame_io er)
          | None \<Rightarrow> (case stream_ends reads of Quiet \<Rightarrow> Blocked r | Eof \<Rightarrow> Returned | Broken er \<Rightarrow> Failed er)),
         w\<lparr>acts := acts w @ as\<rparr>, n + of_nat (length (concat (data_payloads fs))))
    \<and> (e = None \<longrightarrow> all_flushed (acts w) \<longrightarrow> all_flushed (acts w @ as))
    \<and> (e = None \<longrightarrow> stream_ends reads = Eof \<longrightarrow> as \<noteq> [] \<and> last as = Shutdown)"
  using loop_runs_faultless [OF assms, of n] unfolding loop_runs_def loop_end_def .

text \<open>Whatever fails, the peer has received a prefix of what it should.\<close>

lemma round_prefix:
  assumes "loop reads buf w n = (res, w', n')" "drain_frames codec_new buf = (fs, e, r)"
  obtains (stops) ds where "written (acts w') = written (acts w) @ ds" "prefix ds (concat (map out (data_payloads fs)))"
  | (reads) c reads' w2 n2 where "reads = RData c # reads'" "c \<noteq> []" "e = None"
      "written (acts w2) = written (acts w) @ concat (map out (data_payloads fs))" "loop reads' (r @ c) w2 n2 = (res, w', n')"
proof -
  obtain p w1 n1 where p: "pump buf w n False = (p, w1, n1)" by (metis prod_cases3)
  from pump_prefix [OF p assms(2)] obtain ds where
    ds: "written (acts w1) = written (acts w) @ ds" "prefix ds (concat (map out (data_payloads fs)))"
      "\<And>b v. p = Inr (b, v) \<Longrightarrow> b = r \<and> e = None \<and> ds = concat (map out (data_payloads fs))"
    by blast
  show thesis
  proof (cases p)
    case (Inl er)
    with assms(1) p have "w' = w1" by (simp add: loop_unfold [of reads])
    with ds show thesis using stops by blast
  next
    case (Inr bv)
    obtain b v where bv: "bv = (b, v)" by fastforce
    obtain x w2 where x: "(if v then write_op Flush w1 else (Inr (), w1)) = (x, w2)" by fastforce
    have w2: "written (acts w2) = written (acts w1)"
      using x write_op_control(1) [of w1 x w2] by (auto split: if_splits)
    have l: "(case x of Inl e \<Rightarrow> (Failed e, w2, n1) | Inr _ \<Rightarrow>
        (case reads of [] \<Rightarrow> (Blocked b, w2, n1) | RFail e # _ \<Rightarrow> (Failed e, w2, n1) | RData d # reads' \<Rightarrow>
           if d = [] then (case write_op Shutdown w2 of (Inl e, w) \<Rightarrow> (Failed e, w, n1) | (Inr _, w) \<Rightarrow> (Returned, w, n1))
           else loop reads' (b @ d) w2 n1)) = (res, w', n')"
      using assms(1) p Inr bv x by (simp add: loop_unfold [of reads])
    consider c reads' where "x = Inr ()" "reads = RData c # reads'" "c \<noteq> []" | "written (acts w') = written (acts w2)"
      using l write_op_control(2) [of w2] by (auto split: prod.splits sum.splits if_splits list.splits read_event.splits)
    then show thesis
    proof cases
      case 1
      then have "loop reads' (r @ c) w2 n1 = (res, w', n')" using l ds(3) Inr bv by simp
      with 1 show thesis using ds w2 Inr bv by (intro reads [of c reads' w2 n1]) auto
    next
      case 2
      with w2 ds show thesis by (intro stops [of ds]) simp_all
    qed
  qed
qed

lemma loop_prefix:
  assumes "loop reads buf w n = (res, w', n')"
    and "drain_frames codec_new (buf @ stream_data reads) = (fs, e, r)"
  shows "\<exists>ds. written (acts w') = written (acts w) @ ds \<and> prefix ds (concat (map out (data_payloads fs)))"
  using assms
proof (induction reads arbitrary: buf w n fs)
  case Nil
  then show ?case by (auto elim: round_prefix)
next
  case (Cons a reads)
  obtain fs1 e1 r1 where d1: "drain_frames codec_new buf = (fs1, e1, r1)" by (metis prod_cases3)
  obtain gs where gs: "fs = fs1 @ gs"
    using codec.drain_extend [OF d1, of "stream_data (a # reads)"] Cons.prems(2)
    by (auto split: option.splits prod.splits)
  from Cons.prems(1) d1 show ?case
  proof (cases rule: round_prefix)
    case (stops ds)
    then show ?thesis unfolding gs by (auto intro: prefix_order.trans)
  next
    case (reads c reads' w2 n2)
    then obtain hs where "drain_frames codec_new ((r1 @ c) @ stream_data reads) = (hs, e, r)" "fs = fs1 @ hs"
      using drain_step [of buf fs1 r1 "c @ stream_data reads"] d1 Cons.prems(2) by (auto split: prod.splits)
    then show ?thesis using Cons.IH [of "r1 @ c" w2 n2 hs] reads by auto
  qed
qed

end

end
