(* ===== verification/Tunnel.thy ===== *)
theory Tunnel
  imports Pump
begin

text \<open>The relay's tunnel between an authenticated client and the backend
  (\<^verbatim>\<open>src/crates/construct-veil-relay/src/tunnel.rs\<close>).  The two directions are separate tasks over
  separate streams; \<^verbatim>\<open>forward_tunnel\<close> joins them the way \<^verbatim>\<open>tokio::try_join\<close> does: the first failure
  ends the tunnel.  The progress logger is left out.\<close>

section \<open>Constants and cover payloads\<close>

definition COPY_BUF :: nat where "COPY_BUF = 8192"
definition CHAFF_BUCKETS :: "nat list" where "CHAFF_BUCKETS = [32, 64, 128, 256, 512]"
definition IDLE_CHAFF_WINDOW_ms :: nat where "IDLE_CHAFF_WINDOW_ms = 3000"
definition IDLE_CHAFF_TICK_ms :: nat where "IDLE_CHAFF_TICK_ms = 20"
definition INITIAL_CHAFF_BUCKETS :: "nat list" where "INITIAL_CHAFF_BUCKETS = [128, 256]"

definition random_chaff :: "'s rng \<Rightarrow> 's \<Rightarrow> bytes \<times> 's" where
  "random_chaff g s =
     (let (i, s) = gen_range g (length CHAFF_BUCKETS) s;
          len = CHAFF_BUCKETS ! i
      in fill_bytes g len s)"

definition initial_chaff :: "'s rng \<Rightarrow> 's \<Rightarrow> bytes \<times> 's" where
  "initial_chaff g s =
     (let (i, s) = gen_range g (length INITIAL_CHAFF_BUCKETS) s;
          len = INITIAL_CHAFF_BUCKETS ! i
      in fill_bytes g len s)"

definition padded_codec :: VeilFrontCodec where
  "padded_codec = with_buckets LENGTH_BUCKETS codec_new"

definition tag_direction :: "io_error \<Rightarrow> direction \<Rightarrow> io_error" where
  "tag_direction e dir = IoError (io_error_kind e) (dir # io_error_tags e)"

section \<open>Client to backend\<close>

text \<open>The inner loop: decode what the buffer holds, write DATA payloads, drop everything else.\<close>

function deframe_drain ::
  "bytes \<Rightarrow> writer \<Rightarrow> u64 \<Rightarrow> bool \<Rightarrow> (io_error + bytes \<times> bool) \<times> writer \<times> u64" where
  "deframe_drain buf backend_wr n wrote_payload =
     (case decode codec_new buf of
        (Inl e, _) \<Rightarrow> (Inl (frame_io e), backend_wr, n)
      | (Inr None, buf') \<Rightarrow> (Inr (buf', wrote_payload), backend_wr, n)
      | (Inr (Some frame), buf') \<Rightarrow>
          if frame_type frame = FRAME_TYPE_DATA then
            (case write_op (Write (payload frame)) backend_wr of
               (Inl e, backend_wr') \<Rightarrow> (Inl e, backend_wr', n)
             | (Inr _, backend_wr') \<Rightarrow>
                 deframe_drain buf' backend_wr' (n + of_nat (length (payload frame))) True)
          else if frame_type frame = FRAME_TYPE_CHAFF
          then deframe_drain buf' backend_wr n wrote_payload
          else deframe_drain buf' backend_wr n wrote_payload)"
  by pat_completeness auto

termination deframe_drain
  by (relation "measure (length \<circ> fst)") (auto dest: decode_shrinks [OF sym])

declare deframe_drain.simps [simp del]

fun deframe_client_to_backend ::
  "read_event list \<Rightarrow> bytes \<Rightarrow> writer \<Rightarrow> u64 \<Rightarrow> task_end \<times> writer \<times> u64" where
  "deframe_client_to_backend client_rd buf backend_wr n =
     (case deframe_drain buf backend_wr n False of
        (Inl e, backend_wr, n) \<Rightarrow> (Failed e, backend_wr, n)
      | (Inr (buf, wrote_payload), backend_wr, n) \<Rightarrow>
          (case (if wrote_payload then write_op Flush backend_wr else (Inr (), backend_wr)) of
             (Inl e, backend_wr) \<Rightarrow> (Failed e, backend_wr, n)
           | (Inr _, backend_wr) \<Rightarrow>
               (case client_rd of
                  [] \<Rightarrow> (Blocked buf, backend_wr, n)
                | RFail e # _ \<Rightarrow> (Failed e, backend_wr, n)
                | RData d # client_rd' \<Rightarrow>
                    if d = [] then
                      (case write_op Shutdown backend_wr of
                         (Inl e, backend_wr) \<Rightarrow> (Failed e, backend_wr, n)
                       | (Inr _, backend_wr) \<Rightarrow> (Returned, backend_wr, n))
                    else deframe_client_to_backend client_rd' (buf @ d) backend_wr n)))"

declare deframe_client_to_backend.simps [simp del]

interpretation deframe: pump_loop "\<lambda>p. p" False deframe_drain deframe_client_to_backend
proof
  fix buf w n wrote
  show "deframe_drain buf w n wrote =
    (case decode codec_new buf of
       (Inl e, _) \<Rightarrow> (Inl (frame_io e), w, n)
     | (Inr None, buf') \<Rightarrow> (Inr (buf', wrote), w, n)
     | (Inr (Some f), buf') \<Rightarrow>
         if is_data f then
           let n' = n + of_nat (length (payload f)) in
           (case write_op (Write (payload f)) w of
              (Inl er, w') \<Rightarrow> (Inl er, w', if False then n' else n)
            | (Inr _, w') \<Rightarrow> deframe_drain buf' w' n' True)
         else deframe_drain buf' w n wrote)"
    by (simp add: deframe_drain.simps [of buf] is_data_def Let_def split: prod.splits sum.splits option.splits)
next
  fix reads buf w n
  show "deframe_client_to_backend reads buf w n =
    (case deframe_drain buf w n False of
       (Inl e, w, n) \<Rightarrow> (Failed e, w, n)
     | (Inr (buf, wrote), w, n) \<Rightarrow>
         (case (if wrote then write_op Flush w else (Inr (), w)) of
            (Inl e, w) \<Rightarrow> (Failed e, w, n)
          | (Inr _, w) \<Rightarrow>
              (case reads of
                 [] \<Rightarrow> (Blocked buf, w, n)
               | RFail e # _ \<Rightarrow> (Failed e, w, n)
               | RData d # reads' \<Rightarrow>
                   if d = [] then
                     (case write_op Shutdown w of
                        (Inl e, w) \<Rightarrow> (Failed e, w, n)
                      | (Inr _, w) \<Rightarrow> (Returned, w, n))
                   else deframe_client_to_backend reads' (buf @ d) w n)))"
    by (rule deframe_client_to_backend.simps)
qed

section \<open>Backend to client\<close>

text \<open>Sending one frame to the client: encode with padding, write.\<close>

definition send_frame :: "VeilFrontCodec \<Rightarrow> Frame \<Rightarrow> writer \<Rightarrow> (io_error + nat) \<times> writer" where
  "send_frame codec f w =
     (case encode codec f [] of
        (Inl e, _) \<Rightarrow> (Inl (frame_io e), w)
      | (Inr _, out) \<Rightarrow>
          (case write_op (Write out) w of
             (Inl e, w') \<Rightarrow> (Inl e, w')
           | (Inr _, w') \<Rightarrow> (Inr (length out), w')))"

fun frame_backend_to_client ::
  "'s rng \<Rightarrow> nat \<Rightarrow> (nat \<times> timed_event) list \<Rightarrow> 's \<Rightarrow> writer \<Rightarrow> u64 \<Rightarrow> u64 \<Rightarrow>
     task_end \<times> 's \<times> writer \<times> u64 \<times> u64" where
  "frame_backend_to_client g window [] s client_wr n chaff = (Blocked [], s, client_wr, n, chaff)"
| "frame_backend_to_client g window ((elapsed, ev) # evs) s client_wr n chaff =
     (case ev of
        IdleTick \<Rightarrow>
          if elapsed < window then
            (let (c, s) = random_chaff g s in
             (case send_frame padded_codec (frame_chaff c) client_wr of
                (Inl e, client_wr) \<Rightarrow> (Failed e, s, client_wr, n, chaff)
              | (Inr len, client_wr) \<Rightarrow>
                  frame_backend_to_client g window evs s client_wr n (chaff + of_nat len)))
          else frame_backend_to_client g window evs s client_wr n chaff
      | Arrives (RFail e) \<Rightarrow> (Failed e, s, client_wr, n, chaff)
      | Arrives (RData d) \<Rightarrow>
          if d = [] then
            (case write_op Shutdown client_wr of
               (Inl e, client_wr) \<Rightarrow> (Failed e, s, client_wr, n, chaff)
             | (Inr _, client_wr) \<Rightarrow> (Returned, s, client_wr, n, chaff))
          else
            (let n = n + of_nat (length d) in
             (case send_frame padded_codec (frame_data d) client_wr of
                (Inl e, client_wr) \<Rightarrow> (Failed e, s, client_wr, n, chaff)
              | (Inr _, client_wr) \<Rightarrow>
                  (case write_op Flush client_wr of
                     (Inl e, client_wr) \<Rightarrow> (Failed e, s, client_wr, n, chaff)
                   | (Inr _, client_wr) \<Rightarrow>
                       frame_backend_to_client g window evs s client_wr n chaff))))"

section \<open>The tunnel\<close>

text \<open>What \<^verbatim>\<open>try_join\<close> gives for the ends of the two halves: the first error, success when both have
  returned, nothing while one of them waits.  \<^verbatim>\<open>up_first\<close> says which of two errors came first.\<close>

definition try_join :: "bool \<Rightarrow> task_end \<Rightarrow> task_end \<Rightarrow> (io_error + unit) option" where
  "try_join up_first up down =
     (case (up, down) of
        (Failed e, Failed e') \<Rightarrow> Some (Inl (if up_first then e else e'))
      | (Failed e, _) \<Rightarrow> Some (Inl e)
      | (_, Failed e) \<Rightarrow> Some (Inl e)
      | (Returned, Returned) \<Rightarrow> Some (Inr ())
      | _ \<Rightarrow> None)"

definition is_disconnect :: "io_error \<Rightarrow> bool" where
  "is_disconnect e \<longleftrightarrow> io_error_kind e = ConnectionReset \<or> io_error_kind e = BrokenPipe"

definition tunnel_result :: "io_error + unit \<Rightarrow> io_error + unit" where
  "tunnel_result r = (case r of Inr _ \<Rightarrow> Inr () | Inl e \<Rightarrow> if is_disconnect e then Inr () else Inl e)"

fun map_failed :: "(io_error \<Rightarrow> io_error) \<Rightarrow> task_end \<Rightarrow> task_end" where
  "map_failed h (Failed e) = Failed (h e)"
| "map_failed h t = t"

record tunnel_run =
  tr_result :: "(io_error + unit) option"
  tr_client :: writer
  tr_backend :: writer
  tr_up :: u64
  tr_down :: u64
  tr_chaff :: u64

definition forward_tunnel ::
  "'s rng \<Rightarrow> 's \<Rightarrow> bool \<Rightarrow> read_event list \<Rightarrow> bytes \<Rightarrow> (nat \<times> timed_event) list \<Rightarrow> writer \<Rightarrow> writer \<Rightarrow>
     tunnel_run" where
  "forward_tunnel g s up_first client_rd leftover backend_rd client_wr backend_wr =
     (let (chaff_payload, s) = initial_chaff g s in
      case send_frame padded_codec (frame_chaff chaff_payload) client_wr of
        (Inl e, client_wr) \<Rightarrow>
          \<lparr>tr_result = Some (Inl e), tr_client = client_wr, tr_backend = backend_wr,
           tr_up = 0, tr_down = 0, tr_chaff = 0\<rparr>
      | (Inr _, client_wr) \<Rightarrow>
          (case write_op Flush client_wr of
             (Inl e, client_wr) \<Rightarrow>
               \<lparr>tr_result = Some (Inl e), tr_client = client_wr, tr_backend = backend_wr,
                tr_up = 0, tr_down = 0, tr_chaff = 0\<rparr>
           | (Inr _, client_wr) \<Rightarrow>
               (let (up, backend_wr, up_bytes) =
                      deframe_client_to_backend client_rd leftover backend_wr 0;
                    (down, s, client_wr, down_bytes, chaff_bytes) =
                      frame_backend_to_client g IDLE_CHAFF_WINDOW_ms backend_rd s client_wr 0 0;
                    joined = try_join up_first
                      (map_failed (\<lambda>e. tag_direction e ClientToBackend) up)
                      (map_failed (\<lambda>e. tag_direction e BackendToClient) down)
                in \<lparr>tr_result = map_option tunnel_result joined,
                    tr_client = client_wr, tr_backend = backend_wr,
                    tr_up = up_bytes, tr_down = down_bytes, tr_chaff = chaff_bytes\<rparr>)))"

section \<open>What the backend half sends\<close>

fun arrived :: "(nat \<times> timed_event) list \<Rightarrow> bytes list" where
  "arrived [] = []"
| "arrived ((t, IdleTick) # evs) = arrived evs"
| "arrived ((t, Arrives (RFail e)) # evs) = []"
| "arrived ((t, Arrives (RData d)) # evs) = (if d = [] then [] else d # arrived evs)"

fun timed_ends :: "(nat \<times> timed_event) list \<Rightarrow> stream_end" where
  "timed_ends [] = Quiet"
| "timed_ends ((t, IdleTick) # evs) = timed_ends evs"
| "timed_ends ((t, Arrives (RFail e)) # evs) = Broken e"
| "timed_ends ((t, Arrives (RData d)) # evs) = (if d = [] then Eof else timed_ends evs)"

text \<open>Idle ticks inside the cover-traffic window, before the stream ends.\<close>

fun idle_ticks :: "nat \<Rightarrow> (nat \<times> timed_event) list \<Rightarrow> nat" where
  "idle_ticks window [] = 0"
| "idle_ticks window ((t, IdleTick) # evs) = (if t < window then 1 else 0) + idle_ticks window evs"
| "idle_ticks window ((t, Arrives (RFail e)) # evs) = 0"
| "idle_ticks window ((t, Arrives (RData d)) # evs) = (if d = [] then 0 else idle_ticks window evs)"

definition end_of :: "stream_end \<Rightarrow> task_end" where
  "end_of e = (case e of Quiet \<Rightarrow> Blocked [] | Eof \<Rightarrow> Returned | Broken er \<Rightarrow> Failed er)"

lemma nth_CHAFF_BUCKETS: "i < length CHAFF_BUCKETS \<Longrightarrow> CHAFF_BUCKETS ! i \<le> 512"
proof -
  assume "i < length CHAFF_BUCKETS"
  then have "CHAFF_BUCKETS ! i \<in> set CHAFF_BUCKETS" by simp
  then show ?thesis by (auto simp: CHAFF_BUCKETS_def)
qed

lemma length_random_chaff:
  assumes "rng_ok g"
  shows "length (fst (random_chaff g s)) \<le> 512"
proof -
  have "fst (gen_range g (length CHAFF_BUCKETS) s) < length CHAFF_BUCKETS"
    using assms by (auto simp: rng_ok_def CHAFF_BUCKETS_def)
  then show ?thesis
    using assms nth_CHAFF_BUCKETS by (auto simp: random_chaff_def rng_ok_def split: prod.splits)
qed

lemma length_initial_chaff:
  assumes "rng_ok g"
  shows "length (fst (initial_chaff g s)) \<in> {128, 256}"
proof -
  have "fst (gen_range g (length INITIAL_CHAFF_BUCKETS) s) < length INITIAL_CHAFF_BUCKETS"
    using assms by (auto simp: rng_ok_def INITIAL_CHAFF_BUCKETS_def)
  then have "INITIAL_CHAFF_BUCKETS ! fst (gen_range g (length INITIAL_CHAFF_BUCKETS) s)
      \<in> set INITIAL_CHAFF_BUCKETS" by simp
  then show ?thesis
    using assms by (auto simp: initial_chaff_def rng_ok_def INITIAL_CHAFF_BUCKETS_def split: prod.splits)
qed

lemma send_frame_ok:
  "faultless w \<Longrightarrow> send_frame codec f w =
     (Inr (length (frame_bytes codec f)), w\<lparr>acts := acts w @ [Write (frame_bytes codec f)]\<rparr>)"
  by (simp add: send_frame_def encode_eq write_op_ok)

lemma frame_kinds [simp]:
  "is_data (frame_data p)" "\<not> is_chaff (frame_data p)" "is_chaff (frame_chaff p)"
  "\<not> is_data (frame_chaff p)" "payload (frame_data p) = p" "payload (frame_chaff p) = p"
  by (simp_all add: frame_kind_defs frame_type_defs)

text \<open>The run of this loop over working streams: it writes what arrives, framed, and one chaff frame for each
  idle tick inside the window.\<close>

definition backend_runs ::
  "'s rng \<Rightarrow> nat \<Rightarrow> (nat \<times> timed_event) list \<Rightarrow> 's \<Rightarrow> writer \<Rightarrow> u64 \<Rightarrow> u64 \<Rightarrow> bool" where
  "backend_runs g window evs s w n chaff \<longleftrightarrow>
     (\<exists>frames as s'. written as = concat (map (frame_bytes padded_codec) frames)
    \<and> data_payloads frames = arrived evs
    \<and> (\<forall>f\<in>set frames. (is_data f \<or> is_chaff f) \<and> length (payload f) \<le> COPY_BUF)
    \<and> length (filter is_chaff frames) = idle_ticks window evs
    \<and> frame_backend_to_client g window evs s w n chaff =
        (end_of (timed_ends evs), s', w\<lparr>acts := acts w @ as\<rparr>, n + of_nat (length (concat (arrived evs))),
         chaff + of_nat (length (concat (map (frame_bytes padded_codec) (filter is_chaff frames))))))"

lemma backend_runs_tick:
  fixes g :: "'s rng"
  defines "f \<equiv> \<lambda>s. frame_chaff (fst (random_chaff g s))"
  assumes "rng_ok g" "faultless w" "t < window"
    and "backend_runs g window evs (snd (random_chaff g s)) (w\<lparr>acts := acts w @ [Write (frame_bytes padded_codec (f s))]\<rparr>) n
      (chaff + of_nat (length (frame_bytes padded_codec (f s))))"
  shows "backend_runs g window ((t, IdleTick) # evs) s w n chaff"
proof -
  obtain frames as s' where "written as = concat (map (frame_bytes padded_codec) frames)"
    "data_payloads frames = arrived evs"
    "\<forall>f\<in>set frames. (is_data f \<or> is_chaff f) \<and> length (payload f) \<le> COPY_BUF"
    "length (filter is_chaff frames) = idle_ticks window evs"
    "frame_backend_to_client g window evs (snd (random_chaff g s)) (w\<lparr>acts := acts w @ [Write (frame_bytes padded_codec (f s))]\<rparr>) n
        (chaff + of_nat (length (frame_bytes padded_codec (f s)))) =
      (end_of (timed_ends evs), s', w\<lparr>acts := (acts w @ [Write (frame_bytes padded_codec (f s))]) @ as\<rparr>,
       n + of_nat (length (concat (arrived evs))),
       chaff + of_nat (length (frame_bytes padded_codec (f s)))
         + of_nat (length (concat (map (frame_bytes padded_codec) (filter is_chaff frames)))))"
    using assms(5) unfolding backend_runs_def by auto
  then show ?thesis
    unfolding backend_runs_def using assms(3,4) length_random_chaff [OF assms(2), of s]
    by (intro exI [of _ "f s # frames"] exI [of _ "Write (frame_bytes padded_codec (f s)) # as"] exI [of _ s'])
       (auto simp: f_def send_frame_ok COPY_BUF_def split: prod.splits)
qed

lemma backend_runs_end:
  assumes "faultless w" "\<nexists>d. q = RData d \<and> d \<noteq> []"
  shows "backend_runs g window ((t, Arrives q) # evs) s w n chaff"
proof (cases q)
  case (RFail er)
  then show ?thesis unfolding backend_runs_def
    by (intro exI [of _ "[]"] exI [of _ "[]"] exI [of _ s]) (simp add: end_of_def)
next
  case (RData d)
  then show ?thesis using assms unfolding backend_runs_def
    by (intro exI [of _ "[]"] exI [of _ "[Shutdown]"] exI [of _ s]) (simp add: end_of_def write_op_ok)
qed

lemma backend_runs_data:
  fixes d :: bytes
  defines "out \<equiv> [Write (frame_bytes padded_codec (frame_data d)), Flush]"
  assumes "faultless w" "d \<noteq> []" "length d \<le> COPY_BUF"
    and "backend_runs g window evs s (w\<lparr>acts := acts w @ out\<rparr>) (n + of_nat (length d)) chaff"
  shows "backend_runs g window ((t, Arrives (RData d)) # evs) s w n chaff"
proof -
  obtain frames as s' where "written as = concat (map (frame_bytes padded_codec) frames)"
    "data_payloads frames = arrived evs"
    "\<forall>f\<in>set frames. (is_data f \<or> is_chaff f) \<and> length (payload f) \<le> COPY_BUF"
    "length (filter is_chaff frames) = idle_ticks window evs"
    "frame_backend_to_client g window evs s (w\<lparr>acts := acts w @ out\<rparr>) (n + of_nat (length d)) chaff =
      (end_of (timed_ends evs), s', w\<lparr>acts := (acts w @ out) @ as\<rparr>,
       n + of_nat (length d) + of_nat (length (concat (arrived evs))),
       chaff + of_nat (length (concat (map (frame_bytes padded_codec) (filter is_chaff frames)))))"
    using assms(5) unfolding backend_runs_def by auto
  then show ?thesis
    unfolding backend_runs_def using assms(2-4)
    by (intro exI [of _ "frame_data d # frames"] exI [of _ "out @ as"] exI [of _ s']) (auto simp: out_def send_frame_ok write_op_ok)
qed

lemma down_faultless:
  assumes "rng_ok g" "faultless w" "\<forall>d\<in>set (arrived evs). length d \<le> COPY_BUF"
  shows "backend_runs g window evs s w n chaff"
  using assms(2,3)
proof (induction evs arbitrary: s w n chaff)
  case Nil
  then show ?case unfolding backend_runs_def by (intro exI [of _ "[]"]) (auto simp: end_of_def)
next
  case (Cons ev evs s w n chaff)
  consider t where "ev = (t, IdleTick)" | t q where "ev = (t, Arrives q)" "\<nexists>d. q = RData d \<and> d \<noteq> []"
    | t d where "ev = (t, Arrives (RData d))" "d \<noteq> []"
    by (cases ev rule: prod.exhaust) (metis timed_event.exhaust)
  then show ?case
  proof cases
    case 1
    show ?thesis
    proof (cases "t < window")
      case True
      then show ?thesis using Cons.prems 1 unfolding \<open>ev = _\<close> by (intro backend_runs_tick [OF assms(1)] Cons.IH) simp_all
    next
      case False
      then show ?thesis using Cons.IH [of w s n chaff] Cons.prems 1 by (simp add: backend_runs_def)
    qed
  next
    case 2
    show ?thesis unfolding 2(1) by (rule backend_runs_end [OF Cons.prems(1) 2(2)])
  next
    case 3
    then show ?thesis using Cons.prems unfolding 3(1) by (intro backend_runs_data Cons.IH) simp_all
  qed
qed

lemma padded_fits:
  "length (payload f) \<le> max_payload codec_new \<Longrightarrow> fits codec_new f (frame_pad padded_codec f)"
  unfolding padded_codec_def by (rule LENGTH_BUCKETS_fits)

lemma COPY_BUF_payload: "n \<le> COPY_BUF \<Longrightarrow> n \<le> max_payload codec_new"
  by (simp add: COPY_BUF_def codec_new_def DEFAULT_MAX_PAYLOAD_def)

lemma drain_padded:
  assumes "\<forall>f\<in>set frames. length (payload f) \<le> max_payload codec_new"
  shows "drain_frames codec_new (concat (map (frame_bytes padded_codec) frames)) = (frames, None, [])"
  using drain_frames_concat [OF codec_new_ok, of frames padded_codec "[]"] padded_fits assms by simp

section \<open>Properties\<close>

text \<open>A generator that always draws the first index and zero bytes, for the examples.\<close>

definition demo_rng :: "unit rng" where
  "demo_rng = \<lparr>gen_range = (\<lambda>n s. (0, s)), fill_bytes = (\<lambda>n s. (replicate n 0, s))\<rparr>"

definition demo_writer :: writer where
  "demo_writer = \<lparr>acts = [], faults = (\<lambda>_. None)\<rparr>"

lemma demo_rng_ok: "rng_ok demo_rng"
  by (simp add: rng_ok_def demo_rng_def)

lemma demo_writer_ok: "faultless demo_writer" "acts demo_writer = []"
  by (simp_all add: demo_writer_def faultless_def)

text \<open>A whole tunnel over working connections: what it has written on both sides, and how it ends.\<close>

lemma forward_tunnel_run:
  fixes g :: "'s rng" and s :: 's
  assumes "rng_ok g" "faultless client_wr" "faultless backend_wr" "acts client_wr = []" "acts backend_wr = []"
    and "\<forall>d\<in>set (arrived backend_rd). length d \<le> COPY_BUF"
    and "drain_frames codec_new (leftover @ stream_data client_rd) = (fs, None, r)"
  shows "\<exists>ua frames as chaff. written ua = concat (data_payloads fs) \<and> all_flushed ua
    \<and> drain_frames codec_new (written as) = (frames, None, [])
    \<and> data_payloads frames = arrived backend_rd \<and> is_chaff (hd frames)
    \<and> (\<forall>f\<in>set frames. is_data f \<or> is_chaff f)
    \<and> length (filter is_chaff frames) = 1 + idle_ticks IDLE_CHAFF_WINDOW_ms backend_rd
    \<and> forward_tunnel g s up_first client_rd leftover backend_rd client_wr backend_wr =
      \<lparr>tr_result = map_option tunnel_result (try_join up_first
        (map_failed (\<lambda>e. tag_direction e ClientToBackend)
          (case stream_ends client_rd of Quiet \<Rightarrow> Blocked r | Eof \<Rightarrow> Returned | Broken er \<Rightarrow> Failed er))
        (map_failed (\<lambda>e. tag_direction e BackendToClient) (end_of (timed_ends backend_rd)))),
       tr_client = client_wr\<lparr>acts := as\<rparr>, tr_backend = backend_wr\<lparr>acts := ua\<rparr>,
       tr_up = of_nat (length (concat (data_payloads fs))),
       tr_down = of_nat (length (concat (arrived backend_rd))), tr_chaff = chaff\<rparr>"
proof -
  let ?i = "frame_chaff (fst (initial_chaff g s))"
  let ?c = "client_wr\<lparr>acts := [Write (frame_bytes padded_codec ?i), Flush]\<rparr>"
  obtain ua where up: "written ua = concat (data_payloads fs)"
    "deframe_client_to_backend client_rd leftover backend_wr 0 =
      (case stream_ends client_rd of Quiet \<Rightarrow> Blocked r | Eof \<Rightarrow> Returned | Broken er \<Rightarrow> Failed er,
       backend_wr\<lparr>acts := ua\<rparr>, of_nat (length (concat (data_payloads fs))))"
    "all_flushed ua"
    using deframe.loop_faultless [OF assms(3,7), of 0] assms(5) by auto
  have cf: "faultless ?c" using assms(2) by simp
  obtain frames da s' where down: "written da = concat (map (frame_bytes padded_codec) frames)"
    "data_payloads frames = arrived backend_rd"
    "\<forall>f\<in>set frames. (is_data f \<or> is_chaff f) \<and> length (payload f) \<le> COPY_BUF"
    "length (filter is_chaff frames) = idle_ticks IDLE_CHAFF_WINDOW_ms backend_rd"
    "frame_backend_to_client g IDLE_CHAFF_WINDOW_ms backend_rd (snd (initial_chaff g s)) ?c 0 0 =
      (end_of (timed_ends backend_rd), s', ?c\<lparr>acts := acts ?c @ da\<rparr>, of_nat (length (concat (arrived backend_rd))),
       of_nat (length (concat (map (frame_bytes padded_codec) (filter is_chaff frames)))))"
    using down_faultless [OF assms(1) cf assms(6), of IDLE_CHAFF_WINDOW_ms "snd (initial_chaff g s)" 0 0]
    unfolding backend_runs_def by auto
  have i: "length (payload ?i) \<le> max_payload codec_new"
    using length_initial_chaff [OF assms(1), of s]
    by (auto simp: codec_new_def DEFAULT_MAX_PAYLOAD_def)
  note up(2) down(5)
  moreover have "drain_frames codec_new (written (acts ?c @ da)) = (?i # frames, None, [])"
    using drain_padded [of "?i # frames"] i down(1,3) COPY_BUF_payload by simp
  ultimately show ?thesis
    using assms(2,4) up(1,3) down(2,3,4)
    by (intro exI [of _ ua] exI [of _ "?i # frames"] exI [of _ "acts ?c @ da"] exI conjI)
      (auto simp: forward_tunnel_def send_frame_ok write_op_ok Let_def case_prod_beta)
qed



text \<open>(C22) No failure corrupts the request stream: whatever the client sends, whenever a read or a write
  fails and however much of a write got through, the bytes the backend has received from the
  client half are a prefix of the payloads of the DATA frames in the client's stream.\<close>

theorem backend_receives_prefix_under_any_fault:
  assumes "deframe_client_to_backend client_rd leftover backend_wr n = (res, backend_wr', n')"
  shows "\<exists>ds. written (acts backend_wr') = written (acts backend_wr) @ ds
    \<and> prefix ds (concat (data_payloads (fst (drain_frames codec_new (leftover @ stream_data client_rd)))))"
  using deframe.loop_prefix [OF assms]
  by (cases "drain_frames codec_new (leftover @ stream_data client_rd)") auto

theorem backend_receives_prefix_under_any_fault_witness:
  "\<exists>ds. written (acts (fst (snd (deframe_client_to_backend [] [3, 1, 2, 0, 7, 9]
      \<lparr>acts = [], faults = (\<lambda>_. Some (1, IoError BrokenPipe []))\<rparr> 0)))) = ds
    \<and> prefix ds (concat (data_payloads (fst (drain_frames codec_new ([3, 1, 2, 0, 7, 9] @ [])))))"
  using backend_receives_prefix_under_any_fault [of "[]" "[3, 1, 2, 0, 7, 9]"
      "\<lparr>acts = [], faults = (\<lambda>_. Some (1, IoError BrokenPipe []))\<rparr>" 0]
  by (cases "deframe_client_to_backend [] [3, 1, 2, 0, 7, 9]
      \<lparr>acts = [], faults = (\<lambda>_. Some (1, IoError BrokenPipe []))\<rparr> 0") auto

end
