(* ===== verification/Fsm_Types.thy ===== *)
theory Fsm_Types
  imports Prelude
begin

text \<open>The vocabulary of the client's session state machine
  (\<^verbatim>\<open>src/src/veil/fsm/types.rs\<close>): methods and their bit sets, states, events, effects, the configuration
  and the score entries.

  A \<^verbatim>\<open>Duration\<close> is a number of nanoseconds, an \<^verbatim>\<open>Instant\<close> a number of nanoseconds on the monotonic
  clock, a \<^verbatim>\<open>SystemTime\<close> a number of nanoseconds relative to the Unix epoch, negative before it.\<close>

type_synonym duration = nat
type_synonym instant = nat
type_synonym system_time = int

definition from_millis :: "nat \<Rightarrow> duration" where "from_millis n = n * 1000000"
definition from_secs :: "nat \<Rightarrow> duration" where "from_secs n = n * 1000000000"

text \<open>\<^verbatim>\<open>SystemTime::duration_since\<close>: an error when the other time is later.\<close>

definition duration_since :: "system_time \<Rightarrow> system_time \<Rightarrow> duration option" where
  "duration_since now t = (if t \<le> now then Some (nat (now - t)) else None)"

section \<open>Methods\<close>

datatype MethodId = Obfs4 | WebTunnel | Masque | VeilFront

fun discriminant :: "MethodId \<Rightarrow> nat" where
  "discriminant Obfs4 = 0"
| "discriminant WebTunnel = 1"
| "discriminant Masque = 2"
| "discriminant VeilFront = 3"

definition methods_all :: "MethodId list" where
  "methods_all = [Obfs4, WebTunnel, Masque, VeilFront]"

definition method_bit :: "MethodId \<Rightarrow> u32" where
  "method_bit m = push_bit (discriminant m) 1"

fun method_name :: "MethodId \<Rightarrow> string" where
  "method_name Obfs4 = ''obfs4''"
| "method_name WebTunnel = ''webtunnel''"
| "method_name Masque = ''masque''"
| "method_name VeilFront = ''veil-front''"

text \<open>Methods are ordered by their discriminants, which is the order of the stored rows.\<close>

instantiation MethodId :: linorder
begin

definition less_eq_MethodId :: "MethodId \<Rightarrow> MethodId \<Rightarrow> bool" where
  "less_eq_MethodId a b \<longleftrightarrow> discriminant a \<le> discriminant b"

definition less_MethodId :: "MethodId \<Rightarrow> MethodId \<Rightarrow> bool" where
  "less_MethodId a b \<longleftrightarrow> discriminant a < discriminant b"

instance
proof
  fix a b :: MethodId
  show "a \<le> b \<Longrightarrow> b \<le> a \<Longrightarrow> a = b"
    by (cases a; cases b) (simp_all add: less_eq_MethodId_def)
qed (auto simp: less_eq_MethodId_def less_MethodId_def)

end

section \<open>Networks, outcomes and failures\<close>

datatype NetworkFingerprint = NetworkFingerprint (as_bytes: bytes)

definition fingerprint_default :: NetworkFingerprint where
  "fingerprint_default = NetworkFingerprint (replicate 16 0)"

datatype ProbeFailureReason =
  PFingerprintBlocked | PTlsCertProblem | PConnectionFailed | PTimeout | PUnknown

datatype TransportFailureKind = TFingerprintBlocked | TTlsCertProblem | TStreamTimeout | TUnknown

datatype ScoreOutcome = Success u32 | Failure ProbeFailureReason

section \<open>The set of allowed methods\<close>

datatype MethodSet = MethodSet (method_bits: u32)

definition method_set_all :: MethodSet where "method_set_all = MethodSet 0"
definition method_set_none :: MethodSet where "method_set_none = MethodSet (- 1)"
definition from_bitmask :: "u32 \<Rightarrow> MethodSet" where "from_bitmask bits = MethodSet bits"

definition contains :: "MethodSet \<Rightarrow> MethodId \<Rightarrow> bool" where
  "contains s m \<longleftrightarrow> (if method_bits s = 0 then True else method_bits s AND method_bit m = 0)"

definition iter_allowed :: "MethodSet \<Rightarrow> MethodId list" where
  "iter_allowed s = filter (contains s) methods_all"

section \<open>States, events, effects\<close>

datatype ProbeAttempt = ProbeAttempt (attempt_started_at: instant)

datatype VeilState =
    Idle
  | Probing (candidates: "MethodId list") (attempts: "MethodId \<rightharpoonup> ProbeAttempt") (probing_since: instant)
  | Active (active_method: MethodId) (active_port: u16) (active_since: instant) (active_failures: byte)
  | Degraded (degraded_method: MethodId) (degraded_port: u16) (degraded_failures: byte)
  | Cooldown (cooldown_until: instant)

fun state_label :: "VeilState \<Rightarrow> string" where
  "state_label Idle = ''idle''"
| "state_label (Probing _ _ _) = ''probing''"
| "state_label (Active _ _ _ _) = ''active''"
| "state_label (Degraded _ _ _) = ''degraded''"
| "state_label (Cooldown _) = ''cooldown''"

datatype VeilEvent =
    Start string NetworkFingerprint MethodSet
  | Stop
  | ProbeSucceeded MethodId u16 u32
  | ProbeFailed MethodId ProbeFailureReason
  | AllProbesFailed
  | TransportFailure TransportFailureKind
  | CooldownElapsed

datatype VeilEffect =
    StartProbes "MethodId list" string
  | CancelOtherProbes MethodId
  | StopActive
  | ScheduleCooldown duration
  | RecordScore MethodId NetworkFingerprint ScoreOutcome

section \<open>Configuration and scores\<close>

record VeilConfig =
  top_k_probes :: nat
  inter_probe_delay :: duration
  probe_timeout :: duration
  degraded_threshold :: byte
  cooldown_duration :: duration
  block_ttl :: duration
  max_fingerprints :: nat

definition config_default :: VeilConfig where
  "config_default =
     \<lparr>top_k_probes = 2, inter_probe_delay = from_millis 150, probe_timeout = from_secs 8,
      degraded_threshold = 2, cooldown_duration = from_secs 30,
      block_ttl = from_secs (7 * 24 * 3600), max_fingerprints = 50\<rparr>"

definition config_legacy :: VeilConfig where
  "config_legacy = config_default\<lparr>top_k_probes := 1\<rparr>"

record ScoreEntry =
  successes :: u32
  failures :: u32
  last_success_at :: "system_time option"
  last_failure_at :: "system_time option"
  median_latency_ms :: u32
  blocked_at :: "system_time option"
  consecutive_failures :: byte

definition score_entry_default :: ScoreEntry where
  "score_entry_default =
     \<lparr>successes = 0, failures = 0, last_success_at = None, last_failure_at = None,
      median_latency_ms = 0, blocked_at = None, consecutive_failures = 0\<rparr>"

section \<open>Facts\<close>

lemma UNIV_MethodId: "(UNIV :: MethodId set) = set methods_all"
proof -
  have "m \<in> set methods_all" for m by (cases m) (simp_all add: methods_all_def)
  then show ?thesis by blast
qed

lemma finite_MethodId [simp]: "finite (S :: MethodId set)"
  by (rule finite_subset [OF subset_UNIV]) (simp add: UNIV_MethodId)

lemma distinct_methods_all [simp]: "distinct methods_all" and sorted_methods_all [simp]: "sorted methods_all"
  by (simp_all add: methods_all_def less_eq_MethodId_def)

lemma set_iter_allowed [simp]: "m \<in> set (iter_allowed s) \<longleftrightarrow> contains s m"
  using UNIV_MethodId by (auto simp: iter_allowed_def)

lemma distinct_iter_allowed [simp]: "distinct (iter_allowed s)"
  by (simp add: iter_allowed_def)

lemma discriminant_inject [simp]: "discriminant a = discriminant b \<longleftrightarrow> a = b"
  by (cases a; cases b) simp_all

lemma bit_method_bit: "bit (method_bit m) n \<longleftrightarrow> n = discriminant m"
proof -
  have "discriminant m < 32" by (cases m) simp_all
  then show ?thesis
    by (auto simp: method_bit_def bit_exp_iff possible_bit_def)
qed

text \<open>A method is allowed exactly when its own bit is clear; no other bit matters.\<close>

lemma contains_iff_bit: "contains s m \<longleftrightarrow> \<not> bit (method_bits s) (discriminant m)"
proof -
  have "method_bits s AND method_bit m = 0 \<longleftrightarrow> \<not> bit (method_bits s) (discriminant m)"
  proof
    assume "method_bits s AND method_bit m = 0"
    then have "\<not> bit (method_bits s AND method_bit m) (discriminant m)" by simp
    then show "\<not> bit (method_bits s) (discriminant m)" by (simp add: bit_and_iff bit_method_bit)
  next
    assume "\<not> bit (method_bits s) (discriminant m)"
    then have "bit (method_bits s AND method_bit m) n = bit 0 n" for n
      by (cases "n = discriminant m") (simp_all add: bit_and_iff bit_method_bit)
    then show "method_bits s AND method_bit m = 0" by (intro bit_eqI) blast
  qed
  then show ?thesis by (auto simp: contains_def)
qed

text \<open>The bit set of allowed methods: zero allows every method, all ones allows none, and any
  combination of methods can be expressed: clearing exactly the bits of a set of methods allows
  exactly these.\<close>

theorem method_set_exact:
  "iter_allowed method_set_all = methods_all
   \<and> iter_allowed method_set_none = []
   \<and> set (iter_allowed (from_bitmask (foldr (\<lambda>m b. method_bit m OR b) (filter (\<lambda>m. m \<notin> S) methods_all) 0))) = S"
proof (intro conjI)
  show "iter_allowed method_set_all = methods_all" by (simp add: iter_allowed_def contains_def method_set_all_def)
  show "iter_allowed method_set_none = []"
    by (simp add: iter_allowed_def contains_iff_bit method_set_none_def methods_all_def bit_simps)
  have b: "bit (foldr (\<lambda>m b. method_bit m OR b) ms 0) (discriminant m) \<longleftrightarrow> m \<in> set ms" for ms m
    by (induction ms) (auto simp: bit_or_iff bit_method_bit)
  show "set (iter_allowed (from_bitmask (foldr (\<lambda>m b. method_bit m OR b) (filter (\<lambda>m. m \<notin> S) methods_all) 0))) = S"
    using UNIV_MethodId by (auto simp: contains_iff_bit from_bitmask_def b)
qed

end
