(* ===== verification/F64.thy ===== *)
theory F64
  imports Prelude "HOL-Library.Log_Nat"
begin

text \<open>The part of IEEE-754 double arithmetic that the client's scoring uses: every operation is the
  exact rational operation followed by rounding to 53 significant bits, ties to even.  The scores
  stay between the smallest and the largest normal number, so the exponent range is not modelled.
  The lemmas are the two that bounds on scores need: rounding is monotone, and it leaves integers
  below 2 to the 53 alone.\<close>

definition round_half_even :: "rat \<Rightarrow> int" where
  "round_half_even q =
     (let f = \<lfloor>q\<rfloor>; d = q - of_int f
      in if d < 1 / 2 then f else if 1 / 2 < d then f + 1 else if even f then f else f + 1)"

text \<open>The power of two of the last kept bit of a positive number.\<close>

definition log2_guess :: "rat \<Rightarrow> int" where
  "log2_guess q =
     (let (a, b) = quotient_of q in int (floorlog 2 (nat a)) - int (floorlog 2 (nat b)))"

definition ulp_exp :: "rat \<Rightarrow> int" where
  "ulp_exp q = (if 2 powi log2_guess q \<le> q then log2_guess q else log2_guess q - 1) - 52"

definition f64 :: "rat \<Rightarrow> rat" where
  "f64 q =
     (if q = 0 then 0
      else let e = ulp_exp \<bar>q\<bar>
           in sgn q * of_int (round_half_even (\<bar>q\<bar> / 2 powi e)) * 2 powi e)"

section \<open>Rounding to an integer\<close>

lemma round_half_even_bounds: "\<lfloor>q\<rfloor> \<le> round_half_even q" "round_half_even q \<le> \<lfloor>q\<rfloor> + 1"
  by (simp_all add: round_half_even_def Let_def)

lemma round_half_even_of_int [simp]: "round_half_even (of_int n) = n"
  by (simp add: round_half_even_def)

lemma round_half_even_mono:
  assumes "q \<le> r"
  shows "round_half_even q \<le> round_half_even r"
proof (cases "\<lfloor>q\<rfloor> = \<lfloor>r\<rfloor>")
  case True
  then show ?thesis using assms by (auto simp: round_half_even_def Let_def)
next
  case False
  with floor_mono [OF assms] have "\<lfloor>q\<rfloor> + 1 \<le> \<lfloor>r\<rfloor>" by simp
  then show ?thesis
    using round_half_even_bounds(2) [of q] round_half_even_bounds(1) [of r] by linarith
qed

section \<open>The exponent\<close>

lemma floorlog_bounds_rat:
  assumes "0 < (a :: nat)"
  shows "2 powi (int (floorlog 2 a) - 1) \<le> (of_nat a :: rat)" "(of_nat a :: rat) < 2 powi int (floorlog 2 a)"
proof -
  from floorlog_bounds [of a 2] assms have b: "2 ^ (floorlog 2 a - 1) \<le> a" "a < 2 ^ floorlog 2 a" by auto
  have p: "0 < floorlog 2 a" using assms by (simp add: floorlog_def)
  have "(of_nat (2 ^ (floorlog 2 a - 1)) :: rat) \<le> of_nat a" "(of_nat a :: rat) < of_nat (2 ^ floorlog 2 a)"
    using b by (simp_all only: of_nat_le_iff of_nat_less_iff)
  moreover have "int (floorlog 2 a) - 1 = int (floorlog 2 a - 1)" using p by simp
  ultimately show "2 powi (int (floorlog 2 a) - 1) \<le> (of_nat a :: rat)"
    "(of_nat a :: rat) < 2 powi int (floorlog 2 a)"
    by (simp_all add: power_int_of_nat del: of_nat_diff)
qed

lemma log2_guess_bounds:
  assumes "0 < q"
  shows "2 powi (log2_guess q - 1) \<le> q" "q < 2 powi (log2_guess q + 1)"
proof -
  obtain a b where ab: "quotient_of q = (a, b)" by fastforce
  have q: "q = of_int a / of_int b" and b0: "0 < b"
    using quotient_of_div [OF ab] quotient_of_denom_pos [OF ab] by auto
  have a0: "0 < a" using assms q b0 by (simp add: zero_less_divide_iff)
  let ?la = "int (floorlog 2 (nat a))" and ?lb = "int (floorlog 2 (nat b))"
  have A: "2 powi (?la - 1) \<le> (of_int a :: rat)" "(of_int a :: rat) < 2 powi ?la"
    using floorlog_bounds_rat [of "nat a"] a0 by simp_all
  have B: "2 powi (?lb - 1) \<le> (of_int b :: rat)" "(of_int b :: rat) < 2 powi ?lb"
    using floorlog_bounds_rat [of "nat b"] b0 by simp_all
  have g: "log2_guess q = ?la - ?lb" by (simp add: log2_guess_def ab)
  have pb: "(0 :: rat) < of_int b" using b0 by simp
  have e1: "(2 :: rat) powi (?la - 1) = 2 powi (log2_guess q - 1) * 2 powi ?lb"
    using power_int_add [of "2 :: rat" "log2_guess q - 1" ?lb] by (simp add: g del: power_int_of_nat)
  have e2: "(2 :: rat) powi ?la = 2 powi (log2_guess q + 1) * 2 powi (?lb - 1)"
    using power_int_add [of "2 :: rat" "log2_guess q + 1" "?lb - 1"] by (simp add: g del: power_int_of_nat)
  have "2 powi (log2_guess q - 1) * of_int b \<le> 2 powi (log2_guess q - 1) * (2 powi ?lb :: rat)"
    using B(2) by (intro mult_left_mono) auto
  with A(1) e1 have "2 powi (log2_guess q - 1) * of_int b \<le> (of_int a :: rat)" by linarith
  then show "2 powi (log2_guess q - 1) \<le> q" using pb by (simp add: q pos_le_divide_eq)
  have "(2 :: rat) powi (log2_guess q + 1) * 2 powi (?lb - 1) \<le> 2 powi (log2_guess q + 1) * of_int b"
    using B(1) by (intro mult_left_mono) auto
  with A(2) e2 have "(of_int a :: rat) < 2 powi (log2_guess q + 1) * of_int b" by linarith
  then show "q < 2 powi (log2_guess q + 1)" using pb by (simp add: q pos_divide_less_eq)
qed

lemma ulp_exp_bounds:
  assumes "0 < q"
  shows "2 powi (ulp_exp q + 52) \<le> q" "q < 2 powi (ulp_exp q + 53)"
  using log2_guess_bounds [OF assms] by (auto simp: ulp_exp_def add.commute)

lemma powi_mono: "a \<le> b \<Longrightarrow> (2 :: rat) powi a \<le> 2 powi b"
  by (rule power_int_increasing) simp_all

lemma ulp_exp_mono:
  assumes "0 < q" "q \<le> r"
  shows "ulp_exp q \<le> ulp_exp r"
proof (rule ccontr)
  assume "\<not> ?thesis"
  then have "ulp_exp r + 53 \<le> ulp_exp q + 52" by simp
  from powi_mono [OF this] ulp_exp_bounds(1) [OF assms(1)] ulp_exp_bounds(2) [of r] assms
  show False by linarith
qed

section \<open>Rounding to a double\<close>

lemma f64_pos: "0 < q \<Longrightarrow> f64 q = of_int (round_half_even (q / 2 powi ulp_exp q)) * 2 powi ulp_exp q"
  by (simp add: f64_def Let_def)

lemma f64_0 [simp]: "f64 0 = 0"
  by (simp add: f64_def)

lemma f64_minus: "f64 (- q) = - f64 q"
  by (simp add: f64_def Let_def)

lemma scaled_bounds:
  assumes "0 < q"
  shows "2 ^ 52 \<le> q / 2 powi ulp_exp q" "q / 2 powi ulp_exp q < 2 ^ 53"
  using ulp_exp_bounds [OF assms]
  by (simp_all add: pos_le_divide_eq pos_divide_less_eq power_int_add mult.commute)

lemma f64_binade:
  assumes "0 < q"
  shows "2 powi (ulp_exp q + 52) \<le> f64 q" "f64 q \<le> 2 powi (ulp_exp q + 53)"
proof -
  let ?s = "q / 2 powi ulp_exp q"
  have "2 ^ 52 \<le> \<lfloor>?s\<rfloor>" using scaled_bounds(1) [OF assms] by (simp add: le_floor_iff)
  then have lo: "2 ^ 52 \<le> round_half_even ?s" using round_half_even_bounds(1) [of ?s] by linarith
  have "\<lfloor>?s\<rfloor> < 2 ^ 53" using scaled_bounds(2) [OF assms] by (simp add: floor_less_iff)
  then have hi: "round_half_even ?s \<le> 2 ^ 53" using round_half_even_bounds(2) [of ?s] by linarith
  have l: "(2 ^ 52 :: rat) \<le> of_int (round_half_even ?s)" and h: "of_int (round_half_even ?s) \<le> (2 ^ 53 :: rat)"
    using lo hi of_int_le_iff [where ?'a = rat, of "2 ^ 52" "round_half_even ?s"]
      of_int_le_iff [where ?'a = rat, of "round_half_even ?s" "2 ^ 53"] by simp_all
  have p: "(0 :: rat) \<le> 2 powi ulp_exp q" by simp
  show "2 powi (ulp_exp q + 52) \<le> f64 q"
    using mult_right_mono [OF l p] by (simp add: f64_pos [OF assms] power_int_add mult.commute)
  show "f64 q \<le> 2 powi (ulp_exp q + 53)"
    using mult_right_mono [OF h p] by (simp add: f64_pos [OF assms] power_int_add mult.commute)
qed

lemma f64_nonneg:
  assumes "0 \<le> q"
  shows "0 \<le> f64 q"
proof (cases "q = 0")
  case False
  have "(0 :: rat) \<le> 2 powi (ulp_exp q + 52)" by simp
  also have "\<dots> \<le> f64 q" using False assms by (intro f64_binade(1)) simp
  finally show ?thesis .
qed simp

lemma f64_mono_pos:
  assumes "0 < q" "q \<le> r"
  shows "f64 q \<le> f64 r"
proof (cases "ulp_exp q = ulp_exp r")
  case True
  have r: "0 < r" using assms by simp
  have "q / 2 powi ulp_exp q \<le> r / 2 powi ulp_exp q" using assms by (intro divide_right_mono) auto
  from round_half_even_mono [OF this] True show ?thesis
    by (simp add: f64_pos [OF assms(1)] f64_pos [OF r] mult_right_mono)
next
  case False
  with ulp_exp_mono [OF assms] have "ulp_exp q + 53 \<le> ulp_exp r + 52" by simp
  from powi_mono [OF this] f64_binade(2) [OF assms(1)] f64_binade(1) [of r] assms
  show ?thesis by linarith
qed

lemma f64_mono: "q \<le> r \<Longrightarrow> f64 q \<le> f64 r"
proof -
  assume le: "q \<le> r"
  consider "0 < q" | "q \<le> 0" "0 \<le> r" | "r < 0" by linarith
  then show ?thesis
  proof cases
    case 1
    then show ?thesis using le by (rule f64_mono_pos)
  next
    case 2
    have "f64 q \<le> 0" using f64_nonneg [of "- q"] 2 by (simp add: f64_minus)
    with f64_nonneg [OF 2(2)] show ?thesis by linarith
  next
    case 3
    then show ?thesis using f64_mono_pos [of "- r" "- q"] le by (simp add: f64_minus)
  qed
qed

lemma f64_of_int:
  assumes "\<bar>n\<bar> < 2 ^ 53"
  shows "f64 (of_int n) = of_int n"
proof -
  have pos: "f64 (of_int m) = of_int m" if m: "0 < m" "m < 2 ^ 53" for m :: int
  proof -
    let ?q = "of_int m :: rat"
    have q: "0 < ?q" using m by simp
    have "?q < 2 ^ 53" using m(2) of_int_less_iff [where ?'a = rat, of m "2 ^ 53"] by simp
    with ulp_exp_bounds(1) [OF q] have "(2 :: rat) powi (ulp_exp ?q + 52) < 2 powi 53" by simp
    then have e: "ulp_exp ?q \<le> 0"
      using powi_mono [of 53 "ulp_exp ?q + 52"] by (cases "ulp_exp ?q \<le> 0") auto
    then obtain k where k: "ulp_exp ?q = - int k" using nonpos_int_cases by blast
    have "?q / 2 powi ulp_exp ?q = of_int (m * 2 ^ k)"
      by (simp add: k power_int_minus divide_inverse power_int_of_nat)
    then show ?thesis
      by (simp only: f64_pos [OF q] round_half_even_of_int) (simp add: k power_int_minus power_int_of_nat)
  qed
  consider "0 < n" | "n = 0" | "n < 0" by linarith
  then show ?thesis
  proof cases
    case 3
    then show ?thesis using pos [of "- n"] assms by (simp add: f64_minus)
  qed (use pos [of n] assms in auto)
qed

section \<open>Rounding error\<close>

lemma round_half_even_error: "\<bar>of_int (round_half_even q) - q\<bar> \<le> 1 / 2"
proof -
  have "of_int \<lfloor>q\<rfloor> \<le> q" "q < of_int \<lfloor>q\<rfloor> + 1" by linarith+
  then show ?thesis by (auto simp: round_half_even_def Let_def abs_le_iff)
qed

lemma f64_rel_error:
  assumes "0 \<le> q"
  shows "\<bar>f64 q - q\<bar> \<le> q / 2 ^ 53"
proof (cases "q = 0")
  case False
  with assms have q: "0 < q" by simp
  let ?u = "2 powi ulp_exp q :: rat" let ?s = "q / ?u"
  have u: "0 < ?u" by simp
  have "f64 q - q = (of_int (round_half_even ?s) - ?s) * ?u" by (simp add: f64_pos [OF q] left_diff_distrib)
  then have "\<bar>f64 q - q\<bar> = \<bar>of_int (round_half_even ?s) - ?s\<bar> * ?u" using u by (simp add: abs_mult)
  also have "\<dots> \<le> 1 / 2 * ?u" by (rule mult_right_mono [OF round_half_even_error]) simp
  also have "\<dots> \<le> q / 2 ^ 53"
    using scaled_bounds(1) [OF q] by (simp add: pos_le_divide_eq)
  finally show ?thesis .
qed simp

text \<open>Below 2 to the 33 the error is at most 2 to the -20.\<close>

lemma f64_abs_error:
  assumes "0 \<le> q" "q \<le> 2 ^ 33"
  shows "\<bar>f64 q - q\<bar> \<le> 1 / 2 ^ 20"
  using f64_rel_error [OF assms(1)] assms(2) by simp

end
