(* ===== verification/Session.thy ===== *)
theory Session
  imports Tunnel Fsm_Types F64
begin

text \<open>The client's data plane without I/O (\<^verbatim>\<open>src/src/veil/veil_front\<close>): the front-loaded cover traffic
  (\<^verbatim>\<open>padding/mode0_front.rs\<close>), the write strategy that gives payload priority over it, and the two
  halves of a session (\<^verbatim>\<open>session.rs\<close>).  The generator of the chaff is third-party code; it adds a
  draw of a double to the operations the relay uses.\<close>

section \<open>Chaff\<close>

record 's chacha =
  cc_rng :: "'s rng"
  cc_gen_f64 :: "'s \<Rightarrow> rat \<times> 's"

definition PAYLOAD_COOLDOWN :: duration where "PAYLOAD_COOLDOWN = from_millis 5"
definition FRONT_WINDOW :: duration where "FRONT_WINDOW = from_secs 3"
definition MAX_CHAFF_QUEUE :: nat where "MAX_CHAFF_QUEUE = 64"

definition bucket_size :: "nat \<Rightarrow> nat" where
  "bucket_size n = pick_bucket LENGTH_BUCKETS n"

definition sample_chaff_size :: "'s chacha \<Rightarrow> 's \<Rightarrow> nat \<times> 's" where
  "sample_chaff_size c s =
     (let (roll, s) = cc_gen_f64 c s;
          base = (if roll < f64 (4 / 10) then 0 else if roll < f64 (8 / 10) then 4 else 8);
          (i, s) = gen_range (cc_rng c) 4 s
      in (LENGTH_BUCKETS ! (base + i), s))"

definition random_chaff_frame :: "'s chacha \<Rightarrow> 's \<Rightarrow> Frame \<times> 's" where
  "random_chaff_frame c s =
     (let (n, s) = sample_chaff_size c s;
          (p, s) = fill_bytes (cc_rng c) n s
      in (frame_new FRAME_TYPE_CHAFF p, s))"

fun generate_chaff_queue :: "'s chacha \<Rightarrow> nat \<Rightarrow> 's \<Rightarrow> Frame list \<times> 's" where
  "generate_chaff_queue c 0 s = ([], s)"
| "generate_chaff_queue c (Suc n) s =
     (let (f, s) = random_chaff_frame c s; (fs, s) = generate_chaff_queue c n s in (f # fs, s))"

record 's FrontChaffScheduler =
  chaff_queue :: "Frame list"
  queue_index :: nat
  connection_start :: "instant option"
  last_payload_at :: "instant option"
  chaff_bytes :: u64
  payload_bytes :: u64
  chaff_frames_sent :: u64
  sched_rng :: 's
  front_window_closed :: bool

definition scheduler_new :: "'s chacha \<Rightarrow> 's \<Rightarrow> 's FrontChaffScheduler" where
  "scheduler_new c s =
     (let (queue, s) = generate_chaff_queue c MAX_CHAFF_QUEUE s in
      \<lparr>chaff_queue = queue, queue_index = 0, connection_start = None, last_payload_at = None,
       chaff_bytes = 0, payload_bytes = 0, chaff_frames_sent = 0, sched_rng = s,
       front_window_closed = False\<rparr>)"

text \<open>\<^verbatim>\<open>Instant::saturating_duration_since\<close> is subtraction on the naturals.\<close>

definition should_inject_chaff :: "'s FrontChaffScheduler \<Rightarrow> instant \<Rightarrow> bool" where
  "should_inject_chaff sch now =
     (if (case last_payload_at sch of Some last_payload \<Rightarrow> now - last_payload < PAYLOAD_COOLDOWN | None \<Rightarrow> False)
      then False
      else if front_window_closed sch then queue_index sch < length (chaff_queue sch)
      else True)"

definition is_done :: "'s FrontChaffScheduler \<Rightarrow> instant \<Rightarrow> bool" where
  "is_done sch now \<longleftrightarrow>
     (front_window_closed sch
        \<or> (case connection_start sch of Some start \<Rightarrow> FRONT_WINDOW \<le> now - start | None \<Rightarrow> False))
     \<and> length (chaff_queue sch) \<le> queue_index sch"

definition next_chaff_frame :: "'s FrontChaffScheduler \<Rightarrow> Frame option \<times> 's FrontChaffScheduler" where
  "next_chaff_frame sch =
     (if length (chaff_queue sch) \<le> queue_index sch then (None, sch)
      else (Some (chaff_queue sch ! queue_index sch), sch\<lparr>queue_index := queue_index sch + 1\<rparr>))"

definition generate_chaff :: "'s chacha \<Rightarrow> 's FrontChaffScheduler \<Rightarrow> Frame \<times> 's FrontChaffScheduler" where
  "generate_chaff c sch = (let (f, s) = random_chaff_frame c (sched_rng sch) in (f, sch\<lparr>sched_rng := s\<rparr>))"

definition on_payload_sent :: "instant \<Rightarrow> nat \<Rightarrow> 's FrontChaffScheduler \<Rightarrow> 's FrontChaffScheduler" where
  "on_payload_sent now payload_len sch =
     sch\<lparr>payload_bytes := payload_bytes sch + of_nat payload_len, last_payload_at := Some now\<rparr>"

definition count_chaff :: "Frame \<Rightarrow> 's FrontChaffScheduler \<Rightarrow> 's FrontChaffScheduler" where
  "count_chaff f sch =
     sch\<lparr>chaff_bytes := chaff_bytes sch + of_nat (length (payload f)),
         chaff_frames_sent := chaff_frames_sent sch + 1\<rparr>"

definition poll_chaff ::
  "'s chacha \<Rightarrow> instant \<Rightarrow> 's FrontChaffScheduler \<Rightarrow> Frame option \<times> 's FrontChaffScheduler" where
  "poll_chaff c now sch =
     (let sch = (if connection_start sch = None then sch\<lparr>connection_start := Some now\<rparr> else sch);
          elapsed = now - the (connection_start sch);
          sch = (if FRONT_WINDOW \<le> elapsed then sch\<lparr>front_window_closed := True\<rparr> else sch)
      in if \<not> should_inject_chaff sch now then (None, sch)
         else case next_chaff_frame sch of
           (Some f, sch) \<Rightarrow> (Some f, count_chaff f sch)
         | (None, sch) \<Rightarrow>
             if \<not> front_window_closed sch then
               (let (f, sch) = generate_chaff c sch in (Some f, count_chaff f sch))
             else (None, sch))"

definition sched_has_pending :: "'s FrontChaffScheduler \<Rightarrow> bool" where
  "sched_has_pending sch \<longleftrightarrow> queue_index sch < length (chaff_queue sch)"

definition overhead_ratio :: "'s FrontChaffScheduler \<Rightarrow> rat" where
  "overhead_ratio sch =
     (if payload_bytes sch = 0 then 0
      else f64 (f64 (of_nat (unat (chaff_bytes sch))) / f64 (of_nat (unat (payload_bytes sch)))))"

section \<open>Payload first\<close>

record PayloadQueue =
  pq_frames :: "Frame list"
  queued_bytes :: u64

definition pq_new :: PayloadQueue where "pq_new = \<lparr>pq_frames = [], queued_bytes = 0\<rparr>"

definition pq_push :: "Frame \<Rightarrow> PayloadQueue \<Rightarrow> PayloadQueue" where
  "pq_push f q = \<lparr>pq_frames = pq_frames q @ [f], queued_bytes = queued_bytes q + of_nat (length (payload f))\<rparr>"

definition pq_pop :: "PayloadQueue \<Rightarrow> Frame option \<times> PayloadQueue" where
  "pq_pop q = (case pq_frames q of [] \<Rightarrow> (None, q) | f # fs \<Rightarrow> (Some f, q\<lparr>pq_frames := fs\<rparr>))"

definition pq_has_pending :: "PayloadQueue \<Rightarrow> bool" where "pq_has_pending q \<longleftrightarrow> pq_frames q \<noteq> []"
definition pq_len :: "PayloadQueue \<Rightarrow> nat" where "pq_len q = length (pq_frames q)"
definition pq_is_empty :: "PayloadQueue \<Rightarrow> bool" where "pq_is_empty q \<longleftrightarrow> pq_frames q = []"
definition pq_clear :: "PayloadQueue \<Rightarrow> PayloadQueue" where "pq_clear q = \<lparr>pq_frames = [], queued_bytes = 0\<rparr>"

record 's WriteStrategy =
  payload_queue :: PayloadQueue
  chaff_scheduler :: "'s FrontChaffScheduler"

definition strategy_new :: "'s chacha \<Rightarrow> 's \<Rightarrow> 's WriteStrategy" where
  "strategy_new c s = \<lparr>payload_queue = pq_new, chaff_scheduler = scheduler_new c s\<rparr>"

definition next_frame :: "'s chacha \<Rightarrow> instant \<Rightarrow> 's WriteStrategy \<Rightarrow> Frame option \<times> 's WriteStrategy" where
  "next_frame c now ws =
     (case pq_pop (payload_queue ws) of
        (Some frame, q) \<Rightarrow>
          (Some frame,
           \<lparr>payload_queue = q, chaff_scheduler = on_payload_sent now (length (payload frame)) (chaff_scheduler ws)\<rparr>)
      | (None, q) \<Rightarrow>
          (let (f, sch) = poll_chaff c now (chaff_scheduler ws)
           in (f, \<lparr>payload_queue = q, chaff_scheduler = sch\<rparr>)))"

definition ws_has_pending :: "'s WriteStrategy \<Rightarrow> bool" where
  "ws_has_pending ws \<longleftrightarrow> pq_has_pending (payload_queue ws) \<or> sched_has_pending (chaff_scheduler ws)"

definition waits_for_payload :: "'s WriteStrategy \<Rightarrow> instant \<Rightarrow> bool" where
  "waits_for_payload ws now \<longleftrightarrow> \<not> pq_has_pending (payload_queue ws) \<and> is_done (chaff_scheduler ws) now"

section \<open>The session halves\<close>

record 's VeilFrontUp =
  strategy :: "'s WriteStrategy"
  up_codec :: VeilFrontCodec

definition up_new :: "'s chacha \<Rightarrow> 's \<Rightarrow> 's VeilFrontUp" where
  "up_new c s = \<lparr>strategy = strategy_new c s, up_codec = with_buckets LENGTH_BUCKETS codec_new\<rparr>"

definition queue_local :: "bytes \<Rightarrow> 's VeilFrontUp \<Rightarrow> 's VeilFrontUp" where
  "queue_local d up =
     up\<lparr>strategy := (strategy up)\<lparr>payload_queue := pq_push (frame_data d) (payload_queue (strategy up))\<rparr>\<rparr>"

definition next_wire :: "'s chacha \<Rightarrow> instant \<Rightarrow> 's VeilFrontUp \<Rightarrow> (frame_error + bytes option) \<times> 's VeilFrontUp" where
  "next_wire c now up =
     (case next_frame c now (strategy up) of
        (Some frame, ws) \<Rightarrow>
          (case encode (up_codec up) frame [] of
             (Inl e, _) \<Rightarrow> (Inl e, up\<lparr>strategy := ws\<rparr>)
           | (Inr _, out) \<Rightarrow> (Inr (Some out), up\<lparr>strategy := ws\<rparr>))
      | (None, ws) \<Rightarrow> (Inr None, up\<lparr>strategy := ws\<rparr>))"

definition up_has_pending :: "'s VeilFrontUp \<Rightarrow> bool" where "up_has_pending up = ws_has_pending (strategy up)"

definition waits_for_local :: "'s VeilFrontUp \<Rightarrow> instant \<Rightarrow> bool" where
  "waits_for_local up now = waits_for_payload (strategy up) now"

record VeilFrontDown =
  down_codec :: VeilFrontCodec
  down_buf :: bytes

definition down_new :: VeilFrontDown where
  "down_new = \<lparr>down_codec = codec_new, down_buf = []\<rparr>"

definition feed :: "bytes \<Rightarrow> VeilFrontDown \<Rightarrow> VeilFrontDown" where
  "feed d down = down\<lparr>down_buf := down_buf down @ d\<rparr>"

function next_payload :: "VeilFrontDown \<Rightarrow> (frame_error + bytes option) \<times> VeilFrontDown" where
  "next_payload down =
     (case decode (down_codec down) (down_buf down) of
        (Inl e, buf) \<Rightarrow> (Inl e, down\<lparr>down_buf := buf\<rparr>)
      | (Inr None, buf) \<Rightarrow> (Inr None, down\<lparr>down_buf := buf\<rparr>)
      | (Inr (Some frame), buf) \<Rightarrow>
          if frame_type frame = FRAME_TYPE_DATA then (Inr (Some (payload frame)), down\<lparr>down_buf := buf\<rparr>)
          else next_payload (down\<lparr>down_buf := buf\<rparr>))"
  by pat_completeness auto

termination next_payload
  by (relation "measure (length \<circ> down_buf)") (auto dest: decode_shrinks [OF sym])

declare next_payload.simps [simp del]

definition session_new :: "'s chacha \<Rightarrow> 's \<Rightarrow> 's VeilFrontUp \<times> VeilFrontDown" where
  "session_new c s = (up_new c s, down_new)"

section \<open>Runs\<close>

text \<open>What a driver does with the up half: queue local bytes and ask for wire bytes, in any order.  The run
  lists the frames with the time they were produced at.\<close>

datatype up_op = QueueLocal bytes | NextWire instant

fun up_run :: "'s chacha \<Rightarrow> up_op list \<Rightarrow> 's VeilFrontUp \<Rightarrow> (instant \<times> Frame) list \<times> 's VeilFrontUp" where
  "up_run c [] up = ([], up)"
| "up_run c (QueueLocal d # ops) up = up_run c ops (queue_local d up)"
| "up_run c (NextWire now # ops) up =
     (let (f, ws) = next_frame c now (strategy up);
          (evs, up') = up_run c ops (up\<lparr>strategy := ws\<rparr>)
      in ((case f of Some f \<Rightarrow> [(now, f)] | None \<Rightarrow> []) @ evs, up'))"

fun queued :: "up_op list \<Rightarrow> bytes list" where
  "queued [] = []"
| "queued (QueueLocal d # ops) = d # queued ops"
| "queued (NextWire now # ops) = queued ops"

fun op_times :: "up_op list \<Rightarrow> instant list" where
  "op_times [] = []"
| "op_times (QueueLocal d # ops) = op_times ops"
| "op_times (NextWire now # ops) = now # op_times ops"

lemma next_wire_eq:
  "next_wire c now up = (Inr (map_option (frame_bytes (up_codec up)) (fst (next_frame c now (strategy up)))),
     up\<lparr>strategy := snd (next_frame c now (strategy up))\<rparr>)"
  by (cases "next_frame c now (strategy up)")
    (auto simp: next_wire_def encode_eq split: option.splits)

text \<open>Queued frames carry data, prepared frames are chaff of a bucket size.\<close>

definition chacha_ok :: "'s chacha \<Rightarrow> bool" where
  "chacha_ok c \<longleftrightarrow> rng_ok (cc_rng c)"

definition chaff_ok :: "Frame \<Rightarrow> bool" where
  "chaff_ok f \<longleftrightarrow> is_chaff f \<and> length (payload f) \<in> set (take 12 LENGTH_BUCKETS)"

definition up_ok :: "'s VeilFrontUp \<Rightarrow> bool" where
  "up_ok up \<longleftrightarrow> (\<forall>f\<in>set (pq_frames (payload_queue (strategy up))). is_data f)
     \<and> (\<forall>f\<in>set (chaff_queue (chaff_scheduler (strategy up))). chaff_ok f)
     \<and> length (chaff_queue (chaff_scheduler (strategy up))) = MAX_CHAFF_QUEUE
     \<and> up_codec up = padded_codec"

lemma sample_in_buckets:
  assumes "chacha_ok c"
  shows "fst (sample_chaff_size c s) \<in> set (take 12 LENGTH_BUCKETS)"
proof -
  obtain roll s1 where r: "cc_gen_f64 c s = (roll, s1)" by fastforce
  obtain i s2 where i: "gen_range (cc_rng c) 4 s1 = (i, s2)" by fastforce
  have "i < 4" using assms i unfolding chacha_ok_def rng_ok_def by (metis fst_conv zero_less_numeral)
  then have b: "base + i < 12" if "base \<in> {0, 4, 8}" for base using that by auto
  have "LENGTH_BUCKETS ! j \<in> set (take 12 LENGTH_BUCKETS)" if "j < 12" for j
    using nth_mem [of j "take 12 LENGTH_BUCKETS"] nth_take [OF that, of LENGTH_BUCKETS] that
    by (simp add: LENGTH_BUCKETS_def del: nth_mem take_Suc_Cons)
  with b have "LENGTH_BUCKETS ! (base + i) \<in> set (take 12 LENGTH_BUCKETS)" if "base \<in> {0, 4, 8}" for base
    using that by blast
  then show ?thesis by (auto simp: sample_chaff_size_def r i Let_def)
qed

lemma random_chaff_frame_ok:
  assumes "chacha_ok c"
  shows "chaff_ok (fst (random_chaff_frame c s))"
  using sample_in_buckets [OF assms, of s] assms
  by (auto simp: random_chaff_frame_def chaff_ok_def frame_new_def is_chaff_def chacha_ok_def rng_ok_def
      Let_def case_prod_beta)

lemma generate_chaff_queue_ok:
  assumes "chacha_ok c"
  shows "(\<forall>f\<in>set (fst (generate_chaff_queue c n s)). chaff_ok f) \<and> length (fst (generate_chaff_queue c n s)) = n"
proof (induction n arbitrary: s)
  case (Suc n)
  then show ?case using random_chaff_frame_ok [OF assms, of s] Suc [of "snd (random_chaff_frame c s)"]
    by (simp add: Let_def case_prod_beta)
qed simp

lemma up_new_ok: "chacha_ok c \<Longrightarrow> up_ok (up_new c s)"
  using generate_chaff_queue_ok [of c MAX_CHAFF_QUEUE s]
  by (auto simp: up_ok_def up_new_def strategy_new_def pq_new_def scheduler_new_def padded_codec_def Let_def
      split: prod.splits)

lemma queue_local_ok: "up_ok up \<Longrightarrow> up_ok (queue_local d up)"
  by (auto simp: up_ok_def queue_local_def pq_push_def)

text \<open>One poll of the scheduler: what it returns and what it leaves.\<close>

lemma poll_chaff_cases:
  assumes "poll_chaff c now sch = (r, sch')" "chacha_ok c" "\<forall>f\<in>set (chaff_queue sch). chaff_ok f"
  shows "chaff_queue sch' = chaff_queue sch" "last_payload_at sch' = last_payload_at sch"
    "connection_start sch' = Some (case connection_start sch of Some t \<Rightarrow> t | None \<Rightarrow> now)"
    "queue_index sch \<le> queue_index sch'"
    "r = Some f \<Longrightarrow> chaff_ok f
       \<and> (case last_payload_at sch of Some t \<Rightarrow> PAYLOAD_COOLDOWN \<le> now - t | None \<Rightarrow> True)
       \<and> (connection_start sch = Some t0 \<and> FRONT_WINDOW \<le> now - t0 \<longrightarrow>
            queue_index sch < length (chaff_queue sch) \<and> queue_index sch' = Suc (queue_index sch))"
proof -
  define sch1 where "sch1 = (if connection_start sch = None then sch\<lparr>connection_start := Some now\<rparr> else sch)"
  define sch2 where "sch2 = (if FRONT_WINDOW \<le> now - the (connection_start sch1)
    then sch1\<lparr>front_window_closed := True\<rparr> else sch1)"
  have s2: "chaff_queue sch2 = chaff_queue sch" "last_payload_at sch2 = last_payload_at sch"
    "queue_index sch2 = queue_index sch"
    "connection_start sch2 = Some (case connection_start sch of Some t \<Rightarrow> t | None \<Rightarrow> now)"
    by (auto simp: sch1_def sch2_def split: option.splits)
  have closed: "connection_start sch = Some t0 \<Longrightarrow> FRONT_WINDOW \<le> now - t0 \<Longrightarrow> front_window_closed sch2"
    by (simp add: sch1_def sch2_def)
  have p: "poll_chaff c now sch =
    (if \<not> should_inject_chaff sch2 now then (None, sch2)
     else case next_chaff_frame sch2 of
       (Some f, sch) \<Rightarrow> (Some f, count_chaff f sch)
     | (None, sch) \<Rightarrow>
         if \<not> front_window_closed sch then (let (f, sch) = generate_chaff c sch in (Some f, count_chaff f sch))
         else (None, sch))"
    unfolding poll_chaff_def Let_def sch1_def sch2_def by (rule refl)
  obtain g s where g: "random_chaff_frame c (sched_rng sch2) = (g, s)" by fastforce
  have gok: "chaff_ok g" using random_chaff_frame_ok [OF assms(2), of "sched_rng sch2"] g by simp
  have qok: "queue_index sch < length (chaff_queue sch) \<Longrightarrow> chaff_ok (chaff_queue sch ! queue_index sch)"
    using assms(3) by simp
  note eqs = assms(1) [unfolded p] and defs = next_chaff_frame_def generate_chaff_def g count_chaff_def Let_def
  show "chaff_queue sch' = chaff_queue sch" "last_payload_at sch' = last_payload_at sch"
    "connection_start sch' = Some (case connection_start sch of Some t \<Rightarrow> t | None \<Rightarrow> now)"
    "queue_index sch \<le> queue_index sch'"
    using eqs s2 by (auto simp: defs split: if_splits)
  assume r: "r = Some f"
  then have inj: "should_inject_chaff sch2 now" using eqs by (auto split: if_splits)
  have "chaff_ok f" using eqs s2 r gok qok by (auto simp: defs split: if_splits)
  moreover have "case last_payload_at sch of Some t \<Rightarrow> PAYLOAD_COOLDOWN \<le> now - t | None \<Rightarrow> True"
    using inj by (auto simp: should_inject_chaff_def s2 split: option.splits if_splits)
  moreover have "queue_index sch < length (chaff_queue sch) \<and> queue_index sch' = Suc (queue_index sch)"
    if "connection_start sch = Some t0" "FRONT_WINDOW \<le> now - t0"
    using eqs s2 r inj closed [OF that] by (auto simp: defs should_inject_chaff_def split: if_splits)
  ultimately show "chaff_ok f
       \<and> (case last_payload_at sch of Some t \<Rightarrow> PAYLOAD_COOLDOWN \<le> now - t | None \<Rightarrow> True)
       \<and> (connection_start sch = Some t0 \<and> FRONT_WINDOW \<le> now - t0 \<longrightarrow>
            queue_index sch < length (chaff_queue sch) \<and> queue_index sch' = Suc (queue_index sch))" by blast
qed

abbreviation up_queue :: "'s VeilFrontUp \<Rightarrow> Frame list" where
  "up_queue up \<equiv> pq_frames (payload_queue (strategy up))"

abbreviation up_sched :: "'s VeilFrontUp \<Rightarrow> 's FrontChaffScheduler" where
  "up_sched up \<equiv> chaff_scheduler (strategy up)"

lemma next_frame_payload:
  "up_queue up = f # fs \<Longrightarrow> next_frame c now (strategy up) =
     (Some f, \<lparr>payload_queue = (payload_queue (strategy up))\<lparr>pq_frames := fs\<rparr>,
               chaff_scheduler = on_payload_sent now (length (payload f)) (up_sched up)\<rparr>)"
  by (simp add: next_frame_def pq_pop_def)

lemma next_frame_idle:
  "up_queue up = [] \<Longrightarrow> next_frame c now (strategy up) =
     (fst (poll_chaff c now (up_sched up)),
      \<lparr>payload_queue = payload_queue (strategy up), chaff_scheduler = snd (poll_chaff c now (up_sched up))\<rparr>)"
  by (simp add: next_frame_def pq_pop_def case_prod_beta)

lemma chaff_not_data: "chaff_ok f \<Longrightarrow> \<not> is_data f"
  by (auto simp: chaff_ok_def is_chaff_def is_data_def frame_type_defs)

lemma next_frame_ok:
  assumes "up_ok up" "chacha_ok c" "next_frame c now (strategy up) = (r, ws)"
  shows "up_ok (up\<lparr>strategy := ws\<rparr>)
    \<and> data_payloads (case r of Some f \<Rightarrow> [f] | None \<Rightarrow> []) @ map payload (pq_frames (payload_queue ws))
        = map payload (up_queue up)
    \<and> (\<forall>f. r = Some f \<longrightarrow> is_data f \<or> chaff_ok f)"
proof (cases "up_queue up")
  case (Cons f fs)
  with assms show ?thesis by (auto simp: next_frame_payload [OF Cons] up_ok_def on_payload_sent_def)
next
  case Nil
  obtain g sch where p: "poll_chaff c now (up_sched up) = (g, sch)" by fastforce
  have q: "\<forall>f\<in>set (chaff_queue (up_sched up)). chaff_ok f" using assms(1) by (simp add: up_ok_def)
  note pc = poll_chaff_cases [OF p assms(2) q]
  show ?thesis
    using assms Nil pc(1) pc(5) chaff_not_data by (auto simp: next_frame_idle [OF Nil] p up_ok_def split: option.splits)
qed

lemma up_run_ok:
  "up_ok up \<Longrightarrow> chacha_ok c \<Longrightarrow> up_run c ops up = (evs, up') \<Longrightarrow>
   up_ok up' \<and> (\<forall>(t, f)\<in>set evs. t \<in> set (op_times ops) \<and> (is_data f \<or> chaff_ok f))
   \<and> data_payloads (map snd evs) @ map payload (up_queue up') = map payload (up_queue up) @ queued ops"
proof (induction c ops up arbitrary: evs up' rule: up_run.induct)
  case (2 c d ops up)
  from 2(1) [of evs up'] 2(2-4) show ?case
    by (auto simp: queue_local_ok) (auto simp: queue_local_def pq_push_def)
next
  case (3 c now ops up)
  obtain r ws where n: "next_frame c now (strategy up) = (r, ws)" by fastforce
  obtain es up1 where e: "up_run c ops (up\<lparr>strategy := ws\<rparr>) = (es, up1)" by fastforce
  note ok = next_frame_ok [OF 3(2,3) n]
  have IH: "up_ok up1 \<and> (\<forall>(t, f)\<in>set es. t \<in> set (op_times ops) \<and> (is_data f \<or> chaff_ok f))
     \<and> data_payloads (map snd es) @ map payload (up_queue up1) = map payload (pq_frames (payload_queue ws)) @ queued ops"
    using 3(1) [OF n [symmetric] refl _ 3(3) e] ok by simp
  have r: "evs = (case r of Some f \<Rightarrow> [(now, f)] | None \<Rightarrow> []) @ es" "up' = up1" using 3(4) by (simp_all add: n e)
  show ?case using IH ok by (cases r) (auto simp: r)
qed simp

text \<open>After a payload frame, no chaff for the cooldown.\<close>

lemma up_run_cooldown:
  "up_ok up \<Longrightarrow> chacha_ok c \<Longrightarrow> sorted (op_times ops) \<Longrightarrow> \<forall>t\<in>set (op_times ops). l \<le> t \<Longrightarrow>
   last_payload_at (up_sched up) = Some l' \<Longrightarrow> l \<le> l' \<Longrightarrow>
   (t, f) \<in> set (fst (up_run c ops up)) \<Longrightarrow> chaff_ok f \<Longrightarrow> l + PAYLOAD_COOLDOWN \<le> t"
proof (induction c ops up arbitrary: l' rule: up_run.induct)
  case (2 c d ops up)
  from 2(1) [of l'] 2(2-) show ?case by (simp add: queue_local_ok) (simp add: queue_local_def)
next
  case (3 c now ops up)
  obtain r ws where n: "next_frame c now (strategy up) = (r, ws)" by fastforce
  obtain es up1 where e: "up_run c ops (up\<lparr>strategy := ws\<rparr>) = (es, up1)" by fastforce
  note ok = next_frame_ok [OF 3(2,3) n]
  have "\<exists>l''. last_payload_at (chaff_scheduler ws) = Some l'' \<and> l \<le> l''
      \<and> (r = Some f \<and> chaff_ok f \<longrightarrow> l + PAYLOAD_COOLDOWN \<le> now)"
  proof (cases "up_queue up")
    case (Cons g gs)
    then have "is_data g" using 3(2) by (simp add: up_ok_def)
    then show ?thesis using n 3(5) chaff_not_data by (auto simp: next_frame_payload [OF Cons] on_payload_sent_def)
  next
    case Nil
    obtain g sch where p: "poll_chaff c now (up_sched up) = (g, sch)" by fastforce
    have q: "\<forall>f\<in>set (chaff_queue (up_sched up)). chaff_ok f" using 3(2) by (simp add: up_ok_def)
    note pc = poll_chaff_cases [OF p 3(3) q]
    have "0 < PAYLOAD_COOLDOWN" by (simp add: PAYLOAD_COOLDOWN_def from_millis_def)
    moreover have "PAYLOAD_COOLDOWN \<le> now - l'" if "g = Some f" using pc(5) [OF that] 3(6) by simp
    ultimately have "l + PAYLOAD_COOLDOWN \<le> now" if "g = Some f" using that 3(7) by fastforce
    then show ?thesis using n 3(6,7) pc(2) by (auto simp: next_frame_idle [OF Nil] p)
  qed
  then obtain l'' where l'': "last_payload_at (up_sched (up\<lparr>strategy := ws\<rparr>)) = Some l''" "l \<le> l''"
    "r = Some f \<and> chaff_ok f \<longrightarrow> l + PAYLOAD_COOLDOWN \<le> now" by auto
  have "(t, f) = (now, f) \<and> r = Some f \<or> (t, f) \<in> set es" using 3(8) n e by (auto split: option.splits)
  then show ?case
  proof
    assume "(t, f) \<in> set es"
    then show ?thesis using 3(1) [OF n [symmetric] refl _ 3(3) _ _ l''(1,2) _ 3(9)] ok 3(4,5) e by simp
  qed (use l''(3) 3(9) in auto)
qed simp

lemma up_run_spaced:
  "up_ok up \<Longrightarrow> chacha_ok c \<Longrightarrow> sorted (op_times ops) \<Longrightarrow>
   sorted_wrt (\<lambda>(t, f) (t', f'). is_data f \<and> chaff_ok f' \<longrightarrow> t + PAYLOAD_COOLDOWN \<le> t') (fst (up_run c ops up))"
proof (induction c ops up rule: up_run.induct)
  case (2 c d ops up)
  then show ?case by (simp add: queue_local_ok)
next
  case (3 c now ops up)
  obtain r ws where n: "next_frame c now (strategy up) = (r, ws)" by fastforce
  obtain es up1 where e: "up_run c ops (up\<lparr>strategy := ws\<rparr>) = (es, up1)" by fastforce
  note ok = next_frame_ok [OF 3(2,3) n]
  have IH: "sorted_wrt (\<lambda>(t, f) (t', f'). is_data f \<and> chaff_ok f' \<longrightarrow> t + PAYLOAD_COOLDOWN \<le> t') es"
    using 3(1) [OF n [symmetric] refl _ 3(3)] ok 3(4) e by simp
  have "now + PAYLOAD_COOLDOWN \<le> t" if r: "r = Some g" "is_data g" and f: "(t, f) \<in> set es" "chaff_ok f" for g t f
  proof (cases "up_queue up")
    case (Cons h hs)
    then have "last_payload_at (up_sched (up\<lparr>strategy := ws\<rparr>)) = Some now"
      using n by (auto simp: next_frame_payload [OF Cons] on_payload_sent_def)
    then show ?thesis using up_run_cooldown [of "up\<lparr>strategy := ws\<rparr>" c ops now now t f] ok 3(3,4) f e by simp
  next
    case Nil
    obtain g' sch where p: "poll_chaff c now (up_sched up) = (g', sch)" by fastforce
    have q: "\<forall>f\<in>set (chaff_queue (up_sched up)). chaff_ok f" using 3(2) by (simp add: up_ok_def)
    have "chaff_ok g" using poll_chaff_cases(5) [OF p 3(3) q, of g] r n by (simp add: next_frame_idle [OF Nil] p)
    with r(2) chaff_not_data show ?thesis by blast
  qed
  then show ?case using IH by (auto simp: n e split: option.splits)
qed simp

section \<open>Payload comes first, cover traffic ends\<close>

lemma data_not_chaff: "is_data f \<Longrightarrow> \<not> is_chaff f"
  by (auto simp: is_chaff_def is_data_def frame_type_defs)

definition demo_chacha :: "unit chacha" where
  "demo_chacha = \<lparr>cc_rng = demo_rng, cc_gen_f64 = (\<lambda>s. (0, s))\<rparr>"

lemma scheduler_start: "connection_start (scheduler_new c s) = None"
  by (simp add: scheduler_new_def Let_def case_prod_beta)

lemma demo_chacha_ok: "chacha_ok demo_chacha"
  by (simp add: chacha_ok_def demo_chacha_def demo_rng_ok)

text \<open>(C15) The client sends payload first and in order.  However queueing and sending interleave: the DATA frames
  sent so far and those still queued are together exactly what was queued; whenever payload waits, the
  next frame is its head; every other frame is chaff of a bucket size; and chaff never follows a
  payload frame within the cooldown.\<close>

theorem payload_first_in_order:
  fixes c :: "'s chacha" and s :: 's and ops :: "up_op list" and now :: instant
  assumes "chacha_ok c" "sorted (op_times ops)"
  defines "evs \<equiv> fst (up_run c ops (up_new c s))" and "up' \<equiv> snd (up_run c ops (up_new c s))"
  shows "data_payloads (map snd evs) @ map payload (up_queue up') = queued ops
    \<and> (\<forall>(t, f)\<in>set evs. is_data f \<or> chaff_ok f)
    \<and> sorted_wrt (\<lambda>(t, f) (t', f'). is_data f \<and> is_chaff f' \<longrightarrow> t + PAYLOAD_COOLDOWN \<le> t') evs
    \<and> (up_queue up' \<noteq> [] \<longrightarrow> fst (next_frame c now (strategy up')) = Some (hd (up_queue up')) \<and> is_data (hd (up_queue up')))"
proof -
  have r: "up_run c ops (up_new c s) = (evs, up')" by (simp add: evs_def up'_def)
  note ok = up_run_ok [OF up_new_ok [OF assms(1)] assms(1) r]
  have "up_queue (up_new c s) = []" by (simp add: up_new_def strategy_new_def pq_new_def)
  moreover have "sorted_wrt (\<lambda>(t, f) (t', f'). is_data f \<and> is_chaff f' \<longrightarrow> t + PAYLOAD_COOLDOWN \<le> t') evs"
  proof (rule sorted_wrt_mono_rel [OF _ up_run_spaced [OF up_new_ok [OF assms(1), of s] assms(1,2), folded evs_def]])
    fix a b
    assume "a \<in> set evs" "b \<in> set evs"
      and "(case a of (t, f) \<Rightarrow> \<lambda>(t', f'). is_data f \<and> chaff_ok f' \<longrightarrow> t + PAYLOAD_COOLDOWN \<le> t') b"
    then show "(case a of (t, f) \<Rightarrow> \<lambda>(t', f'). is_data f \<and> is_chaff f' \<longrightarrow> t + PAYLOAD_COOLDOWN \<le> t') b"
      using ok data_not_chaff by fastforce
  qed
  moreover have "up_queue up' \<noteq> [] \<longrightarrow> fst (next_frame c now (strategy up')) = Some (hd (up_queue up')) \<and> is_data (hd (up_queue up'))"
    using ok by (cases "up_queue up'") (auto simp: next_frame_payload up_ok_def)
  ultimately show ?thesis using ok by auto
qed

theorem payload_first_in_order_witness:
  "data_payloads (map snd (fst (up_run demo_chacha [QueueLocal [1], NextWire 5, QueueLocal [2]] (up_new demo_chacha ())))) = [[1]]"
proof -
  let ?ops = "[QueueLocal [1], NextWire 5, QueueLocal [2]]"
  have "up_queue (snd (up_run demo_chacha ?ops (up_new demo_chacha ()))) = [frame_data [2]]"
    by (simp add: queue_local_def pq_push_def up_new_def strategy_new_def pq_new_def next_frame_def pq_pop_def)
  then show ?thesis
    using payload_first_in_order [OF demo_chacha_ok, of ?ops "()"] by simp
qed

lemma window_budget:
  "up_ok up \<Longrightarrow> chacha_ok c \<Longrightarrow> connection_start (up_sched up) = Some t0 \<Longrightarrow>
   \<forall>t\<in>set (op_times ops). t0 + FRONT_WINDOW \<le> t \<Longrightarrow>
   length (filter (is_chaff \<circ> snd) (fst (up_run c ops up))) \<le> MAX_CHAFF_QUEUE - queue_index (up_sched up)"
proof (induction c ops up rule: up_run.induct)
  case (2 c d ops up)
  from 2(1) 2(2-) show ?case by (simp add: queue_local_ok) (simp add: queue_local_def)
next
  case (3 c now ops up)
  obtain r ws where n: "next_frame c now (strategy up) = (r, ws)" by fastforce
  obtain es up1 where e: "up_run c ops (up\<lparr>strategy := ws\<rparr>) = (es, up1)" by fastforce
  note ok = next_frame_ok [OF 3(2,3) n]
  have step: "connection_start (chaff_scheduler ws) = Some t0
      \<and> (\<forall>f. r = Some f \<and> is_chaff f \<longrightarrow> queue_index (up_sched up) < MAX_CHAFF_QUEUE
            \<and> queue_index (chaff_scheduler ws) = Suc (queue_index (up_sched up)))
      \<and> queue_index (up_sched up) \<le> queue_index (chaff_scheduler ws)"
  proof (cases "up_queue up")
    case (Cons g gs)
    then have "is_data g" using 3(2) by (simp add: up_ok_def)
    then show ?thesis using n 3(4) data_not_chaff by (auto simp: next_frame_payload [OF Cons] on_payload_sent_def)
  next
    case Nil
    obtain g sch where p: "poll_chaff c now (up_sched up) = (g, sch)" by fastforce
    have q: "\<forall>f\<in>set (chaff_queue (up_sched up)). chaff_ok f" using 3(2) by (simp add: up_ok_def)
    note pc = poll_chaff_cases [OF p 3(3) q]
    have "FRONT_WINDOW \<le> now - t0" using 3(5) by (simp add: le_diff_conv2)
    then show ?thesis using n 3(2,4) pc(3,4) pc(5) [of _ t0] by (auto simp: next_frame_idle [OF Nil] p up_ok_def)
  qed
  have IH: "length (filter (is_chaff \<circ> snd) es) \<le> MAX_CHAFF_QUEUE - queue_index (chaff_scheduler ws)"
    using 3(1) [OF n [symmetric] refl _ 3(3)] ok step 3(5) e by (simp add: comp_def)
  show ?case using IH step by (cases r) (auto simp: n e comp_def)
qed simp

lemma poll_done:
  assumes "is_done sch t" "t \<le> now" "poll_chaff c now sch = (r, sch')"
  shows "r = None \<and> is_done sch' now"
proof (cases "connection_start sch")
  case None
  then show ?thesis
    using assms by (auto simp: is_done_def poll_chaff_def should_inject_chaff_def Let_def split: if_splits)
next
  case (Some t0)
  have "front_window_closed sch \<or> FRONT_WINDOW \<le> now - t0" "length (chaff_queue sch) \<le> queue_index sch"
    using assms(1,2) Some by (auto simp: is_done_def)
  then show ?thesis
    using assms(3) Some by (auto simp: is_done_def poll_chaff_def should_inject_chaff_def Let_def split: if_splits)
qed

lemma quiet_run:
  "waits_for_local up t \<Longrightarrow> sorted (op_times ops) \<Longrightarrow> \<forall>t'\<in>set (op_times ops). t \<le> t' \<Longrightarrow> queued ops = [] \<Longrightarrow>
   fst (up_run c ops up) = []"
proof (induction c ops up arbitrary: t rule: up_run.induct)
  case (3 c now ops up)
  have q: "up_queue up = []" and d: "is_done (up_sched up) t"
    using 3(2) by (simp_all add: waits_for_local_def waits_for_payload_def pq_has_pending_def)
  obtain g sch where p: "poll_chaff c now (up_sched up) = (g, sch)" by fastforce
  from poll_done [OF d _ p] 3(4) have g: "g = None" "is_done sch now" by simp_all
  let ?ws = "\<lparr>payload_queue = payload_queue (strategy up), chaff_scheduler = sch\<rparr>"
  have n: "next_frame c now (strategy up) = (None, ?ws)" using g by (simp add: next_frame_idle [OF q] p)
  have "waits_for_local (up\<lparr>strategy := ?ws\<rparr>) now"
    using q g by (simp add: waits_for_local_def waits_for_payload_def pq_has_pending_def)
  with 3(1) [OF n [symmetric] refl] 3(3-5) show ?case by (simp add: n case_prod_beta)
qed simp_all

text \<open>(C34) Cover traffic ends.  Once the front window of three seconds is over, at most the 64 prepared chaff
  frames can still follow, whatever is queued and however often the driver asks; and when the session
  reports that it only waits for local bytes, it produces nothing at any later time until such bytes
  arrive, so a driver may wait without a timer.\<close>

theorem cover_traffic_ends:
  assumes "up_ok up" "chacha_ok c"
  shows "(connection_start (up_sched up) = Some t0 \<and> (\<forall>t\<in>set (op_times ops). t0 + FRONT_WINDOW \<le> t) \<longrightarrow>
       length (filter (is_chaff \<circ> snd) (fst (up_run c ops up))) \<le> 64)
    \<and> (waits_for_local up t \<and> sorted (op_times ops) \<and> (\<forall>t'\<in>set (op_times ops). t \<le> t') \<and> queued ops = [] \<longrightarrow>
       fst (up_run c ops up) = [])"
  using window_budget [OF assms, of t0 ops] quiet_run [of up t ops c] by (auto simp: MAX_CHAFF_QUEUE_def)

theorem cover_traffic_ends_witness:
  "length (filter (is_chaff \<circ> snd) (fst (up_run demo_chacha [NextWire (from_secs 4), NextWire (from_secs 5)]
     (snd (up_run demo_chacha [NextWire 0] (up_new demo_chacha ())))))) \<le> 64"
proof -
  let ?up = "snd (up_run demo_chacha [NextWire 0] (up_new demo_chacha ()))"
  have u: "up_ok ?up"
    using up_run_ok [OF up_new_ok [OF demo_chacha_ok] demo_chacha_ok, of "[NextWire 0]" "()"] by (metis prod.collapse)
  obtain g sch where p: "poll_chaff demo_chacha 0 (scheduler_new demo_chacha ()) = (g, sch)" by fastforce
  have q: "\<forall>f\<in>set (chaff_queue (scheduler_new demo_chacha ())). chaff_ok f"
    using up_new_ok [OF demo_chacha_ok, of "()"] by (simp add: up_ok_def up_new_def strategy_new_def)
  have "connection_start (up_sched ?up) = Some 0"
    using poll_chaff_cases(3) [OF p demo_chacha_ok q]
    by (auto simp: up_new_def strategy_new_def pq_new_def next_frame_def pq_pop_def p scheduler_start Let_def case_prod_beta)
  then show ?thesis
    using cover_traffic_ends [OF u demo_chacha_ok, of 0 "[NextWire (from_secs 4), NextWire (from_secs 5)]"]
    by (simp add: FRONT_WINDOW_def from_secs_def)
qed

section \<open>The down half\<close>

text \<open>Popping one payload, against the reference that drains a buffer into frames.\<close>

lemma next_payload_drain:
  assumes "drain_frames (down_codec d) (down_buf d) = (fs, e, r)"
  shows "case data_payloads fs of
      [] \<Rightarrow> next_payload d = ((case e of Some er \<Rightarrow> Inl er | None \<Rightarrow> Inr None), d\<lparr>down_buf := r\<rparr>)
    | p # ps \<Rightarrow> (\<exists>b fs'. next_payload d = (Inr (Some p), d\<lparr>down_buf := b\<rparr>) \<and> length b < length (down_buf d)
        \<and> drain_frames (down_codec d) b = (fs', e, r) \<and> data_payloads fs' = ps)"
  using assms
proof (induction d arbitrary: fs rule: next_payload.induct)
  case (1 d)
  obtain x b' where x: "decode (down_codec d) (down_buf d) = (x, b')" by fastforce
  show ?case
  proof (cases "\<exists>f. x = Inr (Some f)")
    case False
    then show ?thesis using 1(2) x
      by (auto simp: next_payload.simps [of d] drain_frames.simps [of "down_codec d" "down_buf d"]
          split: sum.splits option.splits)
  next
    case True
    then obtain f where f: "decode (down_codec d) (down_buf d) = (Inr (Some f), b')" using x by blast
    obtain gs where gs: "drain_frames (down_codec d) b' = (gs, e, r)" "fs = f # gs"
      using 1(2) by (auto simp: drain_frames.simps [of "down_codec d" "down_buf d"] f split: prod.splits)
    show ?thesis
    proof (cases "is_data f")
      case True
      then show ?thesis using gs decode_shrinks [OF f]
        by (auto simp: next_payload.simps [of d] f is_data_def)
    next
      case False
      then have nd: "frame_type f \<noteq> FRAME_TYPE_DATA" by (simp add: is_data_def)
      have "next_payload d = next_payload (d\<lparr>down_buf := b'\<rparr>)" using nd by (simp add: next_payload.simps [of d] f)
      then show ?thesis using 1(1) [OF f [symmetric] refl refl nd, of gs] gs False decode_shrinks [OF f]
        by (fastforce split: list.splits)
    qed
  qed
qed

end
