(* ===== verification/Auth.thy ===== *)
theory Auth
  imports Framing
begin

text \<open>Tickets and the first-generation AUTH record of the protocol crate
  (\<^verbatim>\<open>ticket.rs\<close> and \<^verbatim>\<open>auth.rs\<close> under \<^verbatim>\<open>src/crates/construct-veil-protocol/src\<close>).

  A fixed-size array is a byte list whose length the predicate \<^verbatim>\<open>ticket_wf\<close> states.  HMAC-SHA256 and
  Ed25519 come from third-party crates, so they are functions of a \<^verbatim>\<open>crypto\<close> record that every
  definition using them takes as an argument; \<^verbatim>\<open>hmac_ok\<close> and \<^verbatim>\<open>ed25519_ok\<close> state the documented
  behaviour the protocol relies on.  Constant-time comparison is equality of the compared bytes.\<close>

section \<open>The cryptographic primitives\<close>

record crypto =
  hmac_sha256 :: "bytes \<Rightarrow> bytes \<Rightarrow> bytes"
  verifying_key :: "bytes \<Rightarrow> bytes"
  sk_sign :: "bytes \<Rightarrow> bytes \<Rightarrow> bytes"
  vk_from_bytes_ok :: "bytes \<Rightarrow> bool"
  verify_strict :: "bytes \<Rightarrow> bytes \<Rightarrow> bytes \<Rightarrow> bool"

text \<open>HMAC-SHA256 returns 32 bytes.\<close>

definition hmac_ok :: "crypto \<Rightarrow> bool" where
  "hmac_ok cr \<longleftrightarrow> (\<forall>k m. length (hmac_sha256 cr k m) = 32)"

text \<open>The public key of a seed is a valid 32-byte key, and what the seed signs, 64 bytes, verifies
  under it.\<close>

definition ed25519_ok :: "crypto \<Rightarrow> bool" where
  "ed25519_ok cr \<longleftrightarrow> (\<forall>seed m. length (verifying_key cr seed) = 32
     \<and> vk_from_bytes_ok cr (verifying_key cr seed)
     \<and> length (sk_sign cr seed m) = 64
     \<and> verify_strict cr (verifying_key cr seed) m (sk_sign cr seed m))"

section \<open>Tickets\<close>

definition TICKET_ID_LEN :: nat where "TICKET_ID_LEN = 16"
definition AUTH_KEY_LEN :: nat where "AUTH_KEY_LEN = 32"
definition TICKET_WIRE_LEN :: nat where "TICKET_WIRE_LEN = 65"
definition AUTHCODE_LEN :: nat where "AUTHCODE_LEN = 32"
definition AUTH_PAYLOAD_LEN :: nat where "AUTH_PAYLOAD_LEN = TICKET_ID_LEN + AUTHCODE_LEN"

lemmas auth_len_defs = TICKET_ID_LEN_def AUTH_KEY_LEN_def TICKET_WIRE_LEN_def AUTHCODE_LEN_def
  AUTH_PAYLOAD_LEN_def

record Ticket =
  ticket_id :: bytes
  auth_key :: bytes
  not_before :: u64
  not_after :: u64
  suite_id :: byte

definition ticket_wf :: "Ticket \<Rightarrow> bool" where
  "ticket_wf t \<longleftrightarrow> length (ticket_id t) = TICKET_ID_LEN \<and> length (auth_key t) = AUTH_KEY_LEN"

definition is_valid_at :: "Ticket \<Rightarrow> u64 \<Rightarrow> bool" where
  "is_valid_at t now_secs \<longleftrightarrow> not_before t \<le> now_secs \<and> now_secs \<le> not_after t"

text \<open>The clock read is an argument: \<^verbatim>\<open>None\<close> is a clock set before the Unix epoch.\<close>

definition is_valid_now :: "Ticket \<Rightarrow> u64 option \<Rightarrow> bool" where
  "is_valid_now t now = (case now of Some secs \<Rightarrow> is_valid_at t secs | None \<Rightarrow> False)"

definition ticket_to_bytes :: "Ticket \<Rightarrow> bytes" where
  "ticket_to_bytes t = ticket_id t @ auth_key t @ u64_to_le_bytes (not_before t)
     @ u64_to_le_bytes (not_after t) @ [suite_id t]"

definition slice :: "bytes \<Rightarrow> nat \<Rightarrow> nat \<Rightarrow> bytes" where
  "slice xs a b = take (b - a) (drop a xs)"

definition ticket_from_bytes :: "bytes \<Rightarrow> Ticket option" where
  "ticket_from_bytes dat =
     (if length dat \<noteq> TICKET_WIRE_LEN then None
      else Some \<lparr>ticket_id = slice dat 0 16,
                 auth_key = slice dat 16 48,
                 not_before = u64_from_le_bytes (slice dat 48 56),
                 not_after = u64_from_le_bytes (slice dat 56 64),
                 suite_id = dat ! 64\<rparr>)"

section \<open>The AUTH record\<close>

record AuthRecord =
  rec_ticket_id :: bytes
  rec_authcode :: bytes

definition from_ticket :: "crypto \<Rightarrow> Ticket \<Rightarrow> bytes \<Rightarrow> AuthRecord" where
  "from_ticket cr t exporter =
     \<lparr>rec_ticket_id = ticket_id t,
      rec_authcode = hmac_sha256 cr (auth_key t)
        (exporter @ ticket_id t @ u64_to_le_bytes (not_after t))\<rparr>"

definition ct_eq :: "bytes \<Rightarrow> bytes \<Rightarrow> bool" where
  "ct_eq a b \<longleftrightarrow> a = b"

definition auth_record_verify :: "crypto \<Rightarrow> AuthRecord \<Rightarrow> Ticket \<Rightarrow> bytes \<Rightarrow> bool" where
  "auth_record_verify cr r t exporter =
     (if rec_ticket_id r \<noteq> ticket_id t then False
      else let expected = from_ticket cr t exporter
           in ct_eq (rec_authcode r) (rec_authcode expected))"

definition auth_record_encode :: "AuthRecord \<Rightarrow> bytes" where
  "auth_record_encode r =
     (let buf = [FRAME_TYPE_AUTH];
          buf = fst (encode_varint (of_nat AUTH_PAYLOAD_LEN) buf);
          buf = buf @ rec_ticket_id r
      in buf @ rec_authcode r)"

text \<open>The cursor is returned with the result, also on the early returns, where it has already moved.\<close>

definition auth_record_decode :: "bytes \<Rightarrow> (AuthRecord option \<times> bytes) exec" where
  "auth_record_decode dat =
     (if dat = [] then Done (None, dat)
      else exec_bind (get_u8 dat) (\<lambda>(frame_type, dat).
        if frame_type \<noteq> FRAME_TYPE_AUTH then Done (None, dat)
        else case decode_varint dat of
          (None, dat) \<Rightarrow> Done (None, dat)
        | (Some (payload_len, _), dat) \<Rightarrow>
            if payload_len \<noteq> of_nat AUTH_PAYLOAD_LEN then Done (None, dat)
            else if length dat < AUTH_PAYLOAD_LEN then Done (None, dat)
            else exec_bind (copy_to_slice TICKET_ID_LEN dat) (\<lambda>(tid, dat).
                 exec_bind (copy_to_slice AUTHCODE_LEN dat) (\<lambda>(code, dat).
                 Done (Some \<lparr>rec_ticket_id = tid, rec_authcode = code\<rparr>, dat)))))"

definition auth_record_decode_slice :: "bytes \<Rightarrow> AuthRecord option exec" where
  "auth_record_decode_slice dat = exec_bind (auth_record_decode dat) (\<lambda>(r, _). Done r)"

definition constant_time_verify :: "bytes \<Rightarrow> bytes \<Rightarrow> bool" where
  "constant_time_verify actual expected = ct_eq actual expected"

definition auth_record_wf :: "AuthRecord \<Rightarrow> bool" where
  "auth_record_wf r \<longleftrightarrow> length (rec_ticket_id r) = TICKET_ID_LEN \<and> length (rec_authcode r) = AUTHCODE_LEN"

section \<open>Facts\<close>

lemma slice_append_simps [simp]:
  "slice (xs @ ys) 0 n = take n (xs @ ys)"
  "length xs \<le> a \<Longrightarrow> slice (xs @ ys) a b = slice ys (a - length xs) (b - length xs)"
  by (auto simp: slice_def)

lemma length_slice: "b \<le> length xs \<Longrightarrow> a \<le> b \<Longrightarrow> length (slice xs a b) = b - a"
  by (simp add: slice_def)

lemma slice_glue:
  assumes "a \<le> b" "b \<le> c"
  shows "slice xs a b @ slice xs b c = slice xs a c"
proof -
  have c: "c - a = (b - a) + (c - b)" and b: "(b - a) + a = b" using assms by simp_all
  show ?thesis unfolding slice_def c take_add drop_drop b ..
qed

lemma ticket_bytes_roundtrip:
  "ticket_wf t \<Longrightarrow> ticket_from_bytes (ticket_to_bytes t) = Some t"
  by (cases t) (simp add: ticket_from_bytes_def ticket_to_bytes_def ticket_wf_def auth_len_defs
      slice_def nth_append)

lemma ticket_bytes_canonical:
  assumes "ticket_from_bytes dat = Some t"
  shows "ticket_wf t" "ticket_to_bytes t = dat"
proof -
  from assms have len: "length dat = 65" and t: "t = \<lparr>ticket_id = slice dat 0 16,
    auth_key = slice dat 16 48, not_before = u64_from_le_bytes (slice dat 48 56),
    not_after = u64_from_le_bytes (slice dat 56 64), suite_id = dat ! 64\<rparr>"
    by (auto simp: ticket_from_bytes_def auth_len_defs split: if_splits)
  have last: "[dat ! 64] = slice dat 64 65"
    using len by (simp add: slice_def take_Suc_conv_app_nth Cons_nth_drop_Suc [symmetric])
  have "ticket_to_bytes t = slice dat 0 16 @ slice dat 16 48 @ slice dat 48 56 @ slice dat 56 64
      @ slice dat 64 65"
    using len by (simp add: ticket_to_bytes_def t last u64_le_roundtrip_inv length_slice)
  also have "\<dots> = slice dat 0 65" by (simp add: slice_glue)
  finally show "ticket_to_bytes t = dat" using len by (simp add: slice_def)
  show "ticket_wf t" using len by (simp add: t ticket_wf_def auth_len_defs length_slice)
qed

lemma auth_record_decode_encode:
  assumes "auth_record_wf r"
  shows "auth_record_decode (auth_record_encode r @ rest) = Done (Some r, rest)"
proof -
  have enc: "auth_record_encode r @ rest =
    FRAME_TYPE_AUTH # encode_varint_vec (of_nat AUTH_PAYLOAD_LEN) @ rec_ticket_id r @ rec_authcode r @ rest"
    by (simp add: auth_record_encode_def encode_varint_append)
  have dec: "decode_varint (encode_varint_vec v @ ys) = (Some (v, length (encode_varint_vec v)), ys)"
    for v ys by (simp add: decode_varint_def)
  show ?thesis
    unfolding auth_record_decode_def enc
    using assms by (cases r) (simp add: exec_simps dec auth_record_wf_def auth_len_defs)
qed

lemma from_ticket_wf: "hmac_ok cr \<Longrightarrow> ticket_wf t \<Longrightarrow> auth_record_wf (from_ticket cr t exporter)"
  by (simp add: auth_record_wf_def from_ticket_def hmac_ok_def ticket_wf_def auth_len_defs)

lemma auth_record_verify_iff:
  "auth_record_verify cr r t exporter \<longleftrightarrow> r = from_ticket cr t exporter"
  by (cases r) (auto simp: auth_record_verify_def from_ticket_def ct_eq_def Let_def)

section \<open>Properties\<close>

text \<open>A concrete instance of the primitives, for the examples: a tag is the key cut to 32 bytes, a
  public key is the seed cut to 32 bytes, and a signature is the public key followed by zeros.\<close>

definition demo_crypto :: crypto where
  "demo_crypto = \<lparr>hmac_sha256 = (\<lambda>k m. take 32 (k @ replicate 32 0)),
     verifying_key = (\<lambda>seed. take 32 (seed @ replicate 32 0)),
     sk_sign = (\<lambda>seed m. take 32 (seed @ replicate 32 0) @ replicate 32 0),
     vk_from_bytes_ok = (\<lambda>pk. length pk = 32),
     verify_strict = (\<lambda>pk m s. s = pk @ replicate 32 0)\<rparr>"

lemma demo_crypto_ok: "hmac_ok demo_crypto" "ed25519_ok demo_crypto"
  by (auto simp: demo_crypto_def hmac_ok_def ed25519_ok_def min_def)

definition demo_ticket :: Ticket where
  "demo_ticket = \<lparr>ticket_id = replicate 16 1, auth_key = replicate 32 2, not_before = 10,
     not_after = 20, suite_id = 1\<rparr>"

text \<open>Tickets and AUTH records survive serialisation: a 65-byte blob parses to a well-formed
  ticket that serialises back to the same blob, every well-formed ticket is read back unchanged, and
  the record a client builds from a ticket is read back unchanged, with the rest of the buffer
  untouched, and verifies against that ticket and no other exporter-ticket pair with another tag.\<close>

theorem ticket_and_record_roundtrip:
  assumes "hmac_ok cr" "ticket_wf t"
  shows "ticket_from_bytes (ticket_to_bytes t) = Some t
    \<and> (\<forall>dat u. ticket_from_bytes dat = Some u \<longrightarrow> ticket_wf u \<and> ticket_to_bytes u = dat)
    \<and> auth_record_decode (auth_record_encode (from_ticket cr t e) @ rest) = Done (Some (from_ticket cr t e), rest)
    \<and> (auth_record_verify cr (from_ticket cr t e) u e' \<longleftrightarrow> from_ticket cr t e = from_ticket cr u e')"
  using ticket_bytes_roundtrip [OF assms(2)] ticket_bytes_canonical
    auth_record_decode_encode [OF from_ticket_wf [OF assms]] auth_record_verify_iff by blast

theorem ticket_and_record_roundtrip_witness:
  "auth_record_decode (auth_record_encode (from_ticket demo_crypto demo_ticket [5]) @ [9]) =
     Done (Some (from_ticket demo_crypto demo_ticket [5]), [9])"
  using ticket_and_record_roundtrip [OF demo_crypto_ok(1), of demo_ticket "[5]" "[9]"]
  by (simp add: ticket_wf_def demo_ticket_def auth_len_defs)

text \<open>What \<^verbatim>\<open>AuthRecord::encode\<close> produces is not a frame of the current wire version: it starts
  with the frame type and has neither the version byte nor the padding length, and the frame decoder
  refuses every such record, whatever follows it.\<close>

theorem auth_record_encode_is_not_a_frame:
  "decode codec (auth_record_encode r @ rest) =
     (Inl (UnknownVersion FRAME_TYPE_AUTH), auth_record_encode r @ rest)"
  by (simp add: auth_record_encode_def encode_varint_append decode_def decode_on_def
      FRAME_TYPE_AUTH_def WIRE_VER_def)

end
