(* ===== verification/Capability.thy ===== *)
theory Capability
  imports Auth
begin

text \<open>Signed capabilities and the AUTH v2 and v3 records
  (\<^verbatim>\<open>src/crates/construct-veil-protocol/src/capability.rs\<close>).  \<^verbatim>\<open>Capability\<close> carries a bearer
  key, \<^verbatim>\<open>CapabilityV2\<close> binds a public key and a role.  A scope is the UTF-8 bytes of the Rust
  string.  \<^verbatim>\<open>encode\<close> may panic (an over-long scope) and is of the outcome type; so are the decoders,
  whose reads would panic on a short buffer, and it is a lemma that they never do.

  What both blob formats promise, and what follows for the AUTH payload that appends a fixed-length
  trailer, is proved once in the locales \<^verbatim>\<open>blob_codec\<close> and \<^verbatim>\<open>auth_payload\<close> and interpreted on the
  definitions of both generations.\<close>

section \<open>Constants and scopes\<close>

definition VEIL_PK_LEN :: nat where "VEIL_PK_LEN = 32"
definition CLIENT_SIG_LEN :: nat where "CLIENT_SIG_LEN = 64"
definition ROLE_USER :: byte where "ROLE_USER = 0"
definition ROLE_RELAY :: byte where "ROLE_RELAY = 1"
definition CAP_V2_DOMAIN :: bytes where "CAP_V2_DOMAIN = ascii ''veil-cap-v2''"
definition AUTH_V3_SIG_DOMAIN :: bytes where "AUTH_V3_SIG_DOMAIN = ascii ''veil-auth-v1''"
definition CAP_V2_FIXED_LEN :: nat where
  "CAP_V2_FIXED_LEN = TICKET_ID_LEN + VEIL_PK_LEN + 1 + 8 + 8 + 1 + 1"
definition CAP_SIG_LEN :: nat where "CAP_SIG_LEN = 64"
definition CAP_DOMAIN :: bytes where "CAP_DOMAIN = ascii ''veil-cap-v1''"
definition MAX_SCOPE_LEN :: nat where "MAX_SCOPE_LEN = 255"
definition CAP_FIXED_LEN :: nat where
  "CAP_FIXED_LEN = TICKET_ID_LEN + AUTH_KEY_LEN + 8 + 8 + 1 + 1"

lemmas cap_len_defs = auth_len_defs VEIL_PK_LEN_def CLIENT_SIG_LEN_def CAP_V2_FIXED_LEN_def
  CAP_SIG_LEN_def MAX_SCOPE_LEN_def CAP_FIXED_LEN_def

datatype CapabilityError = ScopeTooLong nat

definition scope_matches :: "bytes \<Rightarrow> bytes \<Rightarrow> bool" where
  "scope_matches capability_scope relay_scope \<longleftrightarrow>
     capability_scope = [] \<or> relay_scope = [] \<or> capability_scope = relay_scope"

definition check_scope_len :: "bytes \<Rightarrow> CapabilityError + unit" where
  "check_scope_len scope =
     (if MAX_SCOPE_LEN < length scope then Inl (ScopeTooLong (length scope)) else Inr ())"

definition assert_encodable_scope :: "bytes \<Rightarrow> unit exec" where
  "assert_encodable_scope scope = (if length scope \<le> MAX_SCOPE_LEN then Done () else Panic)"

definition issuer_public_key :: "crypto \<Rightarrow> bytes \<Rightarrow> bytes" where
  "issuer_public_key cr seed = verifying_key cr seed"

section \<open>The bearer capability\<close>

record Capability =
  ticket :: Ticket
  scope :: bytes
  sig :: bytes

definition cap_signing_message :: "Ticket \<Rightarrow> bytes \<Rightarrow> bytes" where
  "cap_signing_message t sc =
     CAP_DOMAIN @ ticket_id t @ auth_key t @ u64_to_le_bytes (not_before t)
       @ u64_to_le_bytes (not_after t) @ [suite_id t] @ sc"

definition cap_sign :: "crypto \<Rightarrow> Ticket \<Rightarrow> bytes \<Rightarrow> bytes \<Rightarrow> CapabilityError + Capability" where
  "cap_sign cr t sc issuer_seed =
     (case check_scope_len sc of
        Inl e \<Rightarrow> Inl e
      | Inr _ \<Rightarrow> Inr \<lparr>ticket = t, scope = sc,
                    sig = sk_sign cr issuer_seed (cap_signing_message t sc)\<rparr>)"

definition cap_verify_signature :: "crypto \<Rightarrow> Capability \<Rightarrow> bytes \<Rightarrow> bool" where
  "cap_verify_signature cr c issuer_pubkey =
     (if vk_from_bytes_ok cr issuer_pubkey
      then verify_strict cr issuer_pubkey (cap_signing_message (ticket c) (scope c)) (sig c)
      else False)"

definition cap_is_valid_at :: "Capability \<Rightarrow> u64 \<Rightarrow> bool" where
  "cap_is_valid_at c now_secs = is_valid_at (ticket c) now_secs"

definition cap_encode :: "Capability \<Rightarrow> bytes exec" where
  "cap_encode c =
     exec_bind (assert_encodable_scope (scope c)) (\<lambda>_.
       Done (ticket_id (ticket c) @ auth_key (ticket c) @ u64_to_le_bytes (not_before (ticket c))
         @ u64_to_le_bytes (not_after (ticket c)) @ [suite_id (ticket c)]
         @ [of_nat (length (scope c))] @ scope c @ sig c))"

definition cap_decode :: "bytes \<Rightarrow> (Capability option \<times> bytes) exec" where
  "cap_decode dat =
     (if length dat < CAP_FIXED_LEN then Done (None, dat)
      else exec_bind (copy_to_slice TICKET_ID_LEN dat) (\<lambda>(tid, dat).
        exec_bind (copy_to_slice AUTH_KEY_LEN dat) (\<lambda>(key, dat).
        exec_bind (get_u64_le dat) (\<lambda>(nb, dat).
        exec_bind (get_u64_le dat) (\<lambda>(na, dat).
        exec_bind (get_u8 dat) (\<lambda>(suite, dat).
        exec_bind (get_u8 dat) (\<lambda>(len, dat).
        let scope_len = unat len in
        if length dat < scope_len + CAP_SIG_LEN then Done (None, dat)
        else exec_bind (copy_to_slice scope_len dat) (\<lambda>(scope_bytes, dat).
          if \<not> utf8_valid scope_bytes then Done (None, dat)
          else exec_bind (copy_to_slice CAP_SIG_LEN dat) (\<lambda>(sg, dat).
            Done (Some \<lparr>ticket = \<lparr>ticket_id = tid, auth_key = key, not_before = nb,
                          not_after = na, suite_id = suite\<rparr>,
                        scope = scope_bytes, sig = sg\<rparr>, dat))))))))))"

definition cap_decode_slice :: "bytes \<Rightarrow> Capability option exec" where
  "cap_decode_slice dat = exec_bind (cap_decode dat) (\<lambda>(c, _). Done c)"

section \<open>AUTH v2\<close>

record AuthRecordV2 =
  capability :: Capability
  authcode :: bytes

definition v2_from_capability :: "crypto \<Rightarrow> Capability \<Rightarrow> bytes \<Rightarrow> AuthRecordV2" where
  "v2_from_capability cr c exporter =
     \<lparr>capability = c, authcode = rec_authcode (from_ticket cr (ticket c) exporter)\<rparr>"

definition v2_verify :: "crypto \<Rightarrow> AuthRecordV2 \<Rightarrow> bytes \<Rightarrow> bytes \<Rightarrow> bytes \<Rightarrow> u64 \<Rightarrow> bool" where
  "v2_verify cr r issuer_pubkey relay_scope exporter now_secs =
     (let cap = capability r in
      if \<not> cap_is_valid_at cap now_secs \<or> suite_id (ticket cap) \<noteq> SUITE_CLASSIC_V1
         \<or> \<not> scope_matches (scope cap) relay_scope
      then False
      else if \<not> cap_verify_signature cr cap issuer_pubkey then False
      else let expected = rec_authcode (from_ticket cr (ticket (capability r)) exporter)
           in ct_eq expected (authcode r))"

definition v2_encode_payload :: "AuthRecordV2 \<Rightarrow> bytes exec" where
  "v2_encode_payload r = exec_bind (cap_encode (capability r)) (\<lambda>cap. Done (cap @ authcode r))"

definition v2_decode_payload :: "bytes \<Rightarrow> AuthRecordV2 option exec" where
  "v2_decode_payload p =
     exec_bind (cap_decode p) (\<lambda>(c, buf).
       case c of
         None \<Rightarrow> Done None
       | Some cap \<Rightarrow>
           if length buf \<noteq> AUTHCODE_LEN then Done None
           else exec_bind (copy_to_slice AUTHCODE_LEN buf) (\<lambda>(code, _).
             Done (Some \<lparr>capability = cap, authcode = code\<rparr>)))"

section \<open>The key-bound capability\<close>

record CapabilityV2 =
  v2_ticket_id :: bytes
  veil_pk :: bytes
  role :: byte
  v2_not_before :: u64
  v2_not_after :: u64
  v2_suite_id :: byte
  v2_scope :: bytes
  v2_sig :: bytes

definition cap2_signing_message ::
  "bytes \<Rightarrow> bytes \<Rightarrow> byte \<Rightarrow> u64 \<Rightarrow> u64 \<Rightarrow> byte \<Rightarrow> bytes \<Rightarrow> bytes" where
  "cap2_signing_message tid pk rl nb na suite sc =
     CAP_V2_DOMAIN @ tid @ pk @ [rl] @ u64_to_le_bytes nb @ u64_to_le_bytes na @ [suite] @ sc"

definition cap2_sign ::
  "crypto \<Rightarrow> bytes \<Rightarrow> bytes \<Rightarrow> byte \<Rightarrow> u64 \<Rightarrow> u64 \<Rightarrow> byte \<Rightarrow> bytes \<Rightarrow> bytes \<Rightarrow>
     CapabilityError + CapabilityV2" where
  "cap2_sign cr tid pk rl nb na suite sc issuer_seed =
     (case check_scope_len sc of
        Inl e \<Rightarrow> Inl e
      | Inr _ \<Rightarrow>
          let msg = cap2_signing_message tid pk rl nb na suite sc
          in Inr \<lparr>v2_ticket_id = tid, veil_pk = pk, role = rl, v2_not_before = nb,
                  v2_not_after = na, v2_suite_id = suite, v2_scope = sc,
                  v2_sig = sk_sign cr issuer_seed msg\<rparr>)"

definition cap2_verify_signature :: "crypto \<Rightarrow> CapabilityV2 \<Rightarrow> bytes \<Rightarrow> bool" where
  "cap2_verify_signature cr c issuer_pubkey =
     (if vk_from_bytes_ok cr issuer_pubkey
      then verify_strict cr issuer_pubkey
        (cap2_signing_message (v2_ticket_id c) (veil_pk c) (role c) (v2_not_before c)
           (v2_not_after c) (v2_suite_id c) (v2_scope c)) (v2_sig c)
      else False)"

definition cap2_is_valid_at :: "CapabilityV2 \<Rightarrow> u64 \<Rightarrow> bool" where
  "cap2_is_valid_at c now_secs \<longleftrightarrow> v2_not_before c \<le> now_secs \<and> now_secs \<le> v2_not_after c"

definition cap2_encode :: "CapabilityV2 \<Rightarrow> bytes exec" where
  "cap2_encode c =
     exec_bind (assert_encodable_scope (v2_scope c)) (\<lambda>_.
       Done (v2_ticket_id c @ veil_pk c @ [role c] @ u64_to_le_bytes (v2_not_before c)
         @ u64_to_le_bytes (v2_not_after c) @ [v2_suite_id c]
         @ [of_nat (length (v2_scope c))] @ v2_scope c @ v2_sig c))"

definition cap2_decode :: "bytes \<Rightarrow> (CapabilityV2 option \<times> bytes) exec" where
  "cap2_decode dat =
     (if length dat < CAP_V2_FIXED_LEN then Done (None, dat)
      else exec_bind (copy_to_slice TICKET_ID_LEN dat) (\<lambda>(tid, dat).
        exec_bind (copy_to_slice VEIL_PK_LEN dat) (\<lambda>(pk, dat).
        exec_bind (get_u8 dat) (\<lambda>(rl, dat).
        exec_bind (get_u64_le dat) (\<lambda>(nb, dat).
        exec_bind (get_u64_le dat) (\<lambda>(na, dat).
        exec_bind (get_u8 dat) (\<lambda>(suite, dat).
        exec_bind (get_u8 dat) (\<lambda>(len, dat).
        let scope_len = unat len in
        if length dat < scope_len + CAP_SIG_LEN then Done (None, dat)
        else exec_bind (copy_to_slice scope_len dat) (\<lambda>(scope_bytes, dat).
          if \<not> utf8_valid scope_bytes then Done (None, dat)
          else exec_bind (copy_to_slice CAP_SIG_LEN dat) (\<lambda>(sg, dat).
            Done (Some \<lparr>v2_ticket_id = tid, veil_pk = pk, role = rl, v2_not_before = nb,
                        v2_not_after = na, v2_suite_id = suite, v2_scope = scope_bytes,
                        v2_sig = sg\<rparr>, dat)))))))))))"

definition cap2_decode_slice :: "bytes \<Rightarrow> CapabilityV2 option exec" where
  "cap2_decode_slice dat = exec_bind (cap2_decode dat) (\<lambda>(c, _). Done c)"

section \<open>AUTH v3\<close>

record AuthRecordV3 =
  v3_capability :: CapabilityV2
  client_sig :: bytes

definition v3_signing_message :: "CapabilityV2 \<Rightarrow> bytes \<Rightarrow> bytes" where
  "v3_signing_message c exporter =
     AUTH_V3_SIG_DOMAIN @ exporter @ v2_ticket_id c @ u64_to_le_bytes (v2_not_after c)"

definition v3_from_capability :: "crypto \<Rightarrow> CapabilityV2 \<Rightarrow> bytes \<Rightarrow> bytes \<Rightarrow> AuthRecordV3" where
  "v3_from_capability cr c veil_sk exporter =
     \<lparr>v3_capability = c, client_sig = sk_sign cr veil_sk (v3_signing_message c exporter)\<rparr>"

definition v3_verify ::
  "crypto \<Rightarrow> AuthRecordV3 \<Rightarrow> bytes \<Rightarrow> bytes \<Rightarrow> byte \<Rightarrow> bytes \<Rightarrow> u64 \<Rightarrow> bool" where
  "v3_verify cr r issuer_pubkey relay_scope expected_role exporter now_secs =
     (let cap = v3_capability r in
      if role cap \<noteq> expected_role \<or> \<not> cap2_is_valid_at cap now_secs
         \<or> v2_suite_id cap \<noteq> SUITE_CLASSIC_V1 \<or> \<not> scope_matches (v2_scope cap) relay_scope
      then False
      else if \<not> cap2_verify_signature cr cap issuer_pubkey then False
      else if vk_from_bytes_ok cr (veil_pk (v3_capability r))
           then verify_strict cr (veil_pk (v3_capability r))
             (v3_signing_message (v3_capability r) exporter) (client_sig r)
           else False)"

definition v3_encode_payload :: "AuthRecordV3 \<Rightarrow> bytes exec" where
  "v3_encode_payload r = exec_bind (cap2_encode (v3_capability r)) (\<lambda>cap. Done (cap @ client_sig r))"

definition v3_decode_payload :: "bytes \<Rightarrow> AuthRecordV3 option exec" where
  "v3_decode_payload p =
     exec_bind (cap2_decode p) (\<lambda>(c, buf).
       case c of
         None \<Rightarrow> Done None
       | Some cap \<Rightarrow>
           if length buf \<noteq> CLIENT_SIG_LEN then Done None
           else exec_bind (copy_to_slice CLIENT_SIG_LEN buf) (\<lambda>(sg, _).
             Done (Some \<lparr>v3_capability = cap, client_sig = sg\<rparr>)))"

section \<open>Well-formed values: what the Rust types guarantee\<close>

definition cap_wf :: "Capability \<Rightarrow> bool" where
  "cap_wf c \<longleftrightarrow> ticket_wf (ticket c) \<and> length (scope c) \<le> MAX_SCOPE_LEN \<and> utf8_valid (scope c)
     \<and> length (sig c) = CAP_SIG_LEN"

definition cap2_wf :: "CapabilityV2 \<Rightarrow> bool" where
  "cap2_wf c \<longleftrightarrow> length (v2_ticket_id c) = TICKET_ID_LEN \<and> length (veil_pk c) = VEIL_PK_LEN
     \<and> length (v2_scope c) \<le> MAX_SCOPE_LEN \<and> utf8_valid (v2_scope c)
     \<and> length (v2_sig c) = CAP_SIG_LEN"

section \<open>What a blob format promises\<close>

locale blob_codec =
  fixes enc :: "'a \<Rightarrow> bytes exec"
    and dec :: "bytes \<Rightarrow> ('a option \<times> bytes) exec"
    and wf :: "'a \<Rightarrow> bool"
  assumes dec_enc: "wf x \<Longrightarrow> \<exists>bs. enc x = Done bs \<and> (\<forall>rest. dec (bs @ rest) = Done (Some x, rest))"
    and dec_canonical: "dec bs = Done (Some x, rest) \<Longrightarrow> wf x \<and> (\<exists>b. enc x = Done b \<and> bs = b @ rest)"
    and dec_total: "dec bs \<noteq> Panic"
begin

lemma enc_prefix_free:
  assumes "wf x" "wf y" "enc x = Done a" "enc y = Done b" "a @ r = b @ s"
  shows "x = y \<and> r = s"
proof -
  have "dec (a @ r) = Done (Some x, r)" "dec (b @ s) = Done (Some y, s)"
    using dec_enc [OF assms(1)] dec_enc [OF assms(2)] assms(3,4) by auto
  then show ?thesis using assms(5) by simp
qed

end

text \<open>An AUTH payload: a blob followed by a trailer of fixed length that ends the payload.\<close>

locale auth_payload = blob_codec enc dec wf
  for enc :: "'a \<Rightarrow> bytes exec" and dec :: "bytes \<Rightarrow> ('a option \<times> bytes) exec" and wf :: "'a \<Rightarrow> bool" +
  fixes encp :: "'r \<Rightarrow> bytes exec"
    and decp :: "bytes \<Rightarrow> 'r option exec"
    and blob :: "'r \<Rightarrow> 'a"
    and trailer :: "'r \<Rightarrow> bytes"
    and mk :: "'a \<Rightarrow> bytes \<Rightarrow> 'r"
    and n :: nat
  assumes mk: "blob (mk c t) = c" "trailer (mk c t) = t" "mk (blob r) (trailer r) = r"
    and encp: "encp r = exec_bind (enc (blob r)) (\<lambda>b. Done (b @ trailer r))"
    and decp: "decp p = exec_bind (dec p) (\<lambda>(c, buf).
      case c of
        None \<Rightarrow> Done None
      | Some c \<Rightarrow> if length buf \<noteq> n then Done None
          else exec_bind (copy_to_slice n buf) (\<lambda>(t, _). Done (Some (mk c t))))"
begin

lemma payload_roundtrip:
  assumes "wf (blob r)" "length (trailer r) = n"
  shows "\<exists>p. encp r = Done p \<and> decp p = Done (Some r)"
proof -
  from dec_enc [OF assms(1)] obtain b where
    "enc (blob r) = Done b" "dec (b @ trailer r) = Done (Some (blob r), trailer r)" by blast
  then show ?thesis using assms(2) by (simp add: encp decp copy_to_slice_def mk)
qed

lemma payload_canonical:
  assumes "decp p = Done (Some r)"
  shows "wf (blob r) \<and> length (trailer r) = n \<and> encp r = Done p"
proof -
  from assms obtain c buf where c: "dec p = Done (Some c, buf)" "length buf = n" "r = mk c buf"
    by (auto simp: decp exec_bind_eq_Done copy_to_slice_def split: option.splits if_splits)
  from dec_canonical [OF c(1)] obtain b where "wf c" "enc c = Done b" "p = b @ buf" by blast
  then show ?thesis using c by (simp add: mk encp)
qed

lemma payload_total: "decp p \<noteq> Panic"
  using dec_total [of p]
  by (cases "dec p") (auto simp: decp copy_to_slice_def split: prod.splits option.splits)

end

section \<open>Both formats keep the promise\<close>

lemma append_shape:
  assumes "a + b \<le> length xs"
  shows "\<exists>us vs. xs = us @ vs \<and> length us = a \<and> b \<le> length vs"
  using assms by (intro exI [of _ "take a xs"] exI [of _ "drop a xs"]) simp

lemma u64_shape: "length bs = 8 \<Longrightarrow> \<exists>v. bs = u64_to_le_bytes v"
  using u64_le_roundtrip_inv by metis

lemma cap_blob_shape:
  assumes "\<not> length dat < CAP_FIXED_LEN"
  shows "\<exists>tid key nb na suite len r. length tid = 16 \<and> length key = 32 \<and>
    dat = tid @ key @ u64_to_le_bytes nb @ u64_to_le_bytes na @ suite # len # r"
proof -
  from assms have "16 + 50 \<le> length dat" by (simp add: cap_len_defs)
  from append_shape [OF this] obtain tid d1 where 1: "dat = tid @ d1" "length tid = 16"
    "32 + 18 \<le> length d1" by auto
  from append_shape [OF 1(3)] obtain key d2 where 2: "d1 = key @ d2" "length key = 32"
    "8 + 10 \<le> length d2" by auto
  from append_shape [OF 2(3)] obtain nb d3 where 3: "d2 = nb @ d3" "length nb = 8"
    "8 + 2 \<le> length d3" by auto
  from append_shape [OF 3(3)] obtain na d4 where 4: "d3 = na @ d4" "length na = 8"
    "Suc (Suc 0) \<le> length d4" by (auto simp: numeral_2_eq_2)
  obtain suite len r where "d4 = suite # len # r"
    using 4(3) by (auto simp: Suc_le_length_iff)
  with 1 2 3 4 u64_shape [OF 3(2)] u64_shape [OF 4(2)] show ?thesis by fastforce
qed

lemma cap_decode_eval:
  assumes "length tid = 16" "length key = 32"
  shows "cap_decode (tid @ key @ u64_to_le_bytes nb @ u64_to_le_bytes na @ suite # len # r) =
    (if length r < unat len + 64 then Done (None, r)
     else if \<not> utf8_valid (take (unat len) r) then Done (None, drop (unat len) r)
     else Done (Some \<lparr>ticket = \<lparr>ticket_id = tid, auth_key = key, not_before = nb, not_after = na,
                         suite_id = suite\<rparr>,
                       scope = take (unat len) r, sig = take 64 (drop (unat len) r)\<rparr>,
                drop 64 (drop (unat len) r)))"
  using assms unfolding cap_decode_def cap_len_defs Let_def by (simp add: exec_simps)

lemma cap_encode_Done:
  "cap_wf c \<Longrightarrow> cap_encode c = Done (ticket_id (ticket c) @ auth_key (ticket c)
     @ u64_to_le_bytes (not_before (ticket c)) @ u64_to_le_bytes (not_after (ticket c))
     @ suite_id (ticket c) # of_nat (length (scope c)) # scope c @ sig c)"
  by (simp add: cap_encode_def assert_encodable_scope_def cap_wf_def)

lemma cap2_blob_shape:
  assumes "\<not> length dat < CAP_V2_FIXED_LEN"
  shows "\<exists>tid pk rl nb na suite len r. length tid = 16 \<and> length pk = 32 \<and>
    dat = tid @ pk @ rl # u64_to_le_bytes nb @ u64_to_le_bytes na @ suite # len # r"
proof -
  from assms have "16 + 51 \<le> length dat" by (simp add: cap_len_defs)
  from append_shape [OF this] obtain tid d1 where 1: "dat = tid @ d1" "length tid = 16"
    "32 + 19 \<le> length d1" by auto
  from append_shape [OF 1(3)] obtain pk d2 where 2: "d1 = pk @ d2" "length pk = 32"
    "Suc 18 \<le> length d2" by auto
  obtain rl d3 where 3: "d2 = rl # d3" "8 + 10 \<le> length d3" using 2(3) by (cases d2) auto
  from append_shape [OF 3(2)] obtain nb d4 where 4: "d3 = nb @ d4" "length nb = 8"
    "8 + 2 \<le> length d4" by auto
  from append_shape [OF 4(3)] obtain na d5 where 5: "d4 = na @ d5" "length na = 8"
    "Suc (Suc 0) \<le> length d5" by (auto simp: numeral_2_eq_2)
  obtain suite len r where "d5 = suite # len # r"
    using 5(3) by (auto simp: Suc_le_length_iff)
  with 1 2 3 4 5 u64_shape [OF 4(2)] u64_shape [OF 5(2)] show ?thesis by fastforce
qed

lemma cap2_decode_eval:
  assumes "length tid = 16" "length pk = 32"
  shows "cap2_decode (tid @ pk @ rl # u64_to_le_bytes nb @ u64_to_le_bytes na @ suite # len # r) =
    (if length r < unat len + 64 then Done (None, r)
     else if \<not> utf8_valid (take (unat len) r) then Done (None, drop (unat len) r)
     else Done (Some \<lparr>v2_ticket_id = tid, veil_pk = pk, role = rl, v2_not_before = nb,
                       v2_not_after = na, v2_suite_id = suite, v2_scope = take (unat len) r,
                       v2_sig = take 64 (drop (unat len) r)\<rparr>,
                drop 64 (drop (unat len) r)))"
  using assms unfolding cap2_decode_def cap_len_defs Let_def by (simp add: exec_simps)

lemma cap2_encode_Done:
  "cap2_wf c \<Longrightarrow> cap2_encode c = Done (v2_ticket_id c @ veil_pk c @ role c
     # u64_to_le_bytes (v2_not_before c) @ u64_to_le_bytes (v2_not_after c)
     @ v2_suite_id c # of_nat (length (v2_scope c)) # v2_scope c @ v2_sig c)"
  by (simp add: cap2_encode_def assert_encodable_scope_def cap2_wf_def)

lemma scope_len_byte: "length sc \<le> MAX_SCOPE_LEN \<Longrightarrow> unat (of_nat (length sc) :: byte) = length sc"
  by (rule unat_of_nat_less) (simp add: MAX_SCOPE_LEN_def)

lemma cap_blob_codec: "blob_codec cap_encode cap_decode cap_wf"
proof
  fix c assume wf: "cap_wf c"
  have "cap_decode (ticket_id (ticket c) @ auth_key (ticket c)
     @ u64_to_le_bytes (not_before (ticket c)) @ u64_to_le_bytes (not_after (ticket c))
     @ suite_id (ticket c) # of_nat (length (scope c)) # scope c @ sig c @ rest) = Done (Some c, rest)"
    for rest
    using wf by (subst cap_decode_eval)
      (simp_all add: cap_wf_def ticket_wf_def cap_len_defs scope_len_byte [unfolded MAX_SCOPE_LEN_def])
  then show "\<exists>bs. cap_encode c = Done bs \<and> (\<forall>rest. cap_decode (bs @ rest) = Done (Some c, rest))"
    by (simp add: cap_encode_Done [OF wf])
next
  fix bs c rest assume d: "cap_decode bs = Done (Some c, rest)"
  then have "\<not> length bs < CAP_FIXED_LEN" by (auto simp: cap_decode_def)
  from cap_blob_shape [OF this] obtain tid key nb na suite len r where
    s: "length tid = 16" "length key = 32"
      "bs = tid @ key @ u64_to_le_bytes nb @ u64_to_le_bytes na @ suite # len # r" by blast
  have len: "length r \<ge> unat len + 64" and u: "utf8_valid (take (unat len) r)"
    and c: "c = \<lparr>ticket = \<lparr>ticket_id = tid, auth_key = key, not_before = nb, not_after = na,
        suite_id = suite\<rparr>, scope = take (unat len) r, sig = take 64 (drop (unat len) r)\<rparr>"
    and rest: "rest = drop 64 (drop (unat len) r)"
    using d unfolding s(3) cap_decode_eval [OF s(1,2)] by (auto split: if_splits)
  have l: "unat len \<le> 255" using unat_byte_less [of len] by linarith
  have wf: "cap_wf c"
    using s len u l by (simp add: c cap_wf_def ticket_wf_def cap_len_defs)
  have "r = take (unat len) r @ take 64 (drop (unat len) r) @ rest"
    by (simp only: rest append_take_drop_id)
  then show "cap_wf c \<and> (\<exists>b. cap_encode c = Done b \<and> bs = b @ rest)"
    using wf len by (simp add: cap_encode_Done s(3)) (simp add: c)
next
  fix bs show "cap_decode bs \<noteq> Panic"
  proof (cases "length bs < CAP_FIXED_LEN")
    case False
    from cap_blob_shape [OF this] show ?thesis by (elim exE conjE) (simp add: cap_decode_eval)
  qed (simp add: cap_decode_def)
qed

lemma cap2_blob_codec: "blob_codec cap2_encode cap2_decode cap2_wf"
proof
  fix c assume wf: "cap2_wf c"
  have "cap2_decode (v2_ticket_id c @ veil_pk c @ role c
     # u64_to_le_bytes (v2_not_before c) @ u64_to_le_bytes (v2_not_after c)
     @ v2_suite_id c # of_nat (length (v2_scope c)) # v2_scope c @ v2_sig c @ rest) = Done (Some c, rest)"
    for rest
    using wf by (subst cap2_decode_eval)
      (simp_all add: cap2_wf_def cap_len_defs scope_len_byte [unfolded MAX_SCOPE_LEN_def])
  then show "\<exists>bs. cap2_encode c = Done bs \<and> (\<forall>rest. cap2_decode (bs @ rest) = Done (Some c, rest))"
    by (simp add: cap2_encode_Done [OF wf])
next
  fix bs c rest assume d: "cap2_decode bs = Done (Some c, rest)"
  then have "\<not> length bs < CAP_V2_FIXED_LEN" by (auto simp: cap2_decode_def)
  from cap2_blob_shape [OF this] obtain tid pk rl nb na suite len r where
    s: "length tid = 16" "length pk = 32"
      "bs = tid @ pk @ rl # u64_to_le_bytes nb @ u64_to_le_bytes na @ suite # len # r" by blast
  have len: "length r \<ge> unat len + 64" and u: "utf8_valid (take (unat len) r)"
    and c: "c = \<lparr>v2_ticket_id = tid, veil_pk = pk, role = rl, v2_not_before = nb, v2_not_after = na,
        v2_suite_id = suite, v2_scope = take (unat len) r, v2_sig = take 64 (drop (unat len) r)\<rparr>"
    and rest: "rest = drop 64 (drop (unat len) r)"
    using d unfolding s(3) cap2_decode_eval [OF s(1,2)] by (auto split: if_splits)
  have l: "unat len \<le> 255" using unat_byte_less [of len] by linarith
  have wf: "cap2_wf c"
    using s len u l by (simp add: c cap2_wf_def cap_len_defs)
  have "r = take (unat len) r @ take 64 (drop (unat len) r) @ rest"
    by (simp only: rest append_take_drop_id)
  then show "cap2_wf c \<and> (\<exists>b. cap2_encode c = Done b \<and> bs = b @ rest)"
    using wf len by (simp add: cap2_encode_Done s(3)) (simp add: c)
next
  fix bs show "cap2_decode bs \<noteq> Panic"
  proof (cases "length bs < CAP_V2_FIXED_LEN")
    case False
    from cap2_blob_shape [OF this] show ?thesis by (elim exE conjE) (simp add: cap2_decode_eval)
  qed (simp add: cap2_decode_def)
qed

interpretation v2: auth_payload cap_encode cap_decode cap_wf v2_encode_payload v2_decode_payload
  capability authcode "\<lambda>c t. \<lparr>capability = c, authcode = t\<rparr>" AUTHCODE_LEN
  by (rule auth_payload.intro [OF cap_blob_codec], unfold_locales)
     (simp_all add: v2_encode_payload_def v2_decode_payload_def)

interpretation v3: auth_payload cap2_encode cap2_decode cap2_wf v3_encode_payload v3_decode_payload
  v3_capability client_sig "\<lambda>c t. \<lparr>v3_capability = c, client_sig = t\<rparr>" CLIENT_SIG_LEN
  by (rule auth_payload.intro [OF cap2_blob_codec], unfold_locales)
     (simp_all add: v3_encode_payload_def v3_decode_payload_def)

section \<open>Signed messages\<close>

text \<open>What an issuer has signed: bearer tickets with a scope, and key-bound capabilities.\<close>

datatype issue =
    IssuedV1 Ticket bytes
  | IssuedV2 bytes bytes byte u64 u64 byte bytes

fun issue_message :: "issue \<Rightarrow> bytes" where
  "issue_message (IssuedV1 t sc) = cap_signing_message t sc"
| "issue_message (IssuedV2 tid pk rl nb na suite sc) = cap2_signing_message tid pk rl nb na suite sc"

fun issue_wf :: "issue \<Rightarrow> bool" where
  "issue_wf (IssuedV1 t sc) = ticket_wf t"
| "issue_wf (IssuedV2 tid pk rl nb na suite sc) \<longleftrightarrow> length tid = TICKET_ID_LEN \<and> length pk = VEIL_PK_LEN"

text \<open>No signature under a public key verifies on a message outside the given set.\<close>

definition unforged :: "crypto \<Rightarrow> bytes \<Rightarrow> bytes set \<Rightarrow> bool" where
  "unforged cr pk msgs \<longleftrightarrow>
     (\<forall>m s. vk_from_bytes_ok cr pk \<longrightarrow> verify_strict cr pk m s \<longrightarrow> m \<in> msgs)"

lemmas domain_defs = CAP_DOMAIN_def CAP_V2_DOMAIN_def AUTH_V3_SIG_DOMAIN_def ascii_def

lemma append_eq_length: "length xs = length ys \<Longrightarrow> xs @ us = ys @ vs \<longleftrightarrow> xs = ys \<and> us = vs"
  by (rule append_eq_append_conv) simp

lemma cap_signing_message_inject:
  assumes "ticket_wf t" "ticket_wf t'"
  shows "cap_signing_message t sc = cap_signing_message t' sc' \<longleftrightarrow> t = t' \<and> sc = sc'"
proof -
  have l: "length (ticket_id t) = length (ticket_id t')" "length (auth_key t) = length (auth_key t')"
    using assms by (simp_all add: ticket_wf_def)
  show ?thesis
    unfolding cap_signing_message_def append_eq_length [OF refl] append_eq_length [OF l(1)]
      append_eq_length [OF l(2)]
    by (cases t; cases t') (auto simp: append_eq_length)
qed

lemma cap2_signing_message_inject:
  assumes "length tid = length tid'" "length pk = length pk'"
  shows "cap2_signing_message tid pk rl nb na su sc = cap2_signing_message tid' pk' rl' nb' na' su' sc'
    \<longleftrightarrow> (tid, pk, rl, nb, na, su, sc) = (tid', pk', rl', nb', na', su', sc')"
  unfolding cap2_signing_message_def append_eq_length [OF refl] append_eq_length [OF assms(1)]
    append_eq_length [OF assms(2)]
  by (auto simp: append_eq_length)

lemma signing_domains_disjoint:
  "cap_signing_message t sc \<noteq> cap2_signing_message tid pk rl nb na su sc'"
  "cap_signing_message t sc \<noteq> v3_signing_message c e"
  "cap2_signing_message tid pk rl nb na su sc' \<noteq> v3_signing_message c e"
  by (simp_all add: cap_signing_message_def cap2_signing_message_def v3_signing_message_def domain_defs)

lemma issue_message_inject:
  "issue_wf i \<Longrightarrow> issue_wf j \<Longrightarrow> issue_message i = issue_message j \<longleftrightarrow> i = j"
  by (cases i; cases j)
     (auto simp: cap_signing_message_inject cap2_signing_message_inject signing_domains_disjoint
       signing_domains_disjoint [symmetric])

lemma v3_signing_message_inject:
  "length e = length e' \<Longrightarrow> v3_signing_message c e = v3_signing_message c e' \<longleftrightarrow> e = e'"
  by (simp add: v3_signing_message_def)

section \<open>Verification\<close>

lemma v2_verify_iff:
  "v2_verify cr r pk rs e now \<longleftrightarrow>
     cap_is_valid_at (capability r) now \<and> suite_id (ticket (capability r)) = SUITE_CLASSIC_V1
     \<and> scope_matches (scope (capability r)) rs \<and> cap_verify_signature cr (capability r) pk
     \<and> authcode r = rec_authcode (from_ticket cr (ticket (capability r)) e)"
  by (auto simp: v2_verify_def Let_def ct_eq_def)

lemma v3_verify_iff:
  "v3_verify cr r pk rs rl e now \<longleftrightarrow>
     role (v3_capability r) = rl \<and> cap2_is_valid_at (v3_capability r) now
     \<and> v2_suite_id (v3_capability r) = SUITE_CLASSIC_V1 \<and> scope_matches (v2_scope (v3_capability r)) rs
     \<and> cap2_verify_signature cr (v3_capability r) pk
     \<and> vk_from_bytes_ok cr (veil_pk (v3_capability r))
     \<and> verify_strict cr (veil_pk (v3_capability r)) (v3_signing_message (v3_capability r) e) (client_sig r)"
  by (auto simp: v3_verify_def Let_def)

lemma cap_signed_issued:
  assumes "unforged cr pk (issue_message ` set issued)" "\<forall>i\<in>set issued. issue_wf i" "cap_wf c"
    and "cap_verify_signature cr c pk"
  shows "IssuedV1 (ticket c) (scope c) \<in> set issued"
proof -
  have "issue_message (IssuedV1 (ticket c) (scope c)) \<in> issue_message ` set issued"
    using assms(1,4) unfolding unforged_def cap_verify_signature_def by (auto split: if_splits)
  moreover have "issue_wf (IssuedV1 (ticket c) (scope c))" using assms(3) by (simp add: cap_wf_def)
  ultimately show ?thesis using assms(2) issue_message_inject by (metis imageE)
qed

lemma cap2_signed_issued:
  assumes "unforged cr pk (issue_message ` set issued)" "\<forall>i\<in>set issued. issue_wf i" "cap2_wf c"
    and "cap2_verify_signature cr c pk"
  shows "IssuedV2 (v2_ticket_id c) (veil_pk c) (role c) (v2_not_before c) (v2_not_after c)
    (v2_suite_id c) (v2_scope c) \<in> set issued"
proof -
  let ?i = "IssuedV2 (v2_ticket_id c) (veil_pk c) (role c) (v2_not_before c) (v2_not_after c)
    (v2_suite_id c) (v2_scope c)"
  have "issue_message ?i \<in> issue_message ` set issued"
    using assms(1,4) unfolding unforged_def cap2_verify_signature_def by (auto split: if_splits)
  moreover have "issue_wf ?i" using assms(3) by (simp add: cap2_wf_def)
  ultimately show ?thesis using assms(2) issue_message_inject by (metis imageE)
qed

lemma cap_sign_verifies:
  assumes "ed25519_ok cr" "cap_sign cr t sc seed = Inr c"
  shows "cap_verify_signature cr c (issuer_public_key cr seed)" "ticket c = t" "scope c = sc"
    "length (sig c) = 64" "length sc \<le> 255"
  using assms by (auto simp: cap_sign_def check_scope_len_def cap_verify_signature_def
      issuer_public_key_def ed25519_ok_def MAX_SCOPE_LEN_def split: if_splits)

lemma cap2_sign_verifies:
  assumes "ed25519_ok cr" "cap2_sign cr tid pk rl nb na su sc seed = Inr c"
  shows "cap2_verify_signature cr c (issuer_public_key cr seed)"
    "c = \<lparr>v2_ticket_id = tid, veil_pk = pk, role = rl, v2_not_before = nb, v2_not_after = na,
       v2_suite_id = su, v2_scope = sc, v2_sig = v2_sig c\<rparr>"
    "length (v2_sig c) = 64" "length sc \<le> 255"
  using assms by (auto simp: cap2_sign_def check_scope_len_def cap2_verify_signature_def Let_def
      issuer_public_key_def ed25519_ok_def MAX_SCOPE_LEN_def split: if_splits)

section \<open>Properties\<close>

text \<open>(C25) The AUTH v2 and v3 payload parsers accept exactly the payloads their encoders produce from
  well-formed records: parsing is the inverse of encoding, trailing or missing bytes are refused, and
  no input makes either parser panic.\<close>

theorem auth_payloads_exact:
  "(v2_decode_payload p = Done (Some r2) \<longleftrightarrow>
      cap_wf (capability r2) \<and> length (authcode r2) = AUTHCODE_LEN \<and> v2_encode_payload r2 = Done p)
   \<and> (v3_decode_payload p = Done (Some r3) \<longleftrightarrow>
      cap2_wf (v3_capability r3) \<and> length (client_sig r3) = CLIENT_SIG_LEN \<and> v3_encode_payload r3 = Done p)
   \<and> v2_decode_payload p \<noteq> Panic \<and> v3_decode_payload p \<noteq> Panic"
proof (intro conjI)
  show "v2_decode_payload p = Done (Some r2) \<longleftrightarrow>
      cap_wf (capability r2) \<and> length (authcode r2) = AUTHCODE_LEN \<and> v2_encode_payload r2 = Done p"
    using v2.payload_canonical [of p r2] v2.payload_roundtrip [of r2] by auto
  show "v3_decode_payload p = Done (Some r3) \<longleftrightarrow>
      cap2_wf (v3_capability r3) \<and> length (client_sig r3) = CLIENT_SIG_LEN \<and> v3_encode_payload r3 = Done p"
    using v3.payload_canonical [of p r3] v3.payload_roundtrip [of r3] by auto
qed (rule v2.payload_total v3.payload_total)+

text \<open>An issued capability works: a capability the issuer signs for a relay scope, presented in a
  fresh AUTH v2 record inside its validity window, verifies under the issuer's public key on a relay
  of that scope.\<close>

theorem issued_v2_verifies:
  assumes "ed25519_ok cr" "cap_sign cr t sc seed = Inr c"
    and "suite_id t = SUITE_CLASSIC_V1" "not_before t \<le> now" "now \<le> not_after t"
    and "scope_matches sc relay_scope"
  shows "v2_verify cr (v2_from_capability cr c exporter) (issuer_public_key cr seed) relay_scope
    exporter now"
  using cap_sign_verifies [OF assms(1,2)] assms(3-)
  by (simp add: v2_verify_iff v2_from_capability_def cap_is_valid_at_def is_valid_at_def)

theorem issued_v2_verifies_witness:
  "v2_verify demo_crypto (v2_from_capability demo_crypto
      \<lparr>ticket = demo_ticket, scope = [], sig = sk_sign demo_crypto [7] (cap_signing_message demo_ticket [])\<rparr> [5])
    (issuer_public_key demo_crypto [7]) [65] [5] 15"
  by (rule issued_v2_verifies [OF demo_crypto_ok(2), where t = demo_ticket and sc = "[]"])
     (simp_all add: cap_sign_def check_scope_len_def demo_ticket_def SUITE_CLASSIC_V1_def
       scope_matches_def)

text \<open>The same for the key-bound generation: a capability issued for a role, presented with a
  signature by the holder of the bound key, verifies for that role.\<close>

theorem issued_v3_verifies:
  assumes "ed25519_ok cr" "cap2_sign cr tid (verifying_key cr veil_sk) rl nb na suite sc seed = Inr c"
    and "suite = SUITE_CLASSIC_V1" "nb \<le> now" "now \<le> na" "scope_matches sc relay_scope"
  shows "v3_verify cr (v3_from_capability cr c veil_sk exporter) (issuer_public_key cr seed)
    relay_scope rl exporter now"
proof -
  note s = cap2_sign_verifies [OF assms(1,2)]
  have f: "role c = rl" "veil_pk c = verifying_key cr veil_sk" "v2_not_before c = nb"
    "v2_not_after c = na" "v2_suite_id c = suite" "v2_scope c = sc"
    by (subst s(2), simp)+
  show ?thesis
    using s(1) f assms by (simp add: v3_verify_iff v3_from_capability_def cap2_is_valid_at_def ed25519_ok_def)
qed

theorem issued_v3_verifies_witness:
  "v3_verify demo_crypto (v3_from_capability demo_crypto
      \<lparr>v2_ticket_id = replicate 16 1, veil_pk = verifying_key demo_crypto [4], role = ROLE_USER,
       v2_not_before = 10, v2_not_after = 20, v2_suite_id = 1, v2_scope = [],
       v2_sig = sk_sign demo_crypto [7] (cap2_signing_message (replicate 16 1)
         (verifying_key demo_crypto [4]) ROLE_USER 10 20 1 [])\<rparr> [4] [5])
    (issuer_public_key demo_crypto [7]) [65] ROLE_USER [5] 15"
  by (rule issued_v3_verifies [OF demo_crypto_ok(2), where tid = "replicate 16 1" and nb = 10
        and na = 20 and suite = 1 and sc = "[]"])
     (simp_all add: cap2_sign_def check_scope_len_def SUITE_CLASSIC_V1_def scope_matches_def)



text \<open>(C11) Session binding.  A record that verifies in two TLS sessions with different exporter
  values gives a collision of the underlying primitive: two different messages with the same HMAC
  tag under the ticket's key (v2), or one signature that verifies on two different messages under
  the bound key (v3).\<close>

theorem replayed_record_breaks_primitive:
  assumes "length e = EXPORTER_LEN" "length e' = EXPORTER_LEN" "e \<noteq> e'"
  shows "(v2_verify cr r2 pk rs e now \<and> v2_verify cr r2 pk' rs' e' now' \<longrightarrow>
      (\<exists>m m'. m \<noteq> m' \<and> hmac_sha256 cr (auth_key (ticket (capability r2))) m
                    = hmac_sha256 cr (auth_key (ticket (capability r2))) m'))
    \<and> (v3_verify cr r3 pk rs rl e now \<and> v3_verify cr r3 pk' rs' rl' e' now' \<longrightarrow>
      (\<exists>m m'. m \<noteq> m' \<and> verify_strict cr (veil_pk (v3_capability r3)) m (client_sig r3)
                    \<and> verify_strict cr (veil_pk (v3_capability r3)) m' (client_sig r3)))"
proof -
  have l: "length e = length e'" using assms by simp
  let ?t = "ticket (capability r2)"
  let ?m = "\<lambda>e. e @ ticket_id ?t @ u64_to_le_bytes (not_after ?t)"
  let ?n = "\<lambda>e. v3_signing_message (v3_capability r3) e"
  have ne: "?m e \<noteq> ?m e'" "?n e \<noteq> ?n e'"
    using append_eq_length [OF l] v3_signing_message_inject [OF l] assms(3) by blast+
  have "hmac_sha256 cr (auth_key ?t) (?m e) = hmac_sha256 cr (auth_key ?t) (?m e')"
    if "v2_verify cr r2 pk rs e now" "v2_verify cr r2 pk' rs' e' now'"
    using that by (simp only: v2_verify_iff from_ticket_def AuthRecord.simps)
  moreover have "verify_strict cr (veil_pk (v3_capability r3)) (?n e) (client_sig r3)"
    "verify_strict cr (veil_pk (v3_capability r3)) (?n e') (client_sig r3)"
    if "v3_verify cr r3 pk rs rl e now" "v3_verify cr r3 pk' rs' rl' e' now'"
    using that by (simp_all only: v3_verify_iff)
  ultimately show ?thesis using ne by blast
qed

theorem replayed_record_breaks_primitive_witness:
  "\<exists>m m'. m \<noteq> m' \<and> hmac_sha256 demo_crypto (replicate 32 2) m = hmac_sha256 demo_crypto (replicate 32 2) m'"
proof -
  let ?c = "\<lparr>ticket = demo_ticket, scope = [],
    sig = sk_sign demo_crypto [7] (cap_signing_message demo_ticket [])\<rparr>"
  let ?r = "v2_from_capability demo_crypto ?c (replicate 32 8)"
  have v: "v2_verify demo_crypto ?r (verifying_key demo_crypto [7]) [] e 15" for e
    by (simp add: v2_verify_iff v2_from_capability_def demo_crypto_def demo_ticket_def
        cap_is_valid_at_def is_valid_at_def SUITE_CLASSIC_V1_def scope_matches_def
        cap_verify_signature_def from_ticket_def)
  have l: "length (replicate 32 8 :: bytes) = EXPORTER_LEN" "length (replicate 32 9 :: bytes) = EXPORTER_LEN"
    and ne: "(replicate 32 8 :: bytes) \<noteq> replicate 32 9"
    by (simp_all add: EXPORTER_LEN_def)
  have k: "auth_key (ticket (capability ?r)) = replicate 32 2"
    by (simp add: v2_from_capability_def demo_ticket_def)
  from replayed_record_breaks_primitive [OF l ne, THEN conjunct1, rule_format, OF conjI, OF v v]
  show ?thesis unfolding k .
qed

end
