(* ===== verification/Gate.thy ===== *)
theory Gate
  imports Capability Pump
begin

text \<open>The relay's gate (\<^verbatim>\<open>src/crates/construct-veil-relay/src/gate.rs\<close>): it reads the first
  application bytes of a connection at most twice and routes the connection either into a tunnel or
  to the cover site.

  The stream is the list of what its next reads deliver.  The process-wide atomics are the record
  \<^verbatim>\<open>GateStats\<close>.  Clock reads are an argument, numbered in the order the code makes them.  Log lines
  other than the rate-limited warning are left out.

  The warning limiter is also modelled at the grain of its atomic operations, as the step relation
  \<^verbatim>\<open>warn_step\<close> over any number of threads that are inside \<^verbatim>\<open>admit\<close> at the same time.\<close>

section \<open>Clock and limiter\<close>

definition now_unix :: "u64 option \<Rightarrow> u64" where
  "now_unix since_epoch = (case since_epoch of Some secs \<Rightarrow> secs | None \<Rightarrow> 0)"

definition GATE_READ_TIMEOUT_ms :: nat where "GATE_READ_TIMEOUT_ms = 100"

definition INVALID_AUTH_WARN_EVERY :: u64 where "INVALID_AUTH_WARN_EVERY = 60"

record WarnLimiter =
  wl_last :: u64
  wl_suppressed :: u64

definition warn_limiter_new :: WarnLimiter where
  "warn_limiter_new = \<lparr>wl_last = 0, wl_suppressed = 0\<rparr>"

definition saturating_sub :: "u64 \<Rightarrow> u64 \<Rightarrow> u64" where
  "saturating_sub a b = (if a < b then 0 else a - b)"

definition in_window :: "u64 \<Rightarrow> u64 \<Rightarrow> bool" where
  "in_window seen now_secs \<longleftrightarrow>
     seen \<noteq> 0 \<and> saturating_sub now_secs seen < INVALID_AUTH_WARN_EVERY"

text \<open>One call of \<^verbatim>\<open>admit\<close> that no other thread interrupts; \<^verbatim>\<open>seen\<close> is the value it loaded.\<close>

definition admit_from :: "u64 \<Rightarrow> u64 \<Rightarrow> WarnLimiter \<Rightarrow> u64 option \<times> WarnLimiter" where
  "admit_from seen now_secs wl =
     (if in_window seen now_secs
      then (None, wl\<lparr>wl_suppressed := wl_suppressed wl + 1\<rparr>)
      else if wl_last wl \<noteq> seen
      then (None, wl\<lparr>wl_suppressed := wl_suppressed wl + 1\<rparr>)
      else (Some (wl_suppressed wl), wl\<lparr>wl_last := max now_secs 1, wl_suppressed := 0\<rparr>))"

definition admit :: "u64 \<Rightarrow> WarnLimiter \<Rightarrow> u64 option \<times> WarnLimiter" where
  "admit now_secs wl = admit_from (wl_last wl) now_secs wl"

section \<open>Gate state and results\<close>

record GateStats =
  invalid_auth_warn :: WarnLimiter
  tunnels_after_second_read :: u64
  tunnels_admitted :: u64
  warnings :: "u64 list"

definition take_tunnels_after_second_read :: "GateStats \<Rightarrow> u64 \<times> GateStats" where
  "take_tunnels_after_second_read st =
     (tunnels_after_second_read st, st\<lparr>tunnels_after_second_read := 0\<rparr>)"

definition take_tunnels_admitted :: "GateStats \<Rightarrow> u64 \<times> GateStats" where
  "take_tunnels_admitted st = (tunnels_admitted st, st\<lparr>tunnels_admitted := 0\<rparr>)"

text \<open>What one bounded read of the stream gives; no bytes is the end of the stream.\<close>

datatype gate_read = ReadData bytes | ReadErr io_error | TimedOut

type_synonym gate_stream_in = "gate_read list"

fun next_read :: "gate_stream_in \<Rightarrow> gate_read \<times> gate_stream_in" where
  "next_read [] = (TimedOut, [])"
| "next_read (r # rs) = (r, rs)"

datatype GateResult =
    Tunnel gate_stream_in bytes
  | Site gate_stream_in bytes

datatype GateDecision = DecideTunnel bytes | DecideSite

text \<open>The rejection branch both AUTH generations share: ask the limiter, then route to the site.\<close>

definition reject_invalid :: "u64 \<Rightarrow> GateStats \<Rightarrow> GateDecision option \<times> GateStats" where
  "reject_invalid now_secs st =
     (case admit now_secs (invalid_auth_warn st) of
        (Some n, wl) \<Rightarrow> (Some DecideSite, st\<lparr>invalid_auth_warn := wl, warnings := warnings st @ [n]\<rparr>)
      | (None, wl) \<Rightarrow> (Some DecideSite, st\<lparr>invalid_auth_warn := wl\<rparr>))"

definition try_decode_auth ::
  "crypto \<Rightarrow> bytes \<Rightarrow> bytes \<Rightarrow> bytes \<Rightarrow> bytes \<Rightarrow> u64 \<Rightarrow> u64 \<Rightarrow> GateStats \<Rightarrow>
     (GateDecision option \<times> GateStats) exec" where
  "try_decode_auth cr buf exporter issuer_pubkey relay_scope now_verify now_warn st =
     (case decode codec_new buf of
        (Inr (Some frame), decode_buf) \<Rightarrow>
          if is_auth_v2 frame then
            exec_bind (v2_decode_payload (payload frame)) (\<lambda>rec.
              case rec of
                None \<Rightarrow> Done (Some DecideSite, st)
              | Some r \<Rightarrow>
                  if v2_verify cr r issuer_pubkey relay_scope exporter now_verify
                  then Done (Some (DecideTunnel decode_buf), st)
                  else Done (reject_invalid now_warn st))
          else if is_auth_v3 frame then
            exec_bind (v3_decode_payload (payload frame)) (\<lambda>rec.
              case rec of
                None \<Rightarrow> Done (Some DecideSite, st)
              | Some r \<Rightarrow>
                  let rl = role (v3_capability r);
                      role_ok = (rl = ROLE_USER \<or> rl = ROLE_RELAY);
                      valid = (role_ok
                        \<and> v3_verify cr r issuer_pubkey relay_scope rl exporter now_verify)
                  in if valid
                     then Done (Some (DecideTunnel decode_buf), st)
                     else Done (reject_invalid now_warn st))
          else Done (Some DecideSite, st)
      | (Inr None, _) \<Rightarrow> Done (None, st)
      | (Inl _, _) \<Rightarrow> Done (Some DecideSite, st))"

definition consume ::
  "GateDecision \<Rightarrow> gate_stream_in \<Rightarrow> bytes \<Rightarrow> GateStats \<Rightarrow> GateResult \<times> GateStats" where
  "consume d stream buf st =
     (case d of
        DecideTunnel leftover \<Rightarrow>
          (Tunnel stream leftover, st\<lparr>tunnels_admitted := tunnels_admitted st + 1\<rparr>)
      | DecideSite \<Rightarrow> (Site stream buf, st))"

definition is_tunnel_decision :: "GateDecision \<Rightarrow> bool" where
  "is_tunnel_decision d = (case d of DecideTunnel _ \<Rightarrow> True | DecideSite \<Rightarrow> False)"

text \<open>The result is \<^verbatim>\<open>Inl\<close> exactly when the first read fails.\<close>

definition gate_stream ::
  "crypto \<Rightarrow> bytes \<Rightarrow> bytes \<Rightarrow> bytes \<Rightarrow> (nat \<Rightarrow> u64 option) \<Rightarrow> gate_stream_in \<Rightarrow> GateStats \<Rightarrow>
     ((io_error + GateResult) \<times> GateStats) exec" where
  "gate_stream cr exporter issuer_pubkey relay_scope clock stream st =
     (case next_read stream of
        (TimedOut, reader) \<Rightarrow> Done (Inr (Site reader []), st)
      | (ReadErr e, reader) \<Rightarrow> Done (Inl e, st)
      | (ReadData d1, reader) \<Rightarrow>
          if d1 = [] then Done (Inr (Site reader d1), st)
          else exec_bind (try_decode_auth cr d1 exporter issuer_pubkey relay_scope
                 (now_unix (clock 0)) (now_unix (clock 1)) st) (\<lambda>(decision, st).
            case decision of
              Some result \<Rightarrow> (let (g, st) = consume result reader d1 st in Done (Inr g, st))
            | None \<Rightarrow>
                (case next_read reader of
                   (ReadData d2, reader) \<Rightarrow>
                     if d2 = [] then Done (Inr (Site reader d1), st)
                     else let buf = d1 @ d2 in
                       exec_bind (try_decode_auth cr buf exporter issuer_pubkey relay_scope
                         (now_unix (clock 2)) (now_unix (clock 3)) st) (\<lambda>(decision, st).
                       case decision of
                         Some result \<Rightarrow>
                           (let st = (if is_tunnel_decision result
                                      then st\<lparr>tunnels_after_second_read :=
                                             tunnels_after_second_read st + 1\<rparr> else st);
                                (g, st) = consume result reader buf st
                            in Done (Inr g, st))
                       | None \<Rightarrow> Done (Inr (Site reader buf), st))
                 | (ReadErr _, reader) \<Rightarrow> Done (Inr (Site reader d1), st)
                 | (TimedOut, reader) \<Rightarrow> Done (Inr (Site reader d1), st))))"

text \<open>The exporter is \<^verbatim>\<open>None\<close> when the TLS library refuses to derive it.\<close>

definition gate_with_exporter ::
  "crypto \<Rightarrow> bytes option \<Rightarrow> bytes \<Rightarrow> bytes \<Rightarrow> (nat \<Rightarrow> u64 option) \<Rightarrow> gate_stream_in \<Rightarrow> GateStats \<Rightarrow>
     ((io_error + GateResult) \<times> GateStats) exec" where
  "gate_with_exporter cr exporter issuer_pubkey relay_scope clock stream st =
     (case exporter of
        None \<Rightarrow> Done (Inr (Site stream []), st)
      | Some exp \<Rightarrow> gate_stream cr exp issuer_pubkey relay_scope clock stream st)"

section \<open>What a decision means\<close>

text \<open>A frame that opens the gate.\<close>

definition opens_gate :: "crypto \<Rightarrow> Frame \<Rightarrow> bytes \<Rightarrow> bytes \<Rightarrow> bytes \<Rightarrow> u64 \<Rightarrow> bool" where
  "opens_gate cr f exporter pk rs now \<longleftrightarrow>
     (is_auth_v2 f \<and> (\<exists>r. v2_decode_payload (payload f) = Done (Some r) \<and> v2_verify cr r pk rs exporter now))
     \<or> (is_auth_v3 f \<and> (\<exists>r. v3_decode_payload (payload f) = Done (Some r)
          \<and> role (v3_capability r) \<in> {ROLE_USER, ROLE_RELAY}
          \<and> v3_verify cr r pk rs (role (v3_capability r)) exporter now))"

lemma auth_kinds_differ: "is_auth_v2 f \<Longrightarrow> \<not> is_auth_v3 f"
  by (simp add: frame_kind_defs frame_type_defs)

lemma reject_invalid_eq:
  "fst (reject_invalid now st) = Some DecideSite"
  "tunnels_admitted (snd (reject_invalid now st)) = tunnels_admitted st"
  "tunnels_after_second_read (snd (reject_invalid now st)) = tunnels_after_second_read st"
  by (auto simp: reject_invalid_def split: prod.splits option.splits)

lemma try_decode_auth_frame:
  assumes "decode codec_new buf = (Inr (Some f), rest)"
  shows "\<exists>st'. tunnels_admitted st' = tunnels_admitted st
    \<and> tunnels_after_second_read st' = tunnels_after_second_read st
    \<and> try_decode_auth cr buf e pk rs now1 now2 st =
        Done (Some (if opens_gate cr f e pk rs now1 then DecideTunnel rest else DecideSite), st')"
proof -
  have rej: "reject_invalid now2 st = (Some DecideSite, snd (reject_invalid now2 st))"
    using reject_invalid_eq(1) by (metis prod.collapse)
  obtain o2 where o2: "v2_decode_payload (payload f) = Done o2"
    using v2.payload_total [of "payload f"] by (cases "v2_decode_payload (payload f)") auto
  obtain o3 where o3: "v3_decode_payload (payload f) = Done o3"
    using v3.payload_total [of "payload f"] by (cases "v3_decode_payload (payload f)") auto
  note eval = try_decode_auth_def assms o2 o3 opens_gate_def Let_def
  consider "\<not> (is_auth_v2 f \<or> is_auth_v3 f)" | "is_auth_v2 f \<or> is_auth_v3 f" "opens_gate cr f e pk rs now1"
    | "is_auth_v2 f \<or> is_auth_v3 f" "\<not> opens_gate cr f e pk rs now1" "if is_auth_v2 f then o2 = None else o3 = None"
    | "is_auth_v2 f \<or> is_auth_v3 f" "\<not> opens_gate cr f e pk rs now1" "\<not> (if is_auth_v2 f then o2 = None else o3 = None)"
    by blast
  then show ?thesis
  proof cases
    case 2
    then show ?thesis using auth_kinds_differ by (intro exI [of _ st]) (auto simp: eval)
  next
    case 4
    then show ?thesis using rej reject_invalid_eq(2,3) [of now2 st] auth_kinds_differ
      by (intro exI [of _ "snd (reject_invalid now2 st)"]) (auto simp: eval split: if_splits)
  qed (intro exI [of _ st], auto simp: eval split: if_splits)+
qed

lemma try_decode_auth_cases:
  "\<exists>st'. tunnels_admitted st' = tunnels_admitted st
    \<and> tunnels_after_second_read st' = tunnels_after_second_read st
    \<and> try_decode_auth cr buf e pk rs now1 now2 st = Done
      (case decode codec_new buf of
         (Inr None, _) \<Rightarrow> None
       | (Inr (Some f), rest) \<Rightarrow>
           Some (if opens_gate cr f e pk rs now1 then DecideTunnel rest else DecideSite)
       | (Inl _, _) \<Rightarrow> Some DecideSite, st')"
proof -
  obtain d rest where d: "decode codec_new buf = (d, rest)" by fastforce
  show ?thesis
  proof (cases "\<exists>f. d = Inr (Some f)")
    case False
    with d show ?thesis
      by (intro exI [of _ st]) (auto simp: try_decode_auth_def split: sum.splits option.splits)
  next
    case True
    then obtain f where "decode codec_new buf = (Inr (Some f), rest)" using d by blast
    with try_decode_auth_frame [OF this] show ?thesis by simp
  qed
qed

section \<open>The gate as a whole\<close>

fun read_bytes :: "gate_read \<Rightarrow> bytes" where
  "read_bytes (ReadData d) = d"
| "read_bytes _ = []"

text \<open>The verdict on a buffer, without the counters.\<close>

definition verdict :: "crypto \<Rightarrow> bytes \<Rightarrow> bytes \<Rightarrow> bytes \<Rightarrow> u64 \<Rightarrow> bytes \<Rightarrow> GateDecision option" where
  "verdict cr e pk rs now buf =
     (case decode codec_new buf of
        (Inr None, _) \<Rightarrow> None
      | (Inr (Some f), rest) \<Rightarrow>
          Some (if opens_gate cr f e pk rs now then DecideTunnel rest else DecideSite)
      | (Inl _, _) \<Rightarrow> Some DecideSite)"

lemma try_decode_auth_verdict:
  obtains st' where "try_decode_auth cr buf e pk rs now1 now2 st = Done (verdict cr e pk rs now1 buf, st')"
    "tunnels_admitted st' = tunnels_admitted st"
    "tunnels_after_second_read st' = tunnels_after_second_read st"
  using try_decode_auth_cases [of st cr buf e pk rs now1 now2] unfolding verdict_def by blast

lemma verdict_Tunnel:
  assumes "verdict cr e pk rs now buf = Some (DecideTunnel rest)"
  shows "\<exists>f pad. buf = wire f pad @ rest \<and> opens_gate cr f e pk rs now"
proof -
  from assms obtain f where "decode codec_new buf = (Inr (Some f), rest)" "opens_gate cr f e pk rs now"
    by (auto simp: verdict_def split: prod.splits sum.splits option.splits if_splits)
  then show ?thesis using decode_on_Some unfolding decode_def by blast
qed

lemma verdict_opens:
  assumes "opens_gate cr f e pk rs now" "fits codec_new f (length pad)"
  shows "verdict cr e pk rs now (wire f pad @ rest) = Some (DecideTunnel rest)"
  by (simp add: verdict_def decode_wire [OF codec_new_ok assms(2)] assms(1))

lemma verdict_prefix:
  assumes "fits codec_new f (length pad)" "buf @ ext = wire f pad" "ext \<noteq> []"
  shows "verdict cr e pk rs now buf = None"
  using decode_on_proper_prefix [OF usize_max_less codec_new_ok assms]
  by (simp add: verdict_def decode_def)

text \<open>A run that was not decided by its first read.\<close>

lemma gate_second_read:
  assumes "d1 \<noteq> []" "verdict cr e pk rs (now_unix (clock 0)) d1 = None"
  obtains
    (second) d2 rest dec st' where "reads = ReadData d2 # rest" "d2 \<noteq> []"
      "verdict cr e pk rs (now_unix (clock 2)) (d1 @ d2) = Some dec"
      "gate_stream cr e pk rs clock (ReadData d1 # reads) st =
         Done (Inr (fst (consume dec rest (d1 @ d2) st')), snd (consume dec rest (d1 @ d2) st'))"
      "tunnels_admitted st' = tunnels_admitted st"
      "tunnels_after_second_read st' = tunnels_after_second_read st + (if is_tunnel_decision dec then 1 else 0)"
  | (undecided) used rest st' where "reads = used @ rest" "length used \<le> 1"
      "gate_stream cr e pk rs clock (ReadData d1 # reads) st = Done (Inr (Site rest (d1 @ concat (map read_bytes used))), st')"
      "tunnels_admitted st' = tunnels_admitted st"
      "tunnels_after_second_read st' = tunnels_after_second_read st"
proof -
  obtain st1 where t1: "try_decode_auth cr d1 e pk rs (now_unix (clock 0)) (now_unix (clock 1)) st = Done (None, st1)"
    and s1: "tunnels_admitted st1 = tunnels_admitted st" "tunnels_after_second_read st1 = tunnels_after_second_read st"
    using try_decode_auth_verdict [of cr d1 e pk rs "now_unix (clock 0)" "now_unix (clock 1)" st] assms(2) by metis
  note run = gate_stream_def assms(1) Let_def
  consider "reads = []" | r rest where "reads = r # rest" "\<nexists>d. r = ReadData d \<and> d \<noteq> []"
    | d2 rest where "reads = ReadData d2 # rest" "d2 \<noteq> []"
    by (cases reads) auto
  then show thesis
  proof cases
    case 1
    then show ?thesis using s1 t1 by (intro undecided [of "[]" "[]" st1]) (simp_all add: run)
  next
    case 2
    then show ?thesis using s1 t1 by (intro undecided [of "[r]" rest st1]; cases r) (auto simp: run)
  next
    case 3
    obtain st2 where t2: "try_decode_auth cr (d1 @ d2) e pk rs (now_unix (clock 2)) (now_unix (clock 3)) st1
        = Done (verdict cr e pk rs (now_unix (clock 2)) (d1 @ d2), st2)"
      and s2: "tunnels_admitted st2 = tunnels_admitted st1" "tunnels_after_second_read st2 = tunnels_after_second_read st1"
      by (rule try_decode_auth_verdict)
    show ?thesis
    proof (cases "verdict cr e pk rs (now_unix (clock 2)) (d1 @ d2)")
      case None
      then show ?thesis using 3 s1 t1 t2 s2 by (intro undecided [of "[ReadData d2]" rest st2]) (simp_all add: run)
    next
      case (Some dec)
      let ?st = "if is_tunnel_decision dec then st2\<lparr>tunnels_after_second_read := tunnels_after_second_read st2 + 1\<rparr> else st2"
      show ?thesis using 3 s1 t1 t2 s2 Some
        by (intro second [of d2 rest dec ?st]) (simp_all add: run split: prod.splits)
    qed
  qed
qed

text \<open>Every run of the gate: how many reads it used, what it returned and what it counted.\<close>

lemma gate_stream_cases:
  obtains
    (failed) er rest where "stream = ReadErr er # rest"
      "gate_stream cr e pk rs clock stream st = Done (Inl er, st)"
  | (silent) rest where "stream = [] \<and> rest = [] \<or> stream = TimedOut # rest \<or> stream = ReadData [] # rest"
      "gate_stream cr e pk rs clock stream st = Done (Inr (Site rest []), st)"
  | (first) d rest dec st' where "stream = ReadData d # rest" "d \<noteq> []"
      "verdict cr e pk rs (now_unix (clock 0)) d = Some dec"
      "gate_stream cr e pk rs clock stream st = Done (Inr (fst (consume dec rest d st')), snd (consume dec rest d st'))"
      "tunnels_admitted st' = tunnels_admitted st"
      "tunnels_after_second_read st' = tunnels_after_second_read st"
  | (second) d1 d2 rest dec st' where "stream = ReadData d1 # ReadData d2 # rest" "d1 \<noteq> []" "d2 \<noteq> []"
      "verdict cr e pk rs (now_unix (clock 0)) d1 = None"
      "verdict cr e pk rs (now_unix (clock 2)) (d1 @ d2) = Some dec"
      "gate_stream cr e pk rs clock stream st =
         Done (Inr (fst (consume dec rest (d1 @ d2) st')), snd (consume dec rest (d1 @ d2) st'))"
      "tunnels_admitted st' = tunnels_admitted st"
      "tunnels_after_second_read st' = tunnels_after_second_read st + (if is_tunnel_decision dec then 1 else 0)"
  | (undecided) used rest st' where "stream = used @ rest" "length used \<le> 2"
      "gate_stream cr e pk rs clock stream st = Done (Inr (Site rest (concat (map read_bytes used))), st')"
      "tunnels_admitted st' = tunnels_admitted st"
      "tunnels_after_second_read st' = tunnels_after_second_read st"
proof -
  consider "stream = []" | er rest where "stream = ReadErr er # rest" | rest where "stream = TimedOut # rest"
    | rest where "stream = ReadData [] # rest" | d rest where "stream = ReadData d # rest" "d \<noteq> []"
    by (metis gate_read.exhaust list.exhaust)
  then show thesis
  proof cases
    case (2 er rest)
    then show ?thesis by (intro failed) (simp_all add: gate_stream_def)
  next
    case (5 d rest)
    show ?thesis
    proof (cases "verdict cr e pk rs (now_unix (clock 0)) d")
      case (Some dec)
      obtain st1 where "try_decode_auth cr d e pk rs (now_unix (clock 0)) (now_unix (clock 1)) st
          = Done (verdict cr e pk rs (now_unix (clock 0)) d, st1)"
        "tunnels_admitted st1 = tunnels_admitted st" "tunnels_after_second_read st1 = tunnels_after_second_read st"
        by (rule try_decode_auth_verdict)
      then show ?thesis using 5 Some
        by (intro first [of d rest dec st1]) (simp_all add: gate_stream_def split: prod.splits)
    next
      case None
      from 5(2) None show ?thesis
      proof (cases rule: gate_second_read [of d cr e pk rs clock rest st])
        case (second d2 rest2 dec st2)
        then show ?thesis using that(4) [of d d2 rest2 dec st2] 5 None by simp
      next
        case (undecided used rest2 st2)
        then show ?thesis using that(5) [of "ReadData d # used" rest2 st2] 5 by simp
      qed
    qed
  qed (rule silent [of "[]"] silent, simp_all add: gate_stream_def)+
qed

lemma gate_tunnel_reads:
  assumes "gate_stream cr e pk rs clock stream st = Done (Inr (Tunnel rest leftover), st')"
  shows "\<exists>used i f pad. stream = used @ rest \<and> length used \<le> 2
    \<and> concat (map read_bytes used) = wire f pad @ leftover
    \<and> opens_gate cr f e pk rs (now_unix (clock i))
    \<and> tunnels_admitted st' = tunnels_admitted st + 1"
proof (cases rule: gate_stream_cases [of stream cr e pk rs clock st])
  case (first d rest' dec st1)
  then have "dec = DecideTunnel leftover" "rest' = rest" "tunnels_admitted st' = tunnels_admitted st + 1"
    using assms by (auto simp: consume_def split: GateDecision.splits)
  with first verdict_Tunnel [of cr e pk rs "now_unix (clock 0)" d leftover] obtain f pad where
    "d = wire f pad @ leftover" "opens_gate cr f e pk rs (now_unix (clock 0))" by auto
  with first \<open>rest' = rest\<close> \<open>tunnels_admitted st' = _\<close> show ?thesis
    by (intro exI [of _ "[ReadData d]"] exI [of _ 0] exI [of _ f] exI [of _ pad]) simp
next
  case (second d1 d2 rest' dec st1)
  then have "dec = DecideTunnel leftover" "rest' = rest" "tunnels_admitted st' = tunnels_admitted st + 1"
    using assms by (auto simp: consume_def split: GateDecision.splits)
  with second verdict_Tunnel [of cr e pk rs "now_unix (clock 2)" "d1 @ d2" leftover] obtain f pad where
    "d1 @ d2 = wire f pad @ leftover" "opens_gate cr f e pk rs (now_unix (clock 2))" by auto
  with second \<open>rest' = rest\<close> \<open>tunnels_admitted st' = _\<close> show ?thesis
    by (intro exI [of _ "[ReadData d1, ReadData d2]"] exI [of _ 2] exI [of _ f] exI [of _ pad]) simp
qed (use assms in auto)

lemma gate_site_reads:
  assumes "gate_stream cr e pk rs clock stream st = Done (Inr (Site rest first_bytes), st')"
  shows "\<exists>used. stream = used @ rest \<and> length used \<le> 2 \<and> first_bytes = concat (map read_bytes used)
    \<and> tunnels_admitted st' = tunnels_admitted st"
proof (cases rule: gate_stream_cases [of stream cr e pk rs clock st])
  case (silent rest')
  have "rest' = rest" "first_bytes = []" "st' = st" using assms silent(2) by auto
  with silent(1) show ?thesis
    by (elim disjE) (auto intro: exI [of _ "[]"] exI [of _ "[TimedOut]"] exI [of _ "[ReadData []]"])
next
  case (first d rest' dec st1)
  then show ?thesis using assms
    by (intro exI [of _ "[ReadData d]"]) (auto simp: consume_def split: GateDecision.splits)
next
  case (second d1 d2 rest' dec st1)
  then show ?thesis using assms
    by (intro exI [of _ "[ReadData d1, ReadData d2]"]) (auto simp: consume_def split: GateDecision.splits)
qed (use assms in auto)

lemma gate_stream_error_iff:
  "gate_stream cr e pk rs clock stream st \<noteq> Panic"
  "(\<exists>st'. gate_stream cr e pk rs clock stream st = Done (Inl er, st')) \<longleftrightarrow> (\<exists>rest. stream = ReadErr er # rest)"
  by (cases rule: gate_stream_cases [of stream cr e pk rs clock st]; force simp: gate_stream_def)+

lemma gate_opens_one_read:
  assumes "opens_gate cr f e pk rs (now_unix (clock 0))" "fits codec_new f (length pad)"
  shows "\<exists>st'. gate_stream cr e pk rs clock (ReadData (wire f pad @ early) # rest) st =
      Done (Inr (Tunnel rest early), st')
    \<and> tunnels_admitted st' = tunnels_admitted st + 1
    \<and> tunnels_after_second_read st' = tunnels_after_second_read st"
proof -
  let ?d = "wire f pad @ early"
  obtain st1 where "try_decode_auth cr ?d e pk rs (now_unix (clock 0)) (now_unix (clock 1)) st
      = Done (verdict cr e pk rs (now_unix (clock 0)) ?d, st1)"
    "tunnels_admitted st1 = tunnels_admitted st"
    "tunnels_after_second_read st1 = tunnels_after_second_read st"
    by (rule try_decode_auth_verdict)
  then show ?thesis
    using verdict_opens [OF assms, of early] by (simp add: gate_stream_def consume_def)
qed

lemma gate_opens_two_reads:
  assumes "opens_gate cr f e pk rs (now_unix (clock 2))" "fits codec_new f (length pad)"
    and "d1 @ d2 = wire f pad @ early" "d1 \<noteq> []" "length d1 < length (wire f pad)"
  shows "\<exists>st'. gate_stream cr e pk rs clock (ReadData d1 # ReadData d2 # rest) st =
      Done (Inr (Tunnel rest early), st')
    \<and> tunnels_admitted st' = tunnels_admitted st + 1
    \<and> tunnels_after_second_read st' = tunnels_after_second_read st + 1"
proof -
  obtain ext where ext: "d1 @ ext = wire f pad" "d2 = ext @ early"
    using assms(3,5) by (auto simp: append_eq_append_conv2)
  have ne: "ext \<noteq> []" using assms(5) ext(1) by auto
  then have d2: "d2 \<noteq> []" using ext by simp
  obtain st1 where st1: "try_decode_auth cr d1 e pk rs (now_unix (clock 0)) (now_unix (clock 1)) st
      = Done (verdict cr e pk rs (now_unix (clock 0)) d1, st1)"
    "tunnels_admitted st1 = tunnels_admitted st"
    "tunnels_after_second_read st1 = tunnels_after_second_read st"
    by (rule try_decode_auth_verdict)
  obtain st2 where st2: "try_decode_auth cr (d1 @ d2) e pk rs (now_unix (clock 2)) (now_unix (clock 3)) st1
      = Done (verdict cr e pk rs (now_unix (clock 2)) (d1 @ d2), st2)"
    "tunnels_admitted st2 = tunnels_admitted st1"
    "tunnels_after_second_read st2 = tunnels_after_second_read st1"
    by (rule try_decode_auth_verdict)
  have v: "verdict cr e pk rs (now_unix (clock 0)) d1 = None"
    "verdict cr e pk rs (now_unix (clock 2)) (d1 @ d2) = Some (DecideTunnel early)"
    using verdict_prefix [OF assms(2) ext(1) ne] verdict_opens [OF assms(1,2), of early] assms(3)
    by simp_all
  show ?thesis
    using st1 st2 v assms(4) d2
    by (simp add: gate_stream_def consume_def is_tunnel_decision_def Let_def)
qed

text \<open>A concrete valid record, for the examples.\<close>

definition demo_record :: AuthRecordV2 where
  "demo_record = v2_from_capability demo_crypto
     \<lparr>ticket = demo_ticket, scope = [], sig = replicate 1 7 @ replicate 63 0\<rparr> [5]"

definition demo_auth_frame :: Frame where
  "demo_auth_frame = frame_auth_v2 (case v2_encode_payload demo_record of Done p \<Rightarrow> p | Panic \<Rightarrow> [])"

definition demo_stats :: GateStats where
  "demo_stats = \<lparr>invalid_auth_warn = warn_limiter_new, tunnels_after_second_read = 0,
     tunnels_admitted = 0, warnings = []\<rparr>"

lemma demo_record_payload:
  "v2_decode_payload (payload demo_auth_frame) = Done (Some demo_record)"
  "length (payload demo_auth_frame) = 162"
proof -
  have "\<exists>p. v2_encode_payload demo_record = Done p \<and> v2_decode_payload p = Done (Some demo_record)"
    by (rule v2.payload_roundtrip)
       (simp_all add: demo_record_def v2_from_capability_def cap_wf_def ticket_wf_def
         demo_ticket_def cap_len_defs from_ticket_def demo_crypto_def)
  then show "v2_decode_payload (payload demo_auth_frame) = Done (Some demo_record)"
    by (auto simp: demo_auth_frame_def frame_auth_v2_def)
  show "length (payload demo_auth_frame) = 162"
    by (simp add: demo_auth_frame_def frame_auth_v2_def v2_encode_payload_def cap_encode_def
        assert_encodable_scope_def demo_record_def v2_from_capability_def demo_ticket_def
        from_ticket_def demo_crypto_def)
qed

lemma demo_opens:
  "opens_gate demo_crypto demo_auth_frame [5] (7 # replicate 31 0) [] 15"
  "fits codec_new demo_auth_frame (length [])"
proof -
  have "v2_verify demo_crypto demo_record (7 # replicate 31 0) [] [5] 15"
    by (simp add: v2_verify_iff demo_record_def v2_from_capability_def demo_ticket_def
        cap_is_valid_at_def is_valid_at_def SUITE_CLASSIC_V1_def scope_matches_def
        cap_verify_signature_def demo_crypto_def replicate_add [symmetric])
  moreover have "is_auth_v2 demo_auth_frame" by (simp add: demo_auth_frame_def frame_kind_defs)
  ultimately show "opens_gate demo_crypto demo_auth_frame [5] (7 # replicate 31 0) [] 15"
    using demo_record_payload(1) by (auto simp: opens_gate_def)
  show "fits codec_new demo_auth_frame (length [])"
    by (simp add: fits_def demo_record_payload codec_new_def DEFAULT_MAX_PAYLOAD_def)
qed

section \<open>Properties of the gate\<close>

text \<open>(C10) The gate lets nobody in without a valid record: a tunnel means that the bytes of the one or
  two reads it made start with a complete AUTH v2 or v3 frame whose record verified at a clock
  reading of this call (window, suite, scope, issuer signature, session binding and, for v3, a
  user or relay role), and the tunnel is handed exactly the bytes that followed that frame.\<close>

theorem gate_admits_only_verified_records:
  assumes "gate_stream cr e pk rs clock stream st = Done (Inr (Tunnel rest leftover), st')"
  shows "\<exists>used i f pad. stream = used @ rest \<and> length used \<le> 2
    \<and> concat (map read_bytes used) = wire f pad @ leftover
    \<and> (is_auth_v2 f \<and> (\<exists>r. v2_decode_payload (payload f) = Done (Some r)
          \<and> v2_verify cr r pk rs e (now_unix (clock i)))
       \<or> is_auth_v3 f \<and> (\<exists>r. v3_decode_payload (payload f) = Done (Some r)
          \<and> role (v3_capability r) \<in> {ROLE_USER, ROLE_RELAY}
          \<and> v3_verify cr r pk rs (role (v3_capability r)) e (now_unix (clock i))))"
  using gate_tunnel_reads [OF assms] unfolding opens_gate_def by blast

theorem gate_admits_only_verified_records_witness:
  "\<exists>used i f pad. [ReadData (wire demo_auth_frame [] @ [1, 2])] = used @ []
    \<and> concat (map read_bytes used) = wire f pad @ [1, 2]
    \<and> (is_auth_v2 f \<and> (\<exists>r. v2_decode_payload (payload f) = Done (Some r)
          \<and> v2_verify demo_crypto r (7 # replicate 31 0) [] [5] (now_unix (Some 15)))
       \<or> is_auth_v3 f)"
proof -
  have "opens_gate demo_crypto demo_auth_frame [5] (7 # replicate 31 0) [] (now_unix ((\<lambda>_. Some 15) 0))"
    using demo_opens(1) by (simp add: now_unix_def)
  from gate_opens_one_read [where clock = "\<lambda>_. Some 15", OF this demo_opens(2), of "[1, 2]" "[]" demo_stats]
  obtain st' where "gate_stream demo_crypto [5] (7 # replicate 31 0) [] (\<lambda>_. Some 15)
      (ReadData (wire demo_auth_frame [] @ [1, 2]) # []) demo_stats = Done (Inr (Tunnel [] [1, 2]), st')"
    by blast
  from gate_admits_only_verified_records [OF this] show ?thesis by blast
qed

text \<open>(C26) A connection that is not admitted reaches the cover site unchanged: whenever the gate routes
  to the site, the bytes it passes on are exactly the bytes it read, in order; it never panics; and
  it reports an error only if the very first read failed.\<close>

theorem gate_site_sees_all_bytes:
  "(gate_stream cr e pk rs clock stream st = Done (Inr (Site rest first_bytes), st')
     \<longrightarrow> (\<exists>used. stream = used @ rest \<and> length used \<le> 2 \<and> first_bytes = concat (map read_bytes used)))
   \<and> gate_stream cr e pk rs clock stream st \<noteq> Panic
   \<and> ((\<exists>st'. gate_stream cr e pk rs clock stream st = Done (Inl er, st')) \<longleftrightarrow> (\<exists>rs'. stream = ReadErr er # rs'))"
  using gate_site_reads [of cr e pk rs clock stream st rest first_bytes st'] gate_stream_error_iff
  by blast

theorem gate_site_sees_all_bytes_witness:
  "\<exists>st'. gate_stream demo_crypto [5] [7] [] (\<lambda>_. Some 15) [ReadData [71, 69], TimedOut]
      \<lparr>invalid_auth_warn = warn_limiter_new, tunnels_after_second_read = 0, tunnels_admitted = 0,
       warnings = []\<rparr> = Done (Inr (Site [TimedOut] [71, 69]), st')
    \<and> (\<exists>used. [ReadData [71, 69], TimedOut] = used @ [TimedOut]
          \<and> [71, 69] = concat (map read_bytes used))"
proof -
  let ?st = "\<lparr>invalid_auth_warn = warn_limiter_new, tunnels_after_second_read = 0,
    tunnels_admitted = 0, warnings = []\<rparr>"
  have g: "gate_stream demo_crypto [5] [7] [] (\<lambda>_. Some 15) [ReadData [71, 69], TimedOut] ?st =
      Done (Inr (Site [TimedOut] [71, 69]), ?st)"
    by (simp add: gate_stream_def try_decode_auth_def decode_def decode_on_def WIRE_VER_def consume_def)
  with gate_site_sees_all_bytes [of demo_crypto "[5]" "[7]" "[]" "\<lambda>_. Some 15"
      "[ReadData [71, 69], TimedOut]" ?st "[TimedOut]" "[71, 69]" ?st]
  show ?thesis by blast
qed

text \<open>The gate opens for a valid record however the connection delivers it in up to two reads: with
  the whole frame in the first read, or with the frame split anywhere across two, it returns a tunnel
  whose leftover is exactly what followed the frame, and the second-read counter moves only in the
  split case.\<close>

theorem gate_opens_for_valid_record:
  assumes "opens_gate cr f e pk rs (now_unix (clock 0))" "opens_gate cr f e pk rs (now_unix (clock 2))"
    and "fits codec_new f (length pad)"
  shows "(\<exists>st'. gate_stream cr e pk rs clock (ReadData (wire f pad @ early) # rest) st =
          Done (Inr (Tunnel rest early), st')
        \<and> tunnels_after_second_read st' = tunnels_after_second_read st)
    \<and> (d1 @ d2 = wire f pad @ early \<and> d1 \<noteq> [] \<and> length d1 < length (wire f pad) \<longrightarrow>
        (\<exists>st'. gate_stream cr e pk rs clock (ReadData d1 # ReadData d2 # rest) st =
            Done (Inr (Tunnel rest early), st')
          \<and> tunnels_after_second_read st' = tunnels_after_second_read st + 1))"
  using gate_opens_one_read [where clock = clock, OF assms(1,3), of early rest st]
    gate_opens_two_reads [where clock = clock, OF assms(2,3), of d1 d2 early rest st] by blast

theorem gate_opens_for_valid_record_witness:
  "\<exists>st'. gate_stream demo_crypto [5] (7 # replicate 31 0) [] (\<lambda>_. Some 15)
      (ReadData (wire demo_auth_frame [] @ [1, 2]) # []) demo_stats = Done (Inr (Tunnel [] [1, 2]), st')"
proof -
  have "opens_gate demo_crypto demo_auth_frame [5] (7 # replicate 31 0) [] (now_unix ((\<lambda>_. Some 15) i))"
    for i :: nat using demo_opens(1) by (simp add: now_unix_def)
  from gate_opens_for_valid_record [where clock = "\<lambda>_. Some 15", OF this this demo_opens(2)]
  show ?thesis by blast
qed

section \<open>The limiter under concurrency\<close>

lemma rtranclp_three: "R a b \<Longrightarrow> R b c \<Longrightarrow> R c d \<Longrightarrow> R\<^sup>*\<^sup>* a d"
  by (rule converse_rtranclp_into_rtranclp, assumption)+ simp

text \<open>A thread inside \<^verbatim>\<open>admit\<close> has loaded the last time, or lost and will count itself as suppressed,
  or won the slot and will collect the count.  The state keeps, beside the two atomics, the threads,
  the warnings emitted, and for the statements the times at which a slot was won and the number of
  calls that gave up.\<close>

datatype warn_thread = Loaded u64 u64 | Lost | Won

record warn_state =
  limiter :: WarnLimiter
  threads :: "warn_thread list"
  emitted :: "u64 list"
  wins :: "u64 list"
  denied :: nat

definition warn_init :: warn_state where
  "warn_init = \<lparr>limiter = warn_limiter_new, threads = [], emitted = [], wins = [], denied = 0\<rparr>"

inductive warn_step :: "warn_state \<Rightarrow> warn_state \<Rightarrow> bool" where
  load: "warn_step s (s\<lparr>threads := Loaded (wl_last (limiter s)) now # threads s\<rparr>)"
| window: "threads s = xs @ Loaded seen now # ys \<Longrightarrow> in_window seen now \<Longrightarrow>
    warn_step s (s\<lparr>threads := xs @ Lost # ys\<rparr>)"
| cas_fail: "threads s = xs @ Loaded seen now # ys \<Longrightarrow> \<not> in_window seen now \<Longrightarrow>
    wl_last (limiter s) \<noteq> seen \<Longrightarrow> warn_step s (s\<lparr>threads := xs @ Lost # ys\<rparr>)"
| cas_ok: "threads s = xs @ Loaded seen now # ys \<Longrightarrow> \<not> in_window seen now \<Longrightarrow>
    wl_last (limiter s) = seen \<Longrightarrow>
    warn_step s (s\<lparr>threads := xs @ Won # ys, limiter := (limiter s)\<lparr>wl_last := max now 1\<rparr>,
      wins := wins s @ [max now 1]\<rparr>)"
| fetch_add: "threads s = xs @ Lost # ys \<Longrightarrow>
    warn_step s (s\<lparr>threads := xs @ ys, denied := denied s + 1,
      limiter := (limiter s)\<lparr>wl_suppressed := wl_suppressed (limiter s) + 1\<rparr>\<rparr>)"
| swap: "threads s = xs @ Won # ys \<Longrightarrow>
    warn_step s (s\<lparr>threads := xs @ ys, emitted := emitted s @ [wl_suppressed (limiter s)],
      limiter := (limiter s)\<lparr>wl_suppressed := 0\<rparr>\<rparr>)"

definition warn_inv :: "warn_state \<Rightarrow> bool" where
  "warn_inv s \<longleftrightarrow>
     wl_last (limiter s) = (if wins s = [] then 0 else last (wins s))
     \<and> (\<forall>w\<in>set (wins s). 1 \<le> w)
     \<and> sorted_wrt (\<lambda>a b. unat a + 60 \<le> unat b) (wins s)
     \<and> sum_list (emitted s) + wl_suppressed (limiter s) = of_nat (denied s)
     \<and> length (emitted s) + count_list (threads s) Won = length (wins s)"

lemma not_in_window:
  assumes "\<not> in_window seen now" "seen \<noteq> 0"
  shows "unat seen + 60 \<le> unat (max now 1)"
proof -
  have "seen \<le> now" "60 \<le> now - seen"
    using assms by (auto simp: in_window_def saturating_sub_def INVALID_AUTH_WARN_EVERY_def
        split: if_splits)
  then have "60 \<le> unat (now - seen)" "unat (now - seen) = unat now - unat seen" "unat seen \<le> unat now"
    by (simp_all add: word_le_nat_alt unat_sub)
  moreover have "unat now \<le> unat (max now 1)" by (simp add: max_def word_le_nat_alt)
  ultimately show ?thesis by linarith
qed

lemma sorted_wins_snoc:
  assumes "sorted_wrt (\<lambda>a b. unat a + 60 \<le> unat b) ws" "ws \<noteq> []" "unat (last ws) + 60 \<le> unat (w :: u64)"
  shows "sorted_wrt (\<lambda>a b. unat a + 60 \<le> unat b) (ws @ [w])"
proof -
  obtain ys y where ws: "ws = ys @ [y]" using assms(2) by (cases ws rule: rev_exhaust) auto
  then show ?thesis using assms(1,3) by (fastforce simp: sorted_wrt_append)
qed

lemma warn_step_inv: "warn_step s s' \<Longrightarrow> warn_inv s \<Longrightarrow> warn_inv s'"
proof (induction rule: warn_step.induct)
  case (cas_ok s xs seen now ys)
  have one: "1 \<le> max now 1" by (rule max.cobounded2)
  have "sorted_wrt (\<lambda>a b. unat a + 60 \<le> unat b) (wins s @ [max now 1])"
  proof (cases "wins s = []")
    case False
    then have "seen = last (wins s)" "1 \<le> last (wins s)" using cas_ok by (auto simp: warn_inv_def)
    then have "seen \<noteq> 0" by auto
    from not_in_window [OF cas_ok(2) this] show ?thesis
      using cas_ok False \<open>seen = _\<close> by (intro sorted_wins_snoc) (auto simp: warn_inv_def)
  qed simp
  then show ?case using cas_ok one by (simp add: warn_inv_def)
qed (auto simp: warn_inv_def algebra_simps)

lemma warn_init_inv: "warn_inv warn_init"
  by (simp add: warn_init_def warn_inv_def warn_limiter_new_def)

lemma warn_reach_inv: "warn_step\<^sup>*\<^sup>* warn_init s \<Longrightarrow> warn_inv s"
  by (induction rule: rtranclp_induct) (simp_all add: warn_init_inv warn_step_inv)



text \<open>An uninterrupted call is the three steps of one thread, with the same answer.\<close>

lemma admit_refines_steps:
  "admit now wl = (r, wl') \<Longrightarrow> limiter s = wl \<Longrightarrow> threads s = [] \<Longrightarrow>
   \<exists>s'. warn_step\<^sup>*\<^sup>* s s' \<and> limiter s' = wl' \<and> threads s' = []
     \<and> emitted s' = emitted s @ (case r of Some n \<Rightarrow> [n] | None \<Rightarrow> [])"
proof -
  assume a: "admit now wl = (r, wl')" and l: "limiter s = wl" and t: "threads s = []"
  let ?s1 = "s\<lparr>threads := [Loaded (wl_last wl) now]\<rparr>"
  have s1: "warn_step s ?s1" using warn_step.load [of s now] l t by simp
  show ?thesis
  proof (cases "in_window (wl_last wl) now")
    case True
    let ?s2 = "?s1\<lparr>threads := [Lost]\<rparr>"
    have s2: "warn_step ?s1 ?s2" using warn_step.window [of ?s1 "[]" _ _ "[]"] True by simp
    have s3: "warn_step ?s2 (?s2\<lparr>threads := [], denied := denied s + 1,
        limiter := wl\<lparr>wl_suppressed := wl_suppressed wl + 1\<rparr>\<rparr>)"
      using warn_step.fetch_add [of ?s2 "[]" "[]"] l by simp
    show ?thesis
      by (intro exI conjI, rule rtranclp_three [of warn_step, OF s1 s2 s3])
         (use a True in \<open>auto simp: admit_def admit_from_def\<close>)
  next
    case False
    let ?s2 = "?s1\<lparr>threads := [Won], limiter := wl\<lparr>wl_last := max now 1\<rparr>, wins := wins s @ [max now 1]\<rparr>"
    have s2: "warn_step ?s1 ?s2" using warn_step.cas_ok [of ?s1 "[]" _ _ "[]"] False l by simp
    have s3: "warn_step ?s2 (?s2\<lparr>threads := [], emitted := emitted s @ [wl_suppressed wl],
        limiter := wl\<lparr>wl_last := max now 1, wl_suppressed := 0\<rparr>\<rparr>)"
      using warn_step.swap [of ?s2 "[]" "[]"] by simp
    show ?thesis
      by (intro exI conjI, rule rtranclp_three [of warn_step, OF s1 s2 s3])
         (use a False in \<open>auto simp: admit_def admit_from_def\<close>)
  qed
qed

end
