(* ===== verification/Chain.thy ===== *)
theory Chain
  imports Tunnel Gate
begin

text \<open>Relay chaining (\<^verbatim>\<open>src/crates/construct-veil-relay/src/chain.rs\<close>): a relay that forwards an
  admitted tunnel to an upstream relay instead of a backend.  It authenticates to the upstream with
  its own relay capability, then re-frames DATA payloads in both directions so that no frame of one
  hop crosses to the other.

  What the network and the TLS library answer during the dial is the record \<^verbatim>\<open>dial_env\<close>; base64 is a
  parameter.\<close>

section \<open>Dialing the upstream\<close>

record ChainConfig =
  upstream_addr :: string
  upstream_sni :: string
  upstream_spki_hex :: string
  capability_v2_b64 :: string
  chain_veil_sk :: bytes

datatype ChainError = ChainIo io_error | ChainTls string | ChainCapability string

record dial_env =
  de_connect :: "(io_error + unit) option"
  de_nodelay :: "io_error + unit"
  de_connector :: "string + unit"
  de_handshake :: "string + unit"
  de_exporter :: "string + bytes"

text \<open>The stream the dial returns is its write half, which now holds the AUTH frame.\<close>

definition dial_upstream_unbounded ::
  "crypto \<Rightarrow> (string \<Rightarrow> bytes option) \<Rightarrow> ChainConfig \<Rightarrow> dial_env \<Rightarrow> writer \<Rightarrow> (ChainError + writer) exec" where
  "dial_upstream_unbounded cr b64 cfg env w =
     (case b64 (capability_v2_b64 cfg) of
        None \<Rightarrow> Done (Inl (ChainCapability ''base64 decode''))
      | Some raw \<Rightarrow>
          exec_bind (cap2_decode_slice raw) (\<lambda>cap.
          case cap of
            None \<Rightarrow> Done (Inl (ChainCapability ''malformed CapabilityV2 blob''))
          | Some c \<Rightarrow>
              (case de_connect env of
                 None \<Rightarrow> Done (Inl (ChainIo (IoError KTimedOut [])))
               | Some (Inl e) \<Rightarrow> Done (Inl (ChainIo e))
               | Some (Inr _) \<Rightarrow>
                   (case de_nodelay env of
                      Inl e \<Rightarrow> Done (Inl (ChainIo e))
                    | Inr _ \<Rightarrow>
                        (case de_connector env of
                           Inl m \<Rightarrow> Done (Inl (ChainTls m))
                         | Inr _ \<Rightarrow>
                             (case de_handshake env of
                                Inl m \<Rightarrow> Done (Inl (ChainTls m))
                              | Inr _ \<Rightarrow>
                                  (case de_exporter env of
                                     Inl m \<Rightarrow> Done (Inl (ChainTls m))
                                   | Inr exporter \<Rightarrow>
                                       exec_bind (v3_encode_payload
                                         (v3_from_capability cr c (chain_veil_sk cfg) exporter)) (\<lambda>p.
                                       case send_frame padded_codec (frame_auth_v3 p) w of
                                         (Inl e, _) \<Rightarrow> Done (Inl (ChainIo e))
                                       | (Inr _, w) \<Rightarrow>
                                           (case write_op Flush w of
                                              (Inl e, _) \<Rightarrow> Done (Inl (ChainIo e))
                                            | (Inr _, w) \<Rightarrow> Done (Inr w))))))))))"

text \<open>\<^verbatim>\<open>late\<close>: the dial took longer than the limit.\<close>

definition dial_upstream_within ::
  "bool \<Rightarrow> crypto \<Rightarrow> (string \<Rightarrow> bytes option) \<Rightarrow> ChainConfig \<Rightarrow> dial_env \<Rightarrow> writer \<Rightarrow> (ChainError + writer) exec" where
  "dial_upstream_within late cr b64 cfg env w =
     (if late then Done (Inl (ChainIo (IoError KTimedOut [])))
      else dial_upstream_unbounded cr b64 cfg env w)"

section \<open>Client to upstream\<close>

text \<open>The inner loop of both directions: decode, count, re-frame DATA, drop everything else.\<close>

function chain_drain ::
  "bytes \<Rightarrow> writer \<Rightarrow> u64 \<Rightarrow> bool \<Rightarrow> (io_error + bytes \<times> bool) \<times> writer \<times> u64" where
  "chain_drain buf wr n wrote =
     (case decode codec_new buf of
        (Inl e, _) \<Rightarrow> (Inl (frame_io e), wr, n)
      | (Inr None, buf') \<Rightarrow> (Inr (buf', wrote), wr, n)
      | (Inr (Some frame), buf') \<Rightarrow>
          if frame_type frame = FRAME_TYPE_DATA then
            let n = n + of_nat (length (payload frame)) in
            (case send_frame padded_codec (frame_data (payload frame)) wr of
               (Inl e, wr') \<Rightarrow> (Inl e, wr', n)
             | (Inr _, wr') \<Rightarrow> chain_drain buf' wr' n True)
          else if frame_type frame = FRAME_TYPE_CHAFF
          then chain_drain buf' wr n wrote
          else chain_drain buf' wr n wrote)"
  by pat_completeness auto

termination chain_drain
  by (relation "measure (length \<circ> fst)") (auto dest: decode_shrinks [OF sym])

declare chain_drain.simps [simp del]

fun ferry_client_to_upstream ::
  "read_event list \<Rightarrow> bytes \<Rightarrow> writer \<Rightarrow> u64 \<Rightarrow> task_end \<times> writer \<times> u64" where
  "ferry_client_to_upstream client_rd buf upstream_wr n =
     (case chain_drain buf upstream_wr n False of
        (Inl e, upstream_wr, n) \<Rightarrow> (Failed e, upstream_wr, n)
      | (Inr (buf, wrote), upstream_wr, n) \<Rightarrow>
          (case (if wrote then write_op Flush upstream_wr else (Inr (), upstream_wr)) of
             (Inl e, upstream_wr) \<Rightarrow> (Failed e, upstream_wr, n)
           | (Inr _, upstream_wr) \<Rightarrow>
               (case client_rd of
                  [] \<Rightarrow> (Blocked buf, upstream_wr, n)
                | RFail e # _ \<Rightarrow> (Failed e, upstream_wr, n)
                | RData d # client_rd' \<Rightarrow>
                    if d = [] then
                      (case write_op Shutdown upstream_wr of
                         (Inl e, upstream_wr) \<Rightarrow> (Failed e, upstream_wr, n)
                       | (Inr _, upstream_wr) \<Rightarrow> (Returned, upstream_wr, n))
                    else ferry_client_to_upstream client_rd' (buf @ d) upstream_wr n)))"

declare ferry_client_to_upstream.simps [simp del]

definition reframe :: "bytes \<Rightarrow> bytes" where
  "reframe p = frame_bytes padded_codec (frame_data p)"

interpretation chain: pump_loop reframe True chain_drain ferry_client_to_upstream
proof
  fix buf w n wrote
  show "chain_drain buf w n wrote =
    (case decode codec_new buf of
       (Inl e, _) \<Rightarrow> (Inl (frame_io e), w, n)
     | (Inr None, buf') \<Rightarrow> (Inr (buf', wrote), w, n)
     | (Inr (Some f), buf') \<Rightarrow>
         if is_data f then
           let n' = n + of_nat (length (payload f)) in
           (case write_op (Write (reframe (payload f))) w of
              (Inl er, w') \<Rightarrow> (Inl er, w', if True then n' else n)
            | (Inr _, w') \<Rightarrow> chain_drain buf' w' n' True)
         else chain_drain buf' w n wrote)"
    by (simp add: chain_drain.simps [of buf] is_data_def Let_def send_frame_def encode_eq reframe_def
        split: prod.splits sum.splits option.splits)
next
  fix reads buf w n
  show "ferry_client_to_upstream reads buf w n =
    (case chain_drain buf w n False of
       (Inl e, w, n) \<Rightarrow> (Failed e, w, n)
     | (Inr (buf, wrote), w, n) \<Rightarrow>
         (case (if wrote then write_op Flush w else (Inr (), w)) of
            (Inl e, w) \<Rightarrow> (Failed e, w, n)
          | (Inr _, w) \<Rightarrow>
              (case reads of
                 [] \<Rightarrow> (Blocked buf, w, n)
               | RFail e # _ \<Rightarrow> (Failed e, w, n)
               | RData d # reads' \<Rightarrow>
                   if d = [] then
                     (case write_op Shutdown w of
                        (Inl e, w) \<Rightarrow> (Failed e, w, n)
                      | (Inr _, w) \<Rightarrow> (Returned, w, n))
                   else ferry_client_to_upstream reads' (buf @ d) w n)))"
    by (rule ferry_client_to_upstream.simps)
qed

section \<open>Upstream to client\<close>

fun ferry_upstream_to_client ::
  "'s rng \<Rightarrow> nat \<Rightarrow> (nat \<times> timed_event) list \<Rightarrow> bytes \<Rightarrow> 's \<Rightarrow> writer \<Rightarrow> u64 \<Rightarrow> u64 \<Rightarrow>
     task_end \<times> 's \<times> writer \<times> u64 \<times> u64" where
  "ferry_upstream_to_client g window [] buf s client_wr n chaff = (Blocked buf, s, client_wr, n, chaff)"
| "ferry_upstream_to_client g window ((elapsed, ev) # evs) buf s client_wr n chaff =
     (case ev of
        IdleTick \<Rightarrow>
          if elapsed < window then
            (let (c, s) = random_chaff g s in
             (case send_frame padded_codec (frame_chaff c) client_wr of
                (Inl e, client_wr) \<Rightarrow> (Failed e, s, client_wr, n, chaff)
              | (Inr len, client_wr) \<Rightarrow>
                  ferry_upstream_to_client g window evs buf s client_wr n (chaff + of_nat len)))
          else ferry_upstream_to_client g window evs buf s client_wr n chaff
      | Arrives (RFail e) \<Rightarrow> (Failed e, s, client_wr, n, chaff)
      | Arrives (RData d) \<Rightarrow>
          if d = [] then
            (case write_op Shutdown client_wr of
               (Inl e, client_wr) \<Rightarrow> (Failed e, s, client_wr, n, chaff)
             | (Inr _, client_wr) \<Rightarrow> (Returned, s, client_wr, n, chaff))
          else
            (case chain_drain (buf @ d) client_wr n False of
               (Inl e, client_wr, n) \<Rightarrow> (Failed e, s, client_wr, n, chaff)
             | (Inr (buf, wrote), client_wr, n) \<Rightarrow>
                 (case (if wrote then write_op Flush client_wr else (Inr (), client_wr)) of
                    (Inl e, client_wr) \<Rightarrow> (Failed e, s, client_wr, n, chaff)
                  | (Inr _, client_wr) \<Rightarrow>
                      ferry_upstream_to_client g window evs buf s client_wr n chaff)))"

section \<open>The chained tunnel\<close>

definition forward_chain ::
  "'s rng \<Rightarrow> 's \<Rightarrow> bool \<Rightarrow> read_event list \<Rightarrow> bytes \<Rightarrow> (nat \<times> timed_event) list \<Rightarrow> writer \<Rightarrow> writer \<Rightarrow>
     tunnel_run" where
  "forward_chain g s up_first client_rd leftover upstream_rd client_wr upstream_wr =
     (let (up, upstream_wr, up_bytes) = ferry_client_to_upstream client_rd leftover upstream_wr 0;
          (down, s, client_wr, down_bytes, chaff_bytes) =
            ferry_upstream_to_client g IDLE_CHAFF_WINDOW_ms upstream_rd [] s client_wr 0 0
      in \<lparr>tr_result = map_option tunnel_result (try_join up_first up down),
          tr_client = client_wr, tr_backend = upstream_wr,
          tr_up = up_bytes, tr_down = down_bytes, tr_chaff = chaff_bytes\<rparr>)"

section \<open>What crosses the hop\<close>

lemma drained_payload_bound:
  "drain_frames codec_new buf = (fs, e, r) \<Longrightarrow> f \<in> set fs \<Longrightarrow> length (payload f) \<le> max_payload codec_new"
proof (induction "length buf" arbitrary: buf fs rule: less_induct)
  case less
  show ?case
  proof (cases "\<exists>g b'. decode codec_new buf = (Inr (Some g), b')")
    case False
    then show ?thesis using less.prems
      by (auto simp: drain_frames.simps [of codec_new buf] split: prod.splits sum.splits option.splits)
  next
    case True
    then obtain g b' where g: "decode codec_new buf = (Inr (Some g), b')" by blast
    then have "length (payload g) \<le> max_payload codec_new"
      using decode_on_Some unfolding decode_def fits_def by blast
    moreover obtain gs where "drain_frames codec_new b' = (gs, e, r)" "fs = g # gs"
      using less.prems(1) by (auto simp: drain_frames.simps [of codec_new buf] g split: prod.splits)
    ultimately show ?thesis using less.hyps [OF decode_shrinks [OF g]] less.prems(2) by auto
  qed
qed

lemma reframed_stream:
  assumes "\<forall>p\<in>set ps. length p \<le> max_payload codec_new"
  shows "drain_frames codec_new (concat (map reframe ps)) = (map frame_data ps, None, [])"
  using drain_padded [of "map frame_data ps"] assms by (simp add: reframe_def [abs_def] o_def)

lemma data_payloads_bound:
  "drain_frames codec_new buf = (fs, e, r) \<Longrightarrow> p \<in> set (data_payloads fs) \<Longrightarrow> length p \<le> max_payload codec_new"
  using drained_payload_bound by (auto simp: data_payloads_def)

lemma data_payloads_frame_data [simp]: "data_payloads (map frame_data ps) = ps"
  by (induction ps) simp_all

lemma drain_split_ok:
  assumes "drain_frames codec_new (x @ y) = (fs, None, r)"
  obtains fs1 r1 fs2 where "drain_frames codec_new x = (fs1, None, r1)"
    "drain_frames codec_new (r1 @ y) = (fs2, None, r)" "fs = fs1 @ fs2"
proof -
  obtain fs1 e1 r1 where d: "drain_frames codec_new x = (fs1, e1, r1)" by (metis prod_cases3)
  have "e1 = None" using codec.drain_extend [OF d, of y] assms by (cases e1) auto
  moreover obtain fs2 where "drain_frames codec_new (r1 @ y) = (fs2, None, r)" "fs = fs1 @ fs2"
    using codec.drain_extend [OF d, of y] assms \<open>e1 = None\<close> by (auto split: prod.splits)
  ultimately show ?thesis using that d by blast
qed

text \<open>The run of the downstream loop over working streams, for frames \<open>fs\<close> that arrive and a rest \<open>r\<close>: it writes
  the DATA payloads, re-framed, and one chaff frame for each idle tick inside the window.\<close>

definition down_runs ::
  "'s rng \<Rightarrow> nat \<Rightarrow> (nat \<times> timed_event) list \<Rightarrow> bytes \<Rightarrow> 's \<Rightarrow> writer \<Rightarrow> u64 \<Rightarrow> u64 \<Rightarrow> Frame list \<Rightarrow> bytes \<Rightarrow> bool" where
  "down_runs g window evs buf s w n chaff fs r \<longleftrightarrow>
     (\<exists>frames as s'. written as = concat (map (frame_bytes padded_codec) frames)
    \<and> data_payloads frames = data_payloads fs
    \<and> (\<forall>f\<in>set frames. (is_data f \<or> is_chaff f) \<and> length (payload f) \<le> max_payload codec_new)
    \<and> length (filter is_chaff frames) = idle_ticks window evs
    \<and> ferry_upstream_to_client g window evs buf s w n chaff =
        ((case timed_ends evs of Quiet \<Rightarrow> Blocked r | Eof \<Rightarrow> Returned | Broken er \<Rightarrow> Failed er), s',
         w\<lparr>acts := acts w @ as\<rparr>, n + of_nat (length (concat (data_payloads fs))),
         chaff + of_nat (length (concat (map (frame_bytes padded_codec) (filter is_chaff frames))))))"

lemma down_runs_tick:
  fixes g :: "'s rng"
  defines "f \<equiv> \<lambda>s. frame_chaff (fst (random_chaff g s))"
  assumes "rng_ok g" "faultless w" "t < window"
    and "down_runs g window evs buf (snd (random_chaff g s)) (w\<lparr>acts := acts w @ [Write (frame_bytes padded_codec (f s))]\<rparr>) n
      (chaff + of_nat (length (frame_bytes padded_codec (f s)))) fs r"
  shows "down_runs g window ((t, IdleTick) # evs) buf s w n chaff fs r"
proof -
  have "length (fst (random_chaff g s)) \<le> max_payload codec_new"
    using length_random_chaff [OF assms(2), of s] by (simp add: codec_new_def DEFAULT_MAX_PAYLOAD_def)
  moreover obtain frames as s' where IH: "written as = concat (map (frame_bytes padded_codec) frames)"
    "data_payloads frames = data_payloads fs"
    "\<forall>f\<in>set frames. (is_data f \<or> is_chaff f) \<and> length (payload f) \<le> max_payload codec_new"
    "length (filter is_chaff frames) = idle_ticks window evs"
    "ferry_upstream_to_client g window evs buf (snd (random_chaff g s)) (w\<lparr>acts := acts w @ [Write (frame_bytes padded_codec (f s))]\<rparr>) n
        (chaff + of_nat (length (frame_bytes padded_codec (f s)))) =
      ((case timed_ends evs of Quiet \<Rightarrow> Blocked r | Eof \<Rightarrow> Returned | Broken er \<Rightarrow> Failed er), s',
       w\<lparr>acts := (acts w @ [Write (frame_bytes padded_codec (f s))]) @ as\<rparr>, n + of_nat (length (concat (data_payloads fs))),
       chaff + of_nat (length (frame_bytes padded_codec (f s)))
         + of_nat (length (concat (map (frame_bytes padded_codec) (filter is_chaff frames)))))"
    using assms(5) unfolding down_runs_def by auto
  ultimately show ?thesis
    unfolding down_runs_def using assms(3,4)
    by (intro exI [of _ "f s # frames"] exI [of _ "Write (frame_bytes padded_codec (f s)) # as"] exI [of _ s'])
       (auto simp: f_def send_frame_ok split: prod.splits)
qed

lemma down_runs_end:
  assumes "faultless w" "\<nexists>d. q = RData d \<and> d \<noteq> []"
  shows "down_runs g window ((t, Arrives q) # evs) buf s w n chaff [] r"
proof (cases q)
  case (RFail er)
  then show ?thesis unfolding down_runs_def by (intro exI [of _ "[]"] exI [of _ "[]"] exI [of _ s]) simp
next
  case (RData d)
  then show ?thesis using assms unfolding down_runs_def
    by (intro exI [of _ "[]"] exI [of _ "[Shutdown]"] exI [of _ s]) (simp add: write_op_ok)
qed

text \<open>What one read adds: the payloads of its complete frames, and a flush when there are any.\<close>

definition down_acts :: "Frame list \<Rightarrow> write_act list" where
  "down_acts fs = map (\<lambda>p. Write (reframe p)) (data_payloads fs) @ (if data_payloads fs = [] then [] else [Flush])"

lemma down_runs_data:
  assumes "faultless w" "d \<noteq> []" "drain_frames codec_new (buf @ d) = (fs1, None, r1)"
    and "down_runs g window evs r1 s (w\<lparr>acts := acts w @ down_acts fs1\<rparr>) (n + of_nat (length (concat (data_payloads fs1)))) chaff fs2 r"
  shows "down_runs g window ((t, Arrives (RData d)) # evs) buf s w n chaff (fs1 @ fs2) r"
proof -
  obtain frames as s' where IH: "written as = concat (map (frame_bytes padded_codec) frames)"
    "data_payloads frames = data_payloads fs2"
    "\<forall>f\<in>set frames. (is_data f \<or> is_chaff f) \<and> length (payload f) \<le> max_payload codec_new"
    "length (filter is_chaff frames) = idle_ticks window evs"
    "ferry_upstream_to_client g window evs r1 s (w\<lparr>acts := acts w @ down_acts fs1\<rparr>)
        (n + of_nat (length (concat (data_payloads fs1)))) chaff =
      ((case timed_ends evs of Quiet \<Rightarrow> Blocked r | Eof \<Rightarrow> Returned | Broken er \<Rightarrow> Failed er), s',
       w\<lparr>acts := (acts w @ down_acts fs1) @ as\<rparr>, n + of_nat (length (concat (data_payloads fs1)))
         + of_nat (length (concat (data_payloads fs2))),
       chaff + of_nat (length (concat (map (frame_bytes padded_codec) (filter is_chaff frames)))))"
    using assms(4) unfolding down_runs_def by auto
  have step: "ferry_upstream_to_client g window ((t, Arrives (RData d)) # evs) buf s w n chaff =
    ferry_upstream_to_client g window evs r1 s (w\<lparr>acts := acts w @ down_acts fs1\<rparr>)
      (n + of_nat (length (concat (data_payloads fs1)))) chaff"
    using assms(1,2) chain.pump_faultless [OF assms(1,3), of n False] by (simp add: write_op_ok down_acts_def)
  have "written (down_acts fs1) = concat (map (frame_bytes padded_codec) (map frame_data (data_payloads fs1)))"
    by (simp add: down_acts_def reframe_def o_def)
  moreover have "filter is_chaff (map frame_data (data_payloads fs1)) = []" by (simp add: filter_empty_conv)
  moreover have "\<forall>p\<in>set (data_payloads fs1). length p \<le> max_payload codec_new"
    using data_payloads_bound [OF assms(3)] by blast
  ultimately show ?thesis
    using IH assms(2) unfolding down_runs_def step
    by (intro exI [of _ "map frame_data (data_payloads fs1) @ frames"] exI [of _ "down_acts fs1 @ as"] exI [of _ s']) auto
qed

lemma chain_down_faultless:
  assumes "rng_ok g" "faultless w" "drain_frames codec_new (buf @ concat (arrived evs)) = (fs, None, r)"
    and "drain_frames codec_new buf = ([], None, buf)"
  shows "down_runs g window evs buf s w n chaff fs r"
  using assms(2-)
proof (induction evs arbitrary: buf fs s w n chaff)
  case Nil
  then show ?case unfolding down_runs_def by (intro exI [of _ "[]"]) auto
next
  case (Cons ev evs)
  consider t where "ev = (t, IdleTick)" | t q where "ev = (t, Arrives q)" "\<nexists>d. q = RData d \<and> d \<noteq> []"
    | t d where "ev = (t, Arrives (RData d))" "d \<noteq> []"
    by (cases ev rule: prod.exhaust) (metis timed_event.exhaust)
  then show ?case
  proof cases
    case 1
    show ?thesis
    proof (cases "t < window")
      case True
      then show ?thesis using Cons 1 unfolding \<open>ev = _\<close> by (intro down_runs_tick [OF assms(1)] Cons.IH) simp_all
    next
      case False
      then show ?thesis using Cons.IH [of w buf fs s n chaff] Cons.prems 1 by (simp add: down_runs_def)
    qed
  next
    case 2
    then have "arrived (ev # evs) = []" by (cases q) auto
    then have fs: "fs = []" using Cons.prems by simp
    show ?thesis unfolding 2(1) fs by (rule down_runs_end [OF Cons.prems(1) 2(2)])
  next
    case 3
    have "drain_frames codec_new ((buf @ d) @ concat (arrived evs)) = (fs, None, r)" using Cons.prems(2) 3 by simp
    then obtain fs1 r1 fs2 where dr: "drain_frames codec_new (buf @ d) = (fs1, None, r1)"
      "drain_frames codec_new (r1 @ concat (arrived evs)) = (fs2, None, r)" "fs = fs1 @ fs2"
      by (rule drain_split_ok)
    show ?thesis unfolding 3(1) dr(3) using Cons.prems(1) 3(2) dr(1,2)
      by (intro down_runs_data [of w d buf fs1 r1] Cons.IH codec.drain_rest_idle [OF dr(1)]) simp_all
  qed
qed

section \<open>Properties\<close>

text \<open>(C13) Chaining is transparent to the payload and opaque to everything else.  With working
  connections the upstream relay receives a well-formed stream of DATA frames only, with exactly the
  payloads of the client's DATA frames in order, all flushed while the relay waits; the client
  receives a well-formed stream whose DATA payloads are exactly those of the upstream's DATA frames
  and whose only other frames are this relay's own CHAFF, one per idle tick of the window.\<close>

theorem chain_hop_isolation:
  fixes g :: "'s rng" and s :: 's and up_first :: bool
  assumes "rng_ok g" "faultless client_wr" "faultless upstream_wr" "acts client_wr = []" "acts upstream_wr = []"
    and "drain_frames codec_new (leftover @ stream_data client_rd) = (ufs, None, ur)"
    and "drain_frames codec_new (concat (arrived upstream_rd)) = (dfs, None, dr)"
  defines "run \<equiv> forward_chain g s up_first client_rd leftover upstream_rd client_wr upstream_wr"
  shows "drain_frames codec_new (written (acts (tr_backend run))) = (map frame_data (data_payloads ufs), None, [])
    \<and> all_flushed (acts (tr_backend run))
    \<and> tr_up run = of_nat (length (concat (data_payloads ufs)))
    \<and> tr_down run = of_nat (length (concat (data_payloads dfs)))
    \<and> (\<exists>frames. drain_frames codec_new (written (acts (tr_client run))) = (frames, None, [])
        \<and> data_payloads frames = data_payloads dfs \<and> (\<forall>f\<in>set frames. is_data f \<or> is_chaff f)
        \<and> length (filter is_chaff frames) = idle_ticks IDLE_CHAFF_WINDOW_ms upstream_rd)
    \<and> (stream_ends client_rd = Eof \<and> timed_ends upstream_rd = Eof \<longrightarrow> tr_result run = Some (Inr ()))"
proof -
  obtain ua where up: "written ua = concat (map reframe (data_payloads ufs))"
    "ferry_client_to_upstream client_rd leftover upstream_wr 0 =
      (case stream_ends client_rd of Quiet \<Rightarrow> Blocked ur | Eof \<Rightarrow> Returned | Broken er \<Rightarrow> Failed er,
       upstream_wr\<lparr>acts := ua\<rparr>, of_nat (length (concat (data_payloads ufs))))"
    "all_flushed ua"
    using chain.loop_faultless [OF assms(3,6), of 0] assms(5) by auto
  have d: "drain_frames codec_new ([] @ concat (arrived upstream_rd)) = (dfs, None, dr)"
    using assms(7) by simp
  obtain frames da s' where down: "written da = concat (map (frame_bytes padded_codec) frames)"
    "data_payloads frames = data_payloads dfs"
    "\<forall>f\<in>set frames. (is_data f \<or> is_chaff f) \<and> length (payload f) \<le> max_payload codec_new"
    "length (filter is_chaff frames) = idle_ticks IDLE_CHAFF_WINDOW_ms upstream_rd"
    "ferry_upstream_to_client g IDLE_CHAFF_WINDOW_ms upstream_rd [] s client_wr 0 0 =
      ((case timed_ends upstream_rd of Quiet \<Rightarrow> Blocked dr | Eof \<Rightarrow> Returned | Broken er \<Rightarrow> Failed er), s',
       client_wr\<lparr>acts := da\<rparr>, of_nat (length (concat (data_payloads dfs))),
       of_nat (length (concat (map (frame_bytes padded_codec) (filter is_chaff frames)))))"
    using chain_down_faultless [OF assms(1,2) d drain_frames_Nil, of IDLE_CHAFF_WINDOW_ms s 0 0] assms(4)
    unfolding down_runs_def by auto
  have run: "run = \<lparr>tr_result = map_option tunnel_result (try_join up_first
        (case stream_ends client_rd of Quiet \<Rightarrow> Blocked ur | Eof \<Rightarrow> Returned | Broken er \<Rightarrow> Failed er)
        (case timed_ends upstream_rd of Quiet \<Rightarrow> Blocked dr | Eof \<Rightarrow> Returned | Broken er \<Rightarrow> Failed er)),
      tr_client = client_wr\<lparr>acts := da\<rparr>, tr_backend = upstream_wr\<lparr>acts := ua\<rparr>,
      tr_up = of_nat (length (concat (data_payloads ufs))),
      tr_down = of_nat (length (concat (data_payloads dfs))),
      tr_chaff = of_nat (length (concat (map (frame_bytes padded_codec) (filter is_chaff frames))))\<rparr>"
    using up(2) down(5) by (simp add: run_def forward_chain_def)
  have "drain_frames codec_new (written ua) = (map frame_data (data_payloads ufs), None, [])"
    using reframed_stream [of "data_payloads ufs"] data_payloads_bound [OF assms(6)] up(1) by simp
  moreover have "drain_frames codec_new (written da) = (frames, None, [])"
    using drain_padded [of frames] down(1,3) by simp
  ultimately show ?thesis
    using up(3) down(2,3,4) by (auto simp: run try_join_def tunnel_result_def)
qed

theorem chain_hop_isolation_witness:
  "drain_frames codec_new (written (acts (tr_backend (forward_chain demo_rng () True
      [RData []] [] [(1, IdleTick), (2, Arrives (RData []))] demo_writer demo_writer)))) = ([], None, [])"
  using chain_hop_isolation [OF demo_rng_ok demo_writer_ok(1) demo_writer_ok(1) demo_writer_ok(2)
      demo_writer_ok(2), where s = "()" and up_first = True and leftover = "[]" and ufs = "[]" and ur = "[]"
      and client_rd = "[RData []]" and upstream_rd = "[(1, IdleTick), (2, Arrives (RData []))]"
      and dfs = "[]" and dr = "[]"]
  by simp

end
