(* ===== verification/Admission.thy ===== *)
theory Admission
  imports Gate
begin

text \<open>Admission control and the accept loop of the relay
  (\<^verbatim>\<open>src/crates/construct-veil-relay/src/main.rs\<close>): the handshake semaphore, the per-IP counters with
  their guard, the connection statistics, and the life cycle of a connection task as a step relation.
  A guard's drop panics on an underflow, which the invariant excludes.\<close>

section \<open>Addresses\<close>

text \<open>An IPv6 address is its eight 16-bit segments.\<close>

datatype IpAddr = V4 u32 | V6 "u16 list"

fun ip_wf :: "IpAddr \<Rightarrow> bool" where
  "ip_wf (V4 a) = True"
| "ip_wf (V6 seg) = (length seg = 8)"

definition to_ipv4_mapped :: "u16 list \<Rightarrow> u32 option" where
  "to_ipv4_mapped seg =
     (if take 6 seg = [0, 0, 0, 0, 0, 0xFFFF]
      then Some (push_bit 16 (ucast (seg ! 6)) OR ucast (seg ! 7))
      else None)"

fun per_ip_bucket :: "IpAddr \<Rightarrow> IpAddr" where
  "per_ip_bucket (V4 a) = V4 a"
| "per_ip_bucket (V6 seg) =
     (case to_ipv4_mapped seg of
        Some v4 \<Rightarrow> V4 v4
      | None \<Rightarrow> V6 (take 4 seg @ replicate (length seg - 4) 0))"

section \<open>Admission\<close>

record Admission =
  handshakes :: nat
  per_ip :: "IpAddr \<rightharpoonup> nat"
  max_per_ip :: nat

definition admission_new :: "nat \<Rightarrow> nat \<Rightarrow> Admission" where
  "admission_new max_handshakes mx =
     \<lparr>handshakes = max max_handshakes 1, per_ip = Map.empty, max_per_ip = max mx 1\<rparr>"

text \<open>\<^verbatim>\<open>entry(ip).or_insert(0)\<close> writes the zero before the comparison.\<close>

definition admit_ip :: "IpAddr \<Rightarrow> Admission \<Rightarrow> IpAddr option \<times> Admission" where
  "admit_ip ip0 adm =
     (let ip = per_ip_bucket ip0;
          count = (case per_ip adm ip of Some c \<Rightarrow> c | None \<Rightarrow> 0);
          adm = adm\<lparr>per_ip := (per_ip adm)(ip \<mapsto> count)\<rparr>
      in if max_per_ip adm \<le> count then (None, adm)
         else (Some ip, adm\<lparr>per_ip := (per_ip adm)(ip \<mapsto> count + 1)\<rparr>))"

definition ip_guard_drop :: "IpAddr \<Rightarrow> Admission \<Rightarrow> Admission exec" where
  "ip_guard_drop ip adm =
     (case per_ip adm ip of
        None \<Rightarrow> Done adm
      | Some 0 \<Rightarrow> Panic
      | Some (Suc c) \<Rightarrow>
          Done (adm\<lparr>per_ip := (if c = 0 then (per_ip adm)(ip := None) else (per_ip adm)(ip \<mapsto> c))\<rparr>))"

definition try_acquire :: "Admission \<Rightarrow> Admission option" where
  "try_acquire adm =
     (if 0 < handshakes adm then Some (adm\<lparr>handshakes := handshakes adm - 1\<rparr>) else None)"

definition release :: "Admission \<Rightarrow> Admission" where
  "release adm = adm\<lparr>handshakes := handshakes adm + 1\<rparr>"

section \<open>Statistics\<close>

record ConnStats =
  completed :: u64
  handshake_timeout :: u64
  handshake_failed :: u64
  handler_error :: u64
  shed_global :: u64
  shed_per_ip :: u64

definition conn_stats_default :: ConnStats where
  "conn_stats_default = \<lparr>completed = 0, handshake_timeout = 0, handshake_failed = 0,
     handler_error = 0, shed_global = 0, shed_per_ip = 0\<rparr>"

text \<open>The summary line, when there is one: the counters and the gate's two.\<close>

definition conn_stats_flush ::
  "ConnStats \<Rightarrow> GateStats \<Rightarrow> (ConnStats \<times> u64 \<times> u64) option \<times> ConnStats \<times> GateStats" where
  "conn_stats_flush st gst =
     (let (tunnels, gst) = take_tunnels_admitted gst;
          (second, gst) = take_tunnels_after_second_read gst
      in if completed st OR handshake_timeout st OR handshake_failed st OR handler_error st
            OR shed_global st OR shed_per_ip st OR tunnels OR second = 0
         then (None, conn_stats_default, gst)
         else (Some (st, tunnels, second), conn_stats_default, gst))"

section \<open>The accept loop\<close>

datatype phase = Handshaking | Serving

record relay_state =
  adm :: Admission
  stats :: ConnStats
  gate_stats :: GateStats
  conns :: "(IpAddr \<times> phase) list"
  summaries :: "(ConnStats \<times> u64 \<times> u64) list"

definition relay_init :: "nat \<Rightarrow> nat \<Rightarrow> GateStats \<Rightarrow> relay_state" where
  "relay_init max_handshakes mx gst =
     \<lparr>adm = admission_new max_handshakes mx, stats = conn_stats_default, gate_stats = gst,
      conns = [], summaries = []\<rparr>"

text \<open>One turn of the loop for an accepted socket: shed on either cap, else spawn the task.\<close>

definition accept_connection :: "IpAddr \<Rightarrow> relay_state \<Rightarrow> relay_state" where
  "accept_connection peer s =
     (case try_acquire (adm s) of
        None \<Rightarrow> s\<lparr>stats := (stats s)\<lparr>shed_global := shed_global (stats s) + 1\<rparr>\<rparr>
      | Some a \<Rightarrow>
          (case admit_ip peer a of
             (None, a) \<Rightarrow>
               s\<lparr>adm := release a, stats := (stats s)\<lparr>shed_per_ip := shed_per_ip (stats s) + 1\<rparr>\<rparr>
           | (Some ip, a) \<Rightarrow> s\<lparr>adm := a, conns := (ip, Handshaking) # conns s\<rparr>))"

text \<open>What a connection task reports when it moves on.\<close>

datatype task_event = HandshakeOk | HandshakeErr | HandshakeLate | HandlerOk | HandlerErr

text \<open>A task event for the connection at an index: the permit goes back when the handshake is over, the
  guard is dropped when the task ends.\<close>

definition task_step :: "nat \<Rightarrow> task_event \<Rightarrow> relay_state \<Rightarrow> relay_state exec" where
  "task_step i ev s =
     (let (ip, ph) = conns s ! i;
          finish = (\<lambda>a st. exec_bind (ip_guard_drop ip a) (\<lambda>a.
            Done (s\<lparr>adm := a, stats := st, conns := take i (conns s) @ drop (Suc i) (conns s)\<rparr>)))
      in case (ph, ev) of
           (Handshaking, HandshakeOk) \<Rightarrow>
             Done (s\<lparr>adm := release (adm s), stats := (stats s)\<lparr>completed := completed (stats s) + 1\<rparr>,
                     conns := (conns s)[i := (ip, Serving)]\<rparr>)
         | (Handshaking, HandshakeErr) \<Rightarrow>
             finish (release (adm s)) ((stats s)\<lparr>handshake_failed := handshake_failed (stats s) + 1\<rparr>)
         | (Handshaking, HandshakeLate) \<Rightarrow>
             finish (release (adm s)) ((stats s)\<lparr>handshake_timeout := handshake_timeout (stats s) + 1\<rparr>)
         | (Serving, HandlerOk) \<Rightarrow> finish (adm s) (stats s)
         | (Serving, HandlerErr) \<Rightarrow>
             finish (adm s) ((stats s)\<lparr>handler_error := handler_error (stats s) + 1\<rparr>)
         | _ \<Rightarrow> Done s)"

definition flush_stats :: "relay_state \<Rightarrow> relay_state" where
  "flush_stats s =
     (let (line, st, gst) = conn_stats_flush (stats s) (gate_stats s)
      in s\<lparr>stats := st, gate_stats := gst,
           summaries := summaries s @ (case line of Some l \<Rightarrow> [l] | None \<Rightarrow> [])\<rparr>)"

inductive relay_step :: "relay_state \<Rightarrow> relay_state \<Rightarrow> bool" where
  accepts: "relay_step s (accept_connection peer s)"
| accept_error: "relay_step s s"
| task: "i < length (conns s) \<Longrightarrow> task_step i ev s = Done s' \<Longrightarrow> relay_step s s'"
| flush: "relay_step s (flush_stats s)"
| gate: "relay_step s (s\<lparr>gate_stats := gst\<rparr>)"

section \<open>Invariant\<close>

definition live :: "relay_state \<Rightarrow> IpAddr \<Rightarrow> nat" where
  "live s ip = length (filter (\<lambda>c. fst c = ip) (conns s))"

definition in_handshake :: "relay_state \<Rightarrow> nat" where
  "in_handshake s = length (filter (\<lambda>c. snd c = Handshaking) (conns s))"

text \<open>Permits are conserved, and the map counts exactly the live connections, with no zero entries and
  none above the cap.\<close>

definition relay_inv :: "nat \<Rightarrow> nat \<Rightarrow> relay_state \<Rightarrow> bool" where
  "relay_inv h m s \<longleftrightarrow> max_per_ip (adm s) = m \<and> 1 \<le> m
     \<and> handshakes (adm s) + in_handshake s = h
     \<and> (\<forall>ip. per_ip (adm s) ip = (if live s ip = 0 then None else Some (live s ip)))
     \<and> (\<forall>ip. live s ip \<le> m)"

lemma filter_split_at:
  "i < length xs \<Longrightarrow> length (filter P xs) =
     length (filter P (take i xs @ drop (Suc i) xs)) + (if P (xs ! i) then 1 else 0)"
  by (subst id_take_nth_drop [of i xs]) auto

lemma filter_update_at:
  "i < length xs \<Longrightarrow> length (filter P (xs[i := y])) + (if P (xs ! i) then 1 else 0) =
     length (filter P xs) + (if P y then 1 else 0)"
  using filter_split_at [of i xs P] by (simp add: upd_conv_take_nth_drop)

lemma relay_init_inv: "relay_inv (max h 1) (max m 1) (relay_init h m gst)"
  by (simp add: relay_inv_def relay_init_def admission_new_def live_def in_handshake_def)

lemma accept_inv:
  assumes "relay_inv h m s"
  shows "relay_inv h m (accept_connection peer s)"
proof -
  let ?ip = "per_ip_bucket peer"
  have p: "per_ip (adm s) ?ip = (if live s ?ip = 0 then None else Some (live s ?ip))"
    and m: "max_per_ip (adm s) = m" "1 \<le> m" using assms by (auto simp: relay_inv_def)
  have noop: "(per_ip (adm s))(?ip \<mapsto> live s ?ip) = per_ip (adm s)" if "m \<le> live s ?ip"
    using p that m by (auto simp: fun_eq_iff)
  show ?thesis
  proof (cases "0 < handshakes (adm s)")
    case False
    then show ?thesis using assms
      by (simp add: accept_connection_def try_acquire_def relay_inv_def live_def in_handshake_def)
  next
    case True
    show ?thesis
    proof (cases "m \<le> live s ?ip")
      case full: True
      then show ?thesis using assms True p noop m
        by (auto simp: accept_connection_def try_acquire_def admit_ip_def Let_def release_def
            relay_inv_def live_def in_handshake_def split: if_splits)
    next
      case False
      then show ?thesis using assms True p m
        by (auto simp: accept_connection_def try_acquire_def admit_ip_def Let_def relay_inv_def
            live_def in_handshake_def split: if_splits)
    qed
  qed
qed

lemma ip_guard_drop_live:
  assumes "relay_inv h m s" "i < length (conns s)" "conns s ! i = (ip, ph)"
  shows "\<exists>pm. ip_guard_drop ip (adm s) = Done ((adm s)\<lparr>per_ip := pm\<rparr>)
    \<and> (\<forall>j. pm j = (let n = live s j - (if j = ip then 1 else 0) in if n = 0 then None else Some n))"
proof -
  have l: "live s ip \<noteq> 0"
    using assms(3) nth_mem [OF assms(2)] by (force simp: live_def filter_empty_conv)
  then obtain c where c: "live s ip = Suc c" by (cases "live s ip") auto
  have "per_ip (adm s) j = (if live s j = 0 then None else Some (live s j))" for j
    using assms(1) by (simp add: relay_inv_def)
  with c show ?thesis
    by (intro exI [of _ "if c = 0 then (per_ip (adm s))(ip := None) else (per_ip (adm s))(ip \<mapsto> c)"])
       (simp add: ip_guard_drop_def Let_def)
qed

lemma drop_release: "ip_guard_drop ip (release a) = exec_bind (ip_guard_drop ip a) (\<lambda>a. Done (release a))"
  by (simp add: ip_guard_drop_def release_def split: option.splits nat.splits)

text \<open>No task event panics, and each keeps the invariant.\<close>

lemma task_inv:
  assumes inv: "relay_inv h m s" and i: "i < length (conns s)"
  shows "\<exists>s'. task_step i ev s = Done s' \<and> relay_inv h m s'"
proof -
  obtain ip ph where c: "conns s ! i = (ip, ph)" by fastforce
  from ip_guard_drop_live [OF inv i c] obtain pm where
    pm: "ip_guard_drop ip (adm s) = Done ((adm s)\<lparr>per_ip := pm\<rparr>)"
    "\<And>j. pm j = (let n = live s j - (if j = ip then 1 else 0) in if n = 0 then None else Some n)"
    by blast
  let ?cs = "take i (conns s) @ drop (Suc i) (conns s)"
  have live': "length (filter (\<lambda>c. fst c = j) ?cs) = live s j - (if j = ip then 1 else 0)" for j
    using filter_split_at [OF i, of "\<lambda>c. fst c = j"] c by (auto simp: live_def)
  have hs': "length (filter (\<lambda>c. snd c = Handshaking) ?cs) = in_handshake s - (if ph = Handshaking then 1 else 0)"
    using filter_split_at [OF i, of "\<lambda>c. snd c = Handshaking"] c by (auto simp: in_handshake_def)
  have hs1: "ph = Handshaking \<Longrightarrow> 1 \<le> in_handshake s"
    using filter_split_at [OF i, of "\<lambda>c. snd c = Handshaking"] c by (auto simp: in_handshake_def)
  have upd: "length (filter (\<lambda>c. fst c = j) ((conns s)[i := (ip, Serving)])) = live s j" for j
    using filter_update_at [OF i, of "\<lambda>c. fst c = j" "(ip, Serving)"] c by (auto simp: live_def split: if_splits)
  have updh: "ph = Handshaking \<Longrightarrow>
      length (filter (\<lambda>c. snd c = Handshaking) ((conns s)[i := (ip, Serving)])) = in_handshake s - 1"
    using filter_update_at [OF i, of "\<lambda>c. snd c = Handshaking" "(ip, Serving)"] c
    by (auto simp: in_handshake_def split: if_splits)
  have le: "live s j - (if j = ip then 1 else 0) \<le> m" for j
    using inv by (auto simp: relay_inv_def intro: le_trans [OF diff_le_self])
  have gone: "relay_inv h m (s\<lparr>adm := a, stats := st, conns := ?cs\<rparr>)"
    if "max_per_ip a = m" "handshakes a + (in_handshake s - (if ph = Handshaking then 1 else 0)) = h"
      "per_ip a = pm" for a st
    using that inv live' hs' le pm(2) unfolding relay_inv_def live_def in_handshake_def by (simp add: Let_def)
  have h: "max_per_ip (adm s) = m" "handshakes (adm s) + in_handshake s = h"
    using inv by (simp_all add: relay_inv_def)
  note eval = task_step_def c pm(1) drop_release Let_def
  show ?thesis
  proof (cases "ph = Handshaking \<and> ev = HandshakeOk")
    case True
    then show ?thesis using inv hs1 upd updh
      by (simp add: eval) (simp add: relay_inv_def release_def live_def in_handshake_def)
  next
    case False
    have ev: "task_step i ev s = Done s \<or>
      (\<exists>st. task_step i ev s = Done (s\<lparr>adm := (if ph = Handshaking then release ((adm s)\<lparr>per_ip := pm\<rparr>)
         else (adm s)\<lparr>per_ip := pm\<rparr>), stats := st, conns := ?cs\<rparr>))"
      using False by (cases ph; cases ev) (auto simp: eval intro: exI [of _ "stats s"])
    have "relay_inv h m (s\<lparr>adm := (if ph = Handshaking then release ((adm s)\<lparr>per_ip := pm\<rparr>)
         else (adm s)\<lparr>per_ip := pm\<rparr>), stats := st, conns := ?cs\<rparr>)" for st
      using hs1 h by (intro gone) (auto simp: release_def)
    with ev inv show ?thesis by auto
  qed
qed

lemma relay_step_inv: "relay_step s s' \<Longrightarrow> relay_inv h m s \<Longrightarrow> relay_inv h m s'"
proof (induction rule: relay_step.induct)
  case (task i s ev s')
  then show ?case using task_inv [of h m s i ev] by auto
next
  case (accepts s peer)
  then show ?case by (rule accept_inv)
qed (auto simp: flush_stats_def relay_inv_def live_def in_handshake_def Let_def split: prod.splits)

lemma relay_reach_inv:
  "relay_step\<^sup>*\<^sup>* (relay_init h m gst) s \<Longrightarrow> relay_inv (max h 1) (max m 1) s"
proof (induction rule: rtranclp_induct)
  case base
  show ?case by (rule relay_init_inv)
next
  case (step s s')
  then show ?case by (blast intro: relay_step_inv)
qed

section \<open>Properties\<close>

text \<open>(C14) The caps hold in every reachable state of the relay, whatever connects, fails or finishes and
  in whatever order: no more handshakes are in flight than permits, no address bucket has more
  live connections than its cap, the counter map holds exactly the buckets with live connections,
  so it is empty when none are left, and no guard's drop can underflow.\<close>

theorem admission_caps_hold:
  assumes "relay_step\<^sup>*\<^sup>* (relay_init h m gst) s"
  shows "in_handshake s \<le> max h 1 \<and> handshakes (adm s) = max h 1 - in_handshake s
    \<and> live s ip \<le> max m 1
    \<and> per_ip (adm s) ip = (if live s ip = 0 then None else Some (live s ip))
    \<and> (i < length (conns s) \<longrightarrow> task_step i ev s \<noteq> Panic)"
  using relay_reach_inv [OF assms] task_inv [OF relay_reach_inv [OF assms], of i ev]
  by (auto simp: relay_inv_def)

theorem admission_caps_hold_witness:
  "live (accept_connection (V4 1) (relay_init 2 1 demo_stats)) (V4 1) \<le> 1"
  using admission_caps_hold [OF r_into_rtranclp [of relay_step, OF relay_step.accepts [of
        "relay_init 2 1 demo_stats" "V4 1"]], of "V4 1" 0 HandshakeOk] by simp



end
