(* ===== verification/Tls.thy ===== *)
theory Tls
  imports Admission Framing Pump
begin

text \<open>TLS configuration on both sides: the browser profiles of the client
  (\<^verbatim>\<open>src/src/tls_fingerprint.rs\<close>), its pinned connector (\<^verbatim>\<open>src/src/tls_pinned.rs\<close>), the relay's
  acceptor (\<^verbatim>\<open>src/crates/construct-veil-relay/src/tls.rs\<close>) and the pinned connector of the chain hop
  (\<^verbatim>\<open>src/crates/construct-veil-relay/src/upstream_tls.rs\<close>).

  rustls, the X.509 parser, SHA-256 and the \<^verbatim>\<open>hex\<close> crate are the record \<^verbatim>\<open>tls_lib\<close>.  A configuration is
  the part of it this code sets: the expected pin of the certificate verifier, the provider's suites
  and groups, ALPN and the record cap.  Error texts keep their fixed part.

  The parser of IP addresses is the standard library's (\<^verbatim>\<open>IpAddr::from_str\<close>), a recursive-descent parser
  over the characters that backtracks where a part does not parse.\<close>

section \<open>Hexadecimal text\<close>

definition to_digit16 :: "char \<Rightarrow> nat option" where
  "to_digit16 c =
     (let n = of_char c in
      if 48 \<le> n \<and> n \<le> 57 then Some (n - 48)
      else if 97 \<le> n \<and> n \<le> 102 then Some (n - 87)
      else if 65 \<le> n \<and> n \<le> 70 then Some (n - 55)
      else None)"

fun hex_pairs :: "string \<Rightarrow> bytes option" where
  "hex_pairs (a # b # s) =
     (case (to_digit16 a, to_digit16 b) of
        (Some hi, Some lo) \<Rightarrow> map_option (\<lambda>bs. of_nat (hi * 16 + lo) # bs) (hex_pairs s)
      | _ \<Rightarrow> None)"
| "hex_pairs _ = Some []"

definition decode_hex :: "string \<Rightarrow> bytes option" where
  "decode_hex s =
     (if \<not> list_all (\<lambda>c. of_char c < (128 :: nat)) s \<or> odd (length s) then None else hex_pairs s)"

definition parse_spki_pin :: "string \<Rightarrow> string + bytes" where
  "parse_spki_pin spki_hex =
     (if spki_hex = [] then Inl ''SPKI pin required (empty)''
      else case decode_hex spki_hex of
        None \<Rightarrow> Inl ''SPKI pin is not hex''
      | Some bs \<Rightarrow> if length bs = 32 then Inr bs else Inl ''SPKI SHA-256 must be 32 bytes'')"

definition to_ascii_lowercase :: "string \<Rightarrow> string" where
  "to_ascii_lowercase s =
     map (\<lambda>c. let n = of_char c in if 65 \<le> n \<and> n \<le> (90 :: nat) then char_of (n + 32) else c) s"

text \<open>Bytes as lower-case hex text: what formatting each byte with \<^verbatim>\<open>02x\<close> gives, and what \<^verbatim>\<open>hex::encode\<close> documents.\<close>

definition nibble :: "nat \<Rightarrow> char" where
  "nibble n = char_of (if n < 10 then 48 + n else 87 + n)"

definition hex_text :: "bytes \<Rightarrow> string" where
  "hex_text bs = concat (map (\<lambda>b. [nibble (unat b div 16), nibble (unat b mod 16)]) bs)"

section \<open>Browser profiles\<close>

datatype CipherSuite =
    TLS13_AES_128_GCM_SHA256 | TLS13_AES_256_GCM_SHA384 | TLS13_CHACHA20_POLY1305_SHA256
  | TLS_ECDHE_ECDSA_WITH_AES_128_GCM_SHA256 | TLS_ECDHE_RSA_WITH_AES_128_GCM_SHA256
  | TLS_ECDHE_ECDSA_WITH_AES_256_GCM_SHA384 | TLS_ECDHE_RSA_WITH_AES_256_GCM_SHA384
  | TLS_ECDHE_ECDSA_WITH_CHACHA20_POLY1305_SHA256 | TLS_ECDHE_RSA_WITH_CHACHA20_POLY1305_SHA256

datatype KxGroup = X25519MLKEM768 | X25519 | SECP256R1 | SECP384R1

record CryptoProvider =
  cipher_suites :: "CipherSuite list"
  kx_groups :: "KxGroup list"

datatype TlsProfile = Rustls | Chrome131 | Firefox128

definition profile_default :: TlsProfile where "profile_default = Chrome131"

definition chrome_131_provider :: "CryptoProvider \<Rightarrow> CryptoProvider" where
  "chrome_131_provider default_provider = default_provider\<lparr>
     cipher_suites := [TLS13_AES_128_GCM_SHA256, TLS13_AES_256_GCM_SHA384, TLS13_CHACHA20_POLY1305_SHA256,
       TLS_ECDHE_ECDSA_WITH_AES_128_GCM_SHA256, TLS_ECDHE_RSA_WITH_AES_128_GCM_SHA256,
       TLS_ECDHE_ECDSA_WITH_AES_256_GCM_SHA384, TLS_ECDHE_RSA_WITH_AES_256_GCM_SHA384,
       TLS_ECDHE_ECDSA_WITH_CHACHA20_POLY1305_SHA256, TLS_ECDHE_RSA_WITH_CHACHA20_POLY1305_SHA256],
     kx_groups := [X25519MLKEM768, X25519, SECP256R1, SECP384R1]\<rparr>"

definition firefox_128_provider :: "CryptoProvider \<Rightarrow> CryptoProvider" where
  "firefox_128_provider default_provider = default_provider\<lparr>
     cipher_suites := [TLS13_AES_128_GCM_SHA256, TLS13_CHACHA20_POLY1305_SHA256, TLS13_AES_256_GCM_SHA384,
       TLS_ECDHE_ECDSA_WITH_AES_128_GCM_SHA256, TLS_ECDHE_RSA_WITH_AES_128_GCM_SHA256,
       TLS_ECDHE_ECDSA_WITH_CHACHA20_POLY1305_SHA256, TLS_ECDHE_RSA_WITH_CHACHA20_POLY1305_SHA256,
       TLS_ECDHE_ECDSA_WITH_AES_256_GCM_SHA384, TLS_ECDHE_RSA_WITH_AES_256_GCM_SHA384],
     kx_groups := [X25519MLKEM768, X25519, SECP256R1, SECP384R1]\<rparr>"

fun crypto_provider :: "CryptoProvider \<Rightarrow> TlsProfile \<Rightarrow> CryptoProvider" where
  "crypto_provider default_provider Rustls = default_provider"
| "crypto_provider default_provider Chrome131 = chrome_131_provider default_provider"
| "crypto_provider default_provider Firefox128 = firefox_128_provider default_provider"

fun profile_alpn :: "TlsProfile \<Rightarrow> string list" where
  "profile_alpn Rustls = []"
| "profile_alpn Chrome131 = [''h2'', ''http/1.1'']"
| "profile_alpn Firefox128 = [''h2'', ''http/1.1'']"

fun ja3_string :: "TlsProfile \<Rightarrow> string" where
  "ja3_string Rustls =
     ''771,4866-4865-4867-49196-49195-52393-49200-49199-52392,0-23-10-11-13-43-51-45,4588-29-23-24,0''"
| "ja3_string Chrome131 =
     ''771,4865-4866-4867-49195-49199-49196-49200-52393-52392,0-23-10-11-16-13-43-51-45,4588-29-23-24,0''"
| "ja3_string Firefox128 =
     ''771,4865-4867-4866-49195-49199-52393-52392-49196-49200,0-23-10-11-16-13-43-51-45,4588-29-23-24,0''"

definition md5_hex :: "(string \<Rightarrow> bytes) \<Rightarrow> string \<Rightarrow> string" where
  "md5_hex md5 dat = hex_text (md5 dat)"

definition ja3_hash :: "(string \<Rightarrow> bytes) \<Rightarrow> TlsProfile \<Rightarrow> string" where
  "ja3_hash md5 p = md5_hex md5 (ja3_string p)"

fun profile_name :: "TlsProfile \<Rightarrow> string" where
  "profile_name Rustls = ''rustls-default''"
| "profile_name Chrome131 = ''Chrome/131''"
| "profile_name Firefox128 = ''Firefox/128''"

definition from_name :: "string \<Rightarrow> TlsProfile option" where
  "from_name s =
     (let l = to_ascii_lowercase s in
      if l = '''' then Some profile_default
      else if l = ''chrome131'' \<or> l = ''chrome'' then Some Chrome131
      else if l = ''firefox128'' \<or> l = ''firefox'' then Some Firefox128
      else if l = ''rustls'' then Some Rustls
      else None)"

section \<open>IP addresses\<close>

text \<open>\<^verbatim>\<open>read_number\<close> of the standard parser: at most \<^verbatim>\<open>mx\<close> digits of the radix, the value below \<^verbatim>\<open>bound\<close>; a leading
  zero only alone unless it is allowed.\<close>

fun digits_in :: "nat \<Rightarrow> string \<Rightarrow> nat list \<times> string" where
  "digits_in radix [] = ([], [])"
| "digits_in radix (c # s) =
     (case to_digit16 c of
        Some d \<Rightarrow> if d < radix then let (ds, r) = digits_in radix s in (d # ds, r) else ([], c # s)
      | None \<Rightarrow> ([], c # s))"

definition read_number :: "nat \<Rightarrow> nat \<Rightarrow> nat \<Rightarrow> bool \<Rightarrow> string \<Rightarrow> (nat \<times> string) option" where
  "read_number radix mx bound allow_zero_prefix s =
     (let (ds, r) = digits_in radix s;
          v = foldl (\<lambda>v d. v * radix + d) 0 ds
      in if ds = [] \<or> mx < length ds \<or> bound \<le> v then None
         else if \<not> allow_zero_prefix \<and> hd ds = 0 \<and> 1 < length ds then None
         else Some (v, r))"

text \<open>The separator before every part but the first.\<close>

definition read_separator :: "char \<Rightarrow> nat \<Rightarrow> (string \<Rightarrow> ('a \<times> string) option) \<Rightarrow> string \<Rightarrow> ('a \<times> string) option" where
  "read_separator sep i inner s =
     (if i = 0 then inner s
      else case s of [] \<Rightarrow> None | c # r \<Rightarrow> if c = sep then inner r else None)"

fun read_octets :: "nat \<Rightarrow> nat \<Rightarrow> string \<Rightarrow> (nat list \<times> string) option" where
  "read_octets i 0 s = Some ([], s)"
| "read_octets i (Suc n) s =
     (case read_separator (CHR ''.'') i (read_number 10 3 256 False) s of
        None \<Rightarrow> None
      | Some (v, r) \<Rightarrow> map_option (\<lambda>(vs, r). (v # vs, r)) (read_octets (Suc i) n r))"

definition read_ipv4_addr :: "string \<Rightarrow> (nat list \<times> string) option" where
  "read_ipv4_addr s = read_octets 0 4 s"

text \<open>Up to \<^verbatim>\<open>n\<close> groups from position \<^verbatim>\<open>i\<close> on; an embedded IPv4 address gives two and ends them.\<close>

fun read_groups :: "nat \<Rightarrow> nat \<Rightarrow> string \<Rightarrow> (u16 list \<times> bool) \<times> string" where
  "read_groups i 0 s = (([], False), s)"
| "read_groups i (Suc n) s =
     (case (if 0 < n then read_separator (CHR '':'') i read_ipv4_addr s else None) of
        Some ([a, b, c, d], r) \<Rightarrow> (([of_nat (a * 256 + b), of_nat (c * 256 + d)], True), r)
      | _ \<Rightarrow>
          (case read_separator (CHR '':'') i (read_number 16 4 65536 True) s of
             None \<Rightarrow> (([], False), s)
           | Some (g, r) \<Rightarrow> (let ((gs, v4), r) = read_groups (Suc i) n r in ((of_nat g # gs, v4), r))))"

definition read_ipv6_addr :: "string \<Rightarrow> (u16 list \<times> string) option" where
  "read_ipv6_addr s =
     (let ((head, head_ipv4), r) = read_groups 0 8 s in
      if length head = 8 then Some (head, r)
      else if head_ipv4 then None
      else case r of
        c # c' # r \<Rightarrow>
          if c = CHR '':'' \<and> c' = CHR '':'' then
            let limit = 8 - (length head + 1);
                ((tail, _), r) = read_groups 0 limit r
            in Some (head @ replicate (8 - length head - length tail) 0 @ tail, r)
          else None
      | _ \<Rightarrow> None)"

definition parse_ip :: "string \<Rightarrow> IpAddr option" where
  "parse_ip s =
     (case read_ipv4_addr s of
        Some ([a, b, c, d], r) \<Rightarrow>
          if r = [] then Some (V4 (of_nat (a * 16777216 + b * 65536 + c * 256 + d))) else None
      | _ \<Rightarrow> (case read_ipv6_addr s of
          Some (seg, r) \<Rightarrow> if r = [] then Some (V6 seg) else None
        | None \<Rightarrow> None))"

section \<open>The client's connector\<close>

datatype ServerName = DnsName string | IpAddress IpAddr

record tls_lib =
  tl_default_provider :: CryptoProvider
  tl_versions :: "CryptoProvider \<Rightarrow> string + unit"
  tl_server_name :: "string \<Rightarrow> string + ServerName"
  tl_single_cert :: "bytes list \<Rightarrow> bytes \<Rightarrow> string + unit"
  tl_x509_spki :: "bytes \<Rightarrow> bytes option option"
  tl_sha256 :: "bytes \<Rightarrow> bytes"
  tl_hex_decode :: "string \<Rightarrow> bytes option"
  tl_hex_encode :: "bytes \<Rightarrow> string"

record ClientConfig =
  expected_pin :: "bytes option"
  provider :: CryptoProvider
  alpn_protocols :: "string list"
  max_fragment_size :: "nat option"

type_synonym TlsClientHook = "ClientConfig \<Rightarrow> ClientConfig"

text \<open>The hook is process-wide state; installing one replaces the previous.\<close>

definition set_tls_client_hook :: "TlsClientHook option \<Rightarrow> TlsClientHook option \<Rightarrow> TlsClientHook option" where
  "set_tls_client_hook hook current = hook"

definition client_config ::
  "tls_lib \<Rightarrow> TlsClientHook option \<Rightarrow> bytes option \<Rightarrow> TlsProfile \<Rightarrow> string list option \<Rightarrow> string + ClientConfig" where
  "client_config lib hook pin profile alpn_override =
     (let prov = crypto_provider (tl_default_provider lib) profile in
      case tl_versions lib prov of
        Inl e \<Rightarrow> Inl e
      | Inr _ \<Rightarrow>
          (let config = \<lparr>expected_pin = pin, provider = prov, alpn_protocols = [], max_fragment_size = None\<rparr>;
               alpn = (case alpn_override of Some a \<Rightarrow> a | None \<Rightarrow> profile_alpn profile);
               config = (if alpn \<noteq> [] then config\<lparr>alpn_protocols := alpn\<rparr> else config);
               config = config\<lparr>max_fragment_size := Some (LENGTH_BUCKETS ! (length LENGTH_BUCKETS - 1))\<rparr>
           in Inr (case hook of Some h \<Rightarrow> h config | None \<Rightarrow> config)))"

fun rsplit_once :: "char \<Rightarrow> string \<Rightarrow> (string \<times> string) option" where
  "rsplit_once sep [] = None"
| "rsplit_once sep (c # s) =
     (case rsplit_once sep s of
        Some (h, t) \<Rightarrow> Some (c # h, t)
      | None \<Rightarrow> if c = sep then Some ([], s) else None)"

definition resolve_server_name :: "tls_lib \<Rightarrow> string \<Rightarrow> string \<Rightarrow> string + ServerName" where
  "resolve_server_name lib sni relay_addr =
     (if sni = [] then
        let host = (case rsplit_once (CHR '':'') relay_addr of Some (h, _) \<Rightarrow> h | None \<Rightarrow> relay_addr);
            host = rev (dropWhile (\<lambda>c. c = CHR '']'') (rev (dropWhile (\<lambda>c. c = CHR ''['') host)))
        in (case parse_ip host of
              None \<Rightarrow> Inl ''invalid IP address syntax''
            | Some ip \<Rightarrow> Inr (IpAddress ip))
      else tl_server_name lib sni)"

definition build_connector ::
  "tls_lib \<Rightarrow> TlsClientHook option \<Rightarrow> string \<Rightarrow> string \<Rightarrow> string \<Rightarrow> TlsProfile \<Rightarrow> string list option \<Rightarrow>
     string + ClientConfig \<times> ServerName" where
  "build_connector lib hook sni spki_hex relay_addr profile alpn_override =
     (case parse_spki_pin spki_hex of
        Inl e \<Rightarrow> Inl e
      | Inr pin \<Rightarrow>
          (case client_config lib hook (Some pin) profile alpn_override of
             Inl e \<Rightarrow> Inl e
           | Inr config \<Rightarrow>
               (case resolve_server_name lib sni relay_addr of
                  Inl e \<Rightarrow> Inl e
                | Inr server_name \<Rightarrow> Inr (config, server_name))))"

section \<open>Certificate verdicts\<close>

datatype PinError = Mismatch | NoSpki

fun pin_error_text :: "PinError \<Rightarrow> string" where
  "pin_error_text Mismatch = ''SPKI pin mismatch - possible MitM or key rotation''"
| "pin_error_text NoSpki = ''failed to extract SPKI from cert''"

definition spki_sha256 :: "tls_lib \<Rightarrow> bytes \<Rightarrow> bytes option" where
  "spki_sha256 lib cert_der =
     (case tl_x509_spki lib cert_der of
        Some (Some spki_der) \<Rightarrow> Some (tl_sha256 lib spki_der)
      | _ \<Rightarrow> None)"

definition verify_server_cert :: "tls_lib \<Rightarrow> ClientConfig \<Rightarrow> bytes \<Rightarrow> PinError + unit" where
  "verify_server_cert lib config end_entity =
     (case expected_pin config of
        Some expected \<Rightarrow>
          (case spki_sha256 lib end_entity of
             None \<Rightarrow> Inl NoSpki
           | Some got \<Rightarrow> if got \<noteq> expected then Inl Mismatch else Inr ())
      | None \<Rightarrow> Inr ())"

section \<open>The relay's side\<close>

definition MAX_TLS_PLAINTEXT :: nat where
  "MAX_TLS_PLAINTEXT = LENGTH_BUCKETS ! (length LENGTH_BUCKETS - 1)"

record ServerConfig =
  server_certs :: "bytes list"
  server_provider :: CryptoProvider
  server_alpn :: "string list"
  server_max_fragment_size :: "nat option"

definition server_config :: "tls_lib \<Rightarrow> bytes list \<Rightarrow> bytes \<Rightarrow> io_error + ServerConfig" where
  "server_config lib certs key =
     (let prov = tl_default_provider lib in
      case tl_versions lib prov of
        Inl e \<Rightarrow> Inl (IoError KInvalidData [])
      | Inr _ \<Rightarrow>
          (case tl_single_cert lib certs key of
             Inl e \<Rightarrow> Inl (IoError KInvalidData [])
           | Inr _ \<Rightarrow> Inr \<lparr>server_certs = certs, server_provider = prov, server_alpn = [],
                server_max_fragment_size = Some MAX_TLS_PLAINTEXT\<rparr>))"

record RelayTls =
  acceptor :: ServerConfig
  spki_hex :: string

definition compute_spki_hex :: "tls_lib \<Rightarrow> bytes \<Rightarrow> string" where
  "compute_spki_hex lib cert =
     (case tl_x509_spki lib cert of
        None \<Rightarrow> tl_hex_encode lib (tl_sha256 lib cert)
      | Some spki \<Rightarrow>
          (let spki_der = (case spki of Some d \<Rightarrow> d | None \<Rightarrow> [])
           in tl_hex_encode lib (tl_sha256 lib spki_der)))"

definition set_alpn :: "string list \<Rightarrow> RelayTls \<Rightarrow> RelayTls" where
  "set_alpn protocols t = t\<lparr>acceptor := (acceptor t)\<lparr>server_alpn := protocols\<rparr>\<rparr>"

definition from_certs :: "tls_lib \<Rightarrow> bytes list \<Rightarrow> bytes \<Rightarrow> io_error + RelayTls" where
  "from_certs lib certs key =
     (case server_config lib certs key of
        Inl e \<Rightarrow> Inl e
      | Inr config \<Rightarrow>
          (case certs of
             [] \<Rightarrow> Inl (IoError KInvalidData [])
           | leaf # _ \<Rightarrow> Inr \<lparr>acceptor = config, spki_hex = compute_spki_hex lib leaf\<rparr>))"

text \<open>The two PEM files are what reading and parsing them gives.\<close>

definition from_pem_files :: "tls_lib \<Rightarrow> string + bytes list \<Rightarrow> string + bytes \<Rightarrow> io_error + RelayTls" where
  "from_pem_files lib cert_file key_file =
     (case cert_file of
        Inl e \<Rightarrow> Inl (IoError KInvalidData [])
      | Inr certs \<Rightarrow>
          (case key_file of
             Inl e \<Rightarrow> Inl (IoError KInvalidData [])
           | Inr key \<Rightarrow> from_certs lib certs key))"

text \<open>\<^verbatim>\<open>generated\<close>: the certificate and key the generator makes, or its failure.\<close>

definition self_signed :: "tls_lib \<Rightarrow> io_error + bytes \<times> bytes \<Rightarrow> io_error + RelayTls" where
  "self_signed lib generated =
     (case generated of
        Inl e \<Rightarrow> Inl e
      | Inr (cert_der, key_der) \<Rightarrow>
          (case server_config lib [cert_der] key_der of
             Inl e \<Rightarrow> Inl e
           | Inr config \<Rightarrow> Inr \<lparr>acceptor = config, spki_hex = compute_spki_hex lib cert_der\<rparr>))"

section \<open>The chain hop's connector\<close>

definition parse_pin :: "tls_lib \<Rightarrow> string \<Rightarrow> string + bytes" where
  "parse_pin lib spki =
     (case tl_hex_decode lib spki of
        Some b \<Rightarrow> if length b = 32 then Inr b else Inl ''upstream SPKI pin must be 64 hex digits''
      | None \<Rightarrow> Inl ''upstream SPKI pin must be 64 hex digits'')"

definition upstream_client_config :: "tls_lib \<Rightarrow> string \<Rightarrow> string + ClientConfig" where
  "upstream_client_config lib spki =
     (case parse_pin lib spki of
        Inl e \<Rightarrow> Inl e
      | Inr expected \<Rightarrow>
          (case tl_versions lib (tl_default_provider lib) of
             Inl e \<Rightarrow> Inl e
           | Inr _ \<Rightarrow> Inr \<lparr>expected_pin = Some expected, provider = tl_default_provider lib,
                alpn_protocols = [''h2''], max_fragment_size = None\<rparr>))"

definition build_upstream_connector :: "tls_lib \<Rightarrow> string \<Rightarrow> string \<Rightarrow> string + ClientConfig \<times> ServerName" where
  "build_upstream_connector lib sni spki =
     (case upstream_client_config lib spki of
        Inl e \<Rightarrow> Inl e
      | Inr config \<Rightarrow>
          (case tl_server_name lib sni of
             Inl e \<Rightarrow> Inl ''invalid SNI''
           | Inr server_name \<Rightarrow> Inr (config, server_name)))"

definition upstream_verify_server_cert :: "tls_lib \<Rightarrow> bytes \<Rightarrow> bytes \<Rightarrow> PinError + unit" where
  "upstream_verify_server_cert lib expected end_entity =
     (case spki_sha256 lib end_entity of
        None \<Rightarrow> Inl NoSpki
      | Some got \<Rightarrow> if got \<noteq> expected then Inl Mismatch else Inr ())"

section \<open>Pins\<close>

lemma to_digit16_iff:
  "to_digit16 c = Some n \<longleftrightarrow> n < 16 \<and> to_ascii_lowercase [c] = [nibble n]"
proof -
  define k :: nat where "k = of_char c"
  have k: "k < 256" "c = char_of k" by (simp_all add: k_def)
  have inj: "char_of a = (char_of b :: char) \<longleftrightarrow> a = b" if "a < 256" "b < 256" for a b :: nat
    using that by (metis mod_less of_char_of)
  show ?thesis
    unfolding to_digit16_def to_ascii_lowercase_def nibble_def Let_def k_def [symmetric] list.map
    using k(1) inj [of "k + 32" "if n < 10 then 48 + n else 87 + n"] inj [of k "if n < 10 then 48 + n else 87 + n"]
    unfolding k(2) by auto
qed

lemma to_digit16_less: "to_digit16 c = Some n \<Longrightarrow> n < 16"
  using to_digit16_iff by blast

lemma of_nat_byte_eq:
  assumes "hi < 16" "lo < 16"
  shows "of_nat (hi * 16 + lo) = (b :: byte) \<longleftrightarrow> hi = unat b div 16 \<and> lo = unat b mod 16"
proof -
  have "unat (of_nat (hi * 16 + lo) :: byte) = hi * 16 + lo"
    using assms by (simp add: unat_of_nat del: of_nat_add of_nat_mult)
  then have "of_nat (hi * 16 + lo) = b \<longleftrightarrow> unat b = hi * 16 + lo" by (metis unsigned_word_eqI)
  then show ?thesis using assms by auto
qed

lemma hex_pairs_iff: "even (length s) \<Longrightarrow> hex_pairs s = Some bs \<longleftrightarrow> to_ascii_lowercase s = hex_text bs"
proof (induction s arbitrary: bs rule: induct_list012)
  case (3 a b s)
  have lower: "to_ascii_lowercase (a # b # s) = to_ascii_lowercase [a] @ to_ascii_lowercase [b] @ to_ascii_lowercase s"
    by (simp add: to_ascii_lowercase_def)
  have div: "unat (x :: byte) div 16 < 16" "unat x mod 16 < 16" for x
    using unat_byte_less [of x] by linarith+
  show ?case
  proof (cases bs)
    case Nil
    then show ?thesis by (auto simp: lower hex_text_def to_ascii_lowercase_def split: option.splits)
  next
    case (Cons x xs)
    have "hex_pairs (a # b # s) = Some bs \<longleftrightarrow>
      to_digit16 a = Some (unat x div 16) \<and> to_digit16 b = Some (unat x mod 16) \<and> hex_pairs s = Some xs"
      using Cons of_nat_byte_eq [of _ _ x]
      by (cases "to_digit16 a"; cases "to_digit16 b") (auto dest!: to_digit16_less simp del: of_nat_add of_nat_mult)
    moreover have "hex_pairs s = Some xs \<longleftrightarrow> to_ascii_lowercase s = hex_text xs" using 3(1,3) by simp
    moreover have "hex_text bs = [nibble (unat x div 16)] @ [nibble (unat x mod 16)] @ hex_text xs"
      by (simp add: Cons hex_text_def)
    moreover obtain a' b' where "to_ascii_lowercase [a] = [a']" "to_ascii_lowercase [b] = [b']"
      by (simp add: to_ascii_lowercase_def)
    ultimately show ?thesis
      using div [of x] unfolding to_digit16_iff lower by simp
  qed
qed (auto simp: to_ascii_lowercase_def hex_text_def)

lemma decode_hex_iff: "decode_hex s = Some bs \<longleftrightarrow> to_ascii_lowercase s = hex_text bs"
proof -
  have even: "even (length (hex_text bs))" by (induction bs) (simp_all add: hex_text_def)
  have ascii: "of_char c < (128 :: nat)" if c: "c \<in> set s" and l: "to_ascii_lowercase s = hex_text bs" for c
  proof -
    obtain n where n: "to_ascii_lowercase [c] = [nibble n]" "n < 16"
    proof -
      have "hd (to_ascii_lowercase [c]) \<in> set (to_ascii_lowercase s)"
        using c by (simp add: to_ascii_lowercase_def)
      then have "hd (to_ascii_lowercase [c]) \<in> set (hex_text bs)" by (simp only: l)
      then obtain x where "hd (to_ascii_lowercase [c]) \<in> {nibble (unat x div 16), nibble (unat (x :: byte) mod 16)}"
        by (auto simp: hex_text_def)
      moreover have "unat x div 16 < 16" "unat x mod 16 < 16" using unat_byte_less [of x] by linarith+
      ultimately obtain n where "hd (to_ascii_lowercase [c]) = nibble n" "n < 16" by blast
      then show thesis using that [of n] by (simp add: to_ascii_lowercase_def)
    qed
    then show ?thesis using to_digit16_iff [of c n]
      by (auto simp: to_digit16_def Let_def split: if_splits)
  qed
  show ?thesis
  proof (cases "even (length s)")
    case True
    show ?thesis
    proof (cases "list_all (\<lambda>c. of_char c < (128 :: nat)) s")
      case a: True
      show ?thesis using True hex_pairs_iff [OF True, of bs] unfolding decode_hex_def by (simp only: a) simp
    next
      case False
      then have "to_ascii_lowercase s \<noteq> hex_text bs" using ascii unfolding list_all_iff by blast
      then show ?thesis using False by (simp add: decode_hex_def)
    qed
  next
    case False
    have "length (to_ascii_lowercase s) = length s" by (simp add: to_ascii_lowercase_def)
    then have "to_ascii_lowercase s \<noteq> hex_text bs" using even False by metis
    then show ?thesis using False by (simp add: decode_hex_def)
  qed
qed

lemma parse_spki_pin_iff:
  "parse_spki_pin s = Inr pin \<longleftrightarrow> length pin = 32 \<and> to_ascii_lowercase s = hex_text pin"
proof (cases "s = []")
  case True
  have "hex_text pin \<noteq> []" if "length pin = 32" using that by (cases pin) (auto simp: hex_text_def)
  then show ?thesis using True by (auto simp: parse_spki_pin_def to_ascii_lowercase_def)
next
  case False
  then show ?thesis
    by (cases "decode_hex s") (auto simp: parse_spki_pin_def simp flip: decode_hex_iff)
qed

lemma lower_hex_text [simp]: "to_ascii_lowercase (hex_text b) = hex_text b"
proof -
  have "to_ascii_lowercase [nibble n] = [nibble n]" if "n < 16" for n
    using that by (auto simp: nibble_def to_ascii_lowercase_def Let_def)
  then have "to_ascii_lowercase [nibble (unat x div 16), nibble (unat x mod 16)]
      = [nibble (unat x div 16), nibble (unat x mod 16)]" for x :: byte
    using unat_byte_less [of x] by (simp add: to_ascii_lowercase_def less_mult_imp_div_less)
  then show ?thesis by (induction b) (simp_all add: hex_text_def to_ascii_lowercase_def)
qed

lemma hex_text_inject: "hex_text a = hex_text b \<Longrightarrow> a = b"
  using decode_hex_iff [of "hex_text b" a] decode_hex_iff [of "hex_text b" b] by simp

text \<open>The application's hook may change anything but the certificate verifier.\<close>

definition hook_ok :: "TlsClientHook option \<Rightarrow> bool" where
  "hook_ok hook \<longleftrightarrow> (\<forall>h. hook = Some h \<longrightarrow> (\<forall>c. expected_pin (h c) = expected_pin c))"

lemma client_config_pin:
  "hook_ok hook \<Longrightarrow> client_config lib hook pin prof alpn = Inr cfg \<Longrightarrow> expected_pin cfg = pin"
  by (auto simp: client_config_def hook_ok_def Let_def split: sum.splits option.splits if_splits)

lemma build_connector_pin:
  assumes "hook_ok hook" "build_connector lib hook sni spki addr prof alpn = Inr (cfg, name)"
  obtains pin where "expected_pin cfg = Some pin" "length pin = 32" "to_ascii_lowercase spki = hex_text pin"
  using assms client_config_pin parse_spki_pin_iff
  by (auto simp: build_connector_def split: sum.splits)

lemma verify_server_cert_iff:
  "expected_pin cfg = Some pin \<Longrightarrow> verify_server_cert lib cfg cert = Inr () \<longleftrightarrow> spki_sha256 lib cert = Some pin"
  by (auto simp: verify_server_cert_def split: option.splits)

text \<open>(C37) The pin is enforced.  A connector is only ever built with a pin of exactly 64 hex digits, in either case;
  whatever SNI, profile and ALPN it is built with, and whatever the application's hook changes besides
  the verifier, it accepts a certificate exactly when the SHA-256 of its public key info is the pinned
  value.  The chain hop's connector does the same.\<close>

theorem spki_pin_enforced:
  assumes "hook_ok hook" "\<forall>s b. tl_hex_decode lib s = Some b \<longrightarrow> to_ascii_lowercase s = hex_text b"
  shows "(build_connector lib hook sni spki addr prof alpn = Inr (cfg, name) \<longrightarrow>
       (\<exists>pin. length pin = 32 \<and> to_ascii_lowercase spki = hex_text pin
          \<and> (verify_server_cert lib cfg cert = Inr () \<longleftrightarrow> spki_sha256 lib cert = Some pin)))
    \<and> (build_upstream_connector lib sni spki = Inr (cfg, name) \<longrightarrow>
       (\<exists>pin. length pin = 32 \<and> to_ascii_lowercase spki = hex_text pin \<and> expected_pin cfg = Some pin
          \<and> (upstream_verify_server_cert lib pin cert = Inr () \<longleftrightarrow> spki_sha256 lib cert = Some pin)))"
proof (intro conjI impI)
  assume "build_connector lib hook sni spki addr prof alpn = Inr (cfg, name)"
  from build_connector_pin [OF assms(1) this] show "\<exists>pin. length pin = 32 \<and> to_ascii_lowercase spki = hex_text pin
      \<and> (verify_server_cert lib cfg cert = Inr () \<longleftrightarrow> spki_sha256 lib cert = Some pin)"
    using verify_server_cert_iff by metis
next
  assume "build_upstream_connector lib sni spki = Inr (cfg, name)"
  then obtain pin where "tl_hex_decode lib spki = Some pin" "length pin = 32" "expected_pin cfg = Some pin"
    by (auto simp: build_upstream_connector_def upstream_client_config_def parse_pin_def
        split: sum.splits option.splits if_splits)
  then show "\<exists>pin. length pin = 32 \<and> to_ascii_lowercase spki = hex_text pin \<and> expected_pin cfg = Some pin
      \<and> (upstream_verify_server_cert lib pin cert = Inr () \<longleftrightarrow> spki_sha256 lib cert = Some pin)"
    using assms(2) by (auto simp: upstream_verify_server_cert_def split: option.splits)
qed

definition demo_tls :: tls_lib where
  "demo_tls = \<lparr>tl_default_provider = \<lparr>cipher_suites = [], kx_groups = []\<rparr>, tl_versions = (\<lambda>_. Inr ()),
     tl_server_name = (\<lambda>s. Inr (DnsName s)), tl_single_cert = (\<lambda>_ _. Inr ()),
     tl_x509_spki = (\<lambda>c. if c = [] then None else Some (Some c)), tl_sha256 = (\<lambda>b. take 32 (b @ replicate 32 0)),
     tl_hex_decode = decode_hex, tl_hex_encode = hex_text\<rparr>"

lemma demo_tls_parts:
  "tl_versions demo_tls p = Inr ()" "tl_server_name demo_tls n = Inr (DnsName n)"
  by (simp_all add: demo_tls_def)

theorem spki_pin_enforced_witness:
  "\<exists>cfg name. build_connector demo_tls None ''front'' (hex_text (replicate 32 9)) [] Chrome131 (Some [''h2''])
       = Inr (cfg, name)
     \<and> verify_server_cert demo_tls cfg (replicate 40 9) = Inr () \<and> verify_server_cert demo_tls cfg [] \<noteq> Inr ()"
proof -
  let ?s = "hex_text (replicate 32 9)"
  have p: "parse_spki_pin ?s = Inr (replicate 32 9)" by (simp add: parse_spki_pin_iff)
  then obtain cfg name where b: "build_connector demo_tls None ''front'' ?s [] Chrome131 (Some [''h2'']) = Inr (cfg, name)"
    using demo_tls_parts by (auto simp: build_connector_def client_config_def resolve_server_name_def Let_def)
  have d: "\<forall>s b. tl_hex_decode demo_tls s = Some b \<longrightarrow> to_ascii_lowercase s = hex_text b"
    by (simp add: demo_tls_def decode_hex_iff)
  have h: "hook_ok None" by (simp add: hook_ok_def)
  have k: "spki_sha256 demo_tls (replicate 40 9) = Some (replicate 32 9)" "spki_sha256 demo_tls [] = None"
    by (simp_all add: spki_sha256_def demo_tls_def take_replicate)
  have v: "\<exists>pin. ?s = hex_text pin \<and> (verify_server_cert demo_tls cfg cert = Inr () \<longleftrightarrow> spki_sha256 demo_tls cert = Some pin)"
    for cert using spki_pin_enforced [OF h d, of "''front''" ?s "[]" Chrome131 "Some [''h2'']" cfg name cert] b by auto
  have "verify_server_cert demo_tls cfg (replicate 40 9) = Inr ()"
    using v [of "replicate 40 9"] k(1) hex_text_inject by metis
  moreover have "verify_server_cert demo_tls cfg [] \<noteq> Inr ()"
    using v [of "[]"] k(2) by auto
  ultimately show ?thesis using b by blast
qed

text \<open>(C38) The pin a relay prints is the pin of its own certificate.  A client configured with it accepts the
  relay's leaf certificate, if that is an X.509 certificate at all, and otherwise only certificates of
  the same public key hash; the printed text never fails to parse.\<close>

theorem printed_pin_accepts_own_certificate:
  assumes "\<forall>b. tl_hex_encode lib b = hex_text b" "\<forall>b. length (tl_sha256 lib b) = 32" "hook_ok hook"
    and "from_certs lib (leaf # chain) key = Inr t"
  shows "(\<exists>pin. parse_spki_pin (spki_hex t) = Inr pin)
    \<and> (build_connector lib hook sni (spki_hex t) addr prof alpn = Inr (cfg, name) \<longrightarrow>
        (tl_x509_spki lib leaf = Some (Some der) \<longrightarrow>
           (verify_server_cert lib cfg cert = Inr () \<longleftrightarrow> spki_sha256 lib cert = Some (tl_sha256 lib der)))
      \<and> (tl_x509_spki lib leaf = None \<longrightarrow> verify_server_cert lib cfg leaf = Inl NoSpki))"
proof -
  obtain h where h: "spki_hex t = hex_text h" "length h = 32"
    "\<forall>der. tl_x509_spki lib leaf = Some (Some der) \<longrightarrow> h = tl_sha256 lib der"
    using assms by (auto simp: from_certs_def compute_spki_hex_def split: sum.splits option.splits)
  have "parse_spki_pin (spki_hex t) = Inr h" using h by (simp add: parse_spki_pin_iff)
  moreover have "expected_pin cfg = Some h"
    if "build_connector lib hook sni (spki_hex t) addr prof alpn = Inr (cfg, name)"
    using build_connector_pin [OF assms(3) that] h(1) hex_text_inject by (metis lower_hex_text)
  ultimately show ?thesis
    using h(3) verify_server_cert_iff by (auto simp: verify_server_cert_def spki_sha256_def split: option.splits)
qed

theorem printed_pin_accepts_own_certificate_witness:
  "\<exists>t cfg name. from_certs demo_tls [[1, 2]] [3] = Inr t
     \<and> build_connector demo_tls None ''front'' (spki_hex t) '''' Firefox128 None = Inr (cfg, name)
     \<and> verify_server_cert demo_tls cfg [1, 2] = Inr ()"
proof -
  let ?t = "\<lparr>acceptor = \<lparr>server_certs = [[1, 2]], server_provider = \<lparr>cipher_suites = [], kx_groups = []\<rparr>,
    server_alpn = [], server_max_fragment_size = Some MAX_TLS_PLAINTEXT\<rparr>, spki_hex = compute_spki_hex demo_tls [1, 2]\<rparr>"
  have t: "from_certs demo_tls ([1, 2] # []) [3] = Inr ?t"
    by (simp add: from_certs_def server_config_def demo_tls_def)
  have e: "\<forall>b. tl_hex_encode demo_tls b = hex_text b" "\<forall>b. length (tl_sha256 demo_tls b) = 32" "hook_ok None"
    by (auto simp: demo_tls_def hook_ok_def min_def)
  note pinned = printed_pin_accepts_own_certificate [OF e t]
  from pinned obtain pin where "parse_spki_pin (spki_hex ?t) = Inr pin" by blast
  then obtain cfg name where b: "build_connector demo_tls None ''front'' (spki_hex ?t) '''' Firefox128 None = Inr (cfg, name)"
    using demo_tls_parts by (auto simp: build_connector_def client_config_def resolve_server_name_def Let_def)
  moreover have "tl_x509_spki demo_tls [1, 2] = Some (Some [1, 2])"
    "spki_sha256 demo_tls [1, 2] = Some (tl_sha256 demo_tls [1, 2])"
    by (simp_all add: demo_tls_def spki_sha256_def)
  ultimately have "verify_server_cert demo_tls cfg [1, 2] = Inr ()" using pinned by auto
  then show ?thesis using t b by blast
qed

section \<open>The advertised fingerprint\<close>

text \<open>The JA3 text of a profile, computed from the provider it configures: the IANA numbers of its suites and
  groups in order, and the ALPN extension exactly when it offers protocols.\<close>

fun suite_number :: "CipherSuite \<Rightarrow> string" where
  "suite_number TLS13_AES_128_GCM_SHA256 = ''4865''"
| "suite_number TLS13_AES_256_GCM_SHA384 = ''4866''"
| "suite_number TLS13_CHACHA20_POLY1305_SHA256 = ''4867''"
| "suite_number TLS_ECDHE_ECDSA_WITH_AES_128_GCM_SHA256 = ''49195''"
| "suite_number TLS_ECDHE_ECDSA_WITH_AES_256_GCM_SHA384 = ''49196''"
| "suite_number TLS_ECDHE_RSA_WITH_AES_128_GCM_SHA256 = ''49199''"
| "suite_number TLS_ECDHE_RSA_WITH_AES_256_GCM_SHA384 = ''49200''"
| "suite_number TLS_ECDHE_RSA_WITH_CHACHA20_POLY1305_SHA256 = ''52392''"
| "suite_number TLS_ECDHE_ECDSA_WITH_CHACHA20_POLY1305_SHA256 = ''52393''"

fun group_number :: "KxGroup \<Rightarrow> string" where
  "group_number X25519MLKEM768 = ''4588''"
| "group_number X25519 = ''29''"
| "group_number SECP256R1 = ''23''"
| "group_number SECP384R1 = ''24''"

fun dashed :: "string list \<Rightarrow> string" where
  "dashed [] = []"
| "dashed [s] = s"
| "dashed (s # t # ss) = s @ ''-'' @ dashed (t # ss)"

definition ja3_of :: "CryptoProvider \<Rightarrow> string list \<Rightarrow> string" where
  "ja3_of prov alpn = ''771,'' @ dashed (map suite_number (cipher_suites prov)) @ '',''
     @ dashed ([''0'', ''23'', ''10'', ''11''] @ (if alpn = [] then [] else [''16'']) @ [''13'', ''43'', ''51'', ''45''])
     @ '','' @ dashed (map group_number (kx_groups prov)) @ '',0''"

lemma ja3_matches_provider:
  "ja3_string Chrome131 = ja3_of (crypto_provider d Chrome131) (profile_alpn Chrome131)"
  "ja3_string Firefox128 = ja3_of (crypto_provider d Firefox128) (profile_alpn Firefox128)"
  by (simp_all add: ja3_of_def chrome_131_provider_def firefox_128_provider_def)

text \<open>The recognisable test profile is never chosen by default or by a misspelt name.\<close>

lemma from_name_Rustls: "from_name s = Some Rustls \<longleftrightarrow> to_ascii_lowercase s = ''rustls''"
  by (auto simp: from_name_def profile_default_def Let_def)

end
