(* ===== verification/Adapter.thy ===== *)
theory Adapter
  imports Session Chain Tls
begin

text \<open>The client's veil-front method (\<^verbatim>\<open>src/src/veil/veil_front_adapter.rs\<close>) and the errors and requests it
  shares with the coordinator (\<^verbatim>\<open>src/src/veil/obfuscator.rs\<close>): dial and authenticate, the probe, and the
  ferry between a local connection and the tunnel.

  What the network and the TLS library answer during a dial is the record \<^verbatim>\<open>client_dial\<close>; base64 and hex
  decoding are the record \<^verbatim>\<open>text_codecs\<close>.  Error texts keep their fixed part.

  The two directions of the ferry are two tasks over their own halves of the session.  A tick of the
  up task is the time at the head of its loop, what the local read gave (nothing when the 20 ms timer
  ran out first) and the time at which it asks for a frame; while the session only waits for local
  bytes no timer is armed, so such a tick does not wake it.\<close>

section \<open>Errors and requests\<close>

datatype tls_error = AlertReceived byte | InvalidCertificate | OtherTlsError

datatype ObfuscatorError =
    OIo io_error | OConnectionRefused | OTls string | OHandshake string | OTimeout | OCancelled
  | OFingerprintBlocked | OCertProblem string | OUnknown string

text \<open>The argument is the rustls error inside the \<^verbatim>\<open>io::Error\<close>, if there is one, and its message; alert 40
  is \<^verbatim>\<open>handshake_failure\<close>.\<close>

definition from_tls_connect :: "tls_error option \<Rightarrow> string \<Rightarrow> ObfuscatorError" where
  "from_tls_connect inner msg =
     (case inner of
        Some (AlertReceived a) \<Rightarrow> if a = 40 then OFingerprintBlocked else OTls msg
      | Some InvalidCertificate \<Rightarrow> OCertProblem msg
      | _ \<Rightarrow> OTls msg)"

record VeilFrontAuthV3 =
  auth_capability_v2_b64 :: string
  veil_sk_hex :: string

definition auth_v3_default :: VeilFrontAuthV3 where
  "auth_v3_default = \<lparr>auth_capability_v2_b64 = [], veil_sk_hex = []\<rparr>"

record ProbeRequest =
  relay_addr :: string
  tls_sni :: string
  req_spki_hex :: string
  veil_front_ticket_b64 :: string
  auth_v3 :: VeilFrontAuthV3

section \<open>Credentials\<close>

record text_codecs =
  base64_decode :: "string \<Rightarrow> bytes option"
  hex_decode :: "string \<Rightarrow> bytes option"

definition unix_now :: "u64 option \<Rightarrow> u64" where
  "unix_now since_epoch = (case since_epoch of Some secs \<Rightarrow> secs | None \<Rightarrow> 0)"

definition ensure_valid_now :: "bool \<Rightarrow> ObfuscatorError + unit" where
  "ensure_valid_now valid =
     (if valid then Inr ()
      else Inl (OCertProblem ''veil-front capability is outside its validity window (expired?)''))"

definition parse_capability :: "text_codecs \<Rightarrow> string \<Rightarrow> (ObfuscatorError + Capability) exec" where
  "parse_capability tc capability_b64 =
     (if capability_b64 = [] then
        Done (Inl (OHandshake ''veil-front capability is empty (not configured)''))
      else case base64_decode tc capability_b64 of
        None \<Rightarrow> Done (Inl (OHandshake ''capability base64 decode''))
      | Some raw \<Rightarrow>
          exec_bind (cap_decode_slice raw) (\<lambda>c. Done (case c of
             None \<Rightarrow> Inl (OHandshake ''invalid capability: malformed blob'')
           | Some cap \<Rightarrow> Inr cap)))"

definition parse_capability_v2 :: "text_codecs \<Rightarrow> string \<Rightarrow> (ObfuscatorError + CapabilityV2) exec" where
  "parse_capability_v2 tc capability_b64 =
     (case base64_decode tc capability_b64 of
        None \<Rightarrow> Done (Inl (OHandshake ''capability_v2 base64 decode''))
      | Some raw \<Rightarrow>
          exec_bind (cap2_decode_slice raw) (\<lambda>c. Done (case c of
             None \<Rightarrow> Inl (OHandshake ''invalid capability_v2: malformed blob'')
           | Some cap \<Rightarrow> Inr cap)))"

definition parse_veil_sk :: "text_codecs \<Rightarrow> string \<Rightarrow> ObfuscatorError + bytes" where
  "parse_veil_sk tc sk_hex =
     (case hex_decode tc sk_hex of
        None \<Rightarrow> Inl (OHandshake ''veil_sk hex decode'')
      | Some raw \<Rightarrow> if length raw = 32 then Inr raw else Inl (OHandshake ''veil_sk must be 32 bytes''))"

section \<open>Authentication\<close>

text \<open>The AUTH frame: generation 3 when both of its parameters are configured, otherwise generation 2.\<close>

definition auth_frame ::
  "crypto \<Rightarrow> text_codecs \<Rightarrow> u64 option \<Rightarrow> bytes \<Rightarrow> string \<Rightarrow> VeilFrontAuthV3 \<Rightarrow> (ObfuscatorError + Frame) exec" where
  "auth_frame cr tc clock exporter capability_b64 auth =
     (if auth_capability_v2_b64 auth \<noteq> [] \<and> veil_sk_hex auth \<noteq> [] then
        try_bind (parse_capability_v2 tc (auth_capability_v2_b64 auth)) (\<lambda>cap.
        try_bind (Done (ensure_valid_now (cap2_is_valid_at cap (unix_now clock)))) (\<lambda>_.
        try_bind (Done (parse_veil_sk tc (veil_sk_hex auth))) (\<lambda>veil_sk.
        exec_bind (v3_encode_payload (v3_from_capability cr cap veil_sk exporter)) (\<lambda>p.
          Done (Inr (frame_auth_v3 p))))))
      else
        try_bind (parse_capability tc capability_b64) (\<lambda>cap.
        try_bind (Done (ensure_valid_now (cap_is_valid_at cap (unix_now clock)))) (\<lambda>_.
        exec_bind (v2_encode_payload (v2_from_capability cr cap exporter)) (\<lambda>p.
          Done (Inr (frame_auth_v2 p))))))"

text \<open>Write and flush one frame.\<close>

definition send_flushed :: "Frame \<Rightarrow> writer \<Rightarrow> (ObfuscatorError + unit) \<times> writer" where
  "send_flushed f w =
     (case send_frame padded_codec f w of
        (Inl e, w) \<Rightarrow> (Inl (OIo e), w)
      | (Inr _, w) \<Rightarrow>
          (case write_op Flush w of
             (Inl e, w) \<Rightarrow> (Inl (OIo e), w)
           | (Inr _, w) \<Rightarrow> (Inr (), w)))"

definition authenticate_over ::
  "crypto \<Rightarrow> text_codecs \<Rightarrow> u64 option \<Rightarrow> writer \<Rightarrow> bytes \<Rightarrow> string \<Rightarrow> VeilFrontAuthV3 \<Rightarrow>
     ((ObfuscatorError + unit) \<times> writer) exec" where
  "authenticate_over cr tc clock relay_wr exporter capability_b64 auth =
     exec_bind (auth_frame cr tc clock exporter capability_b64 auth) (\<lambda>r. Done (case r of
        Inl e \<Rightarrow> (Inl e, relay_wr)
      | Inr f \<Rightarrow> send_flushed f relay_wr))"

section \<open>Dialing\<close>

record client_env =
  ce_tls :: tls_lib
  ce_hook :: "TlsClientHook option"
  ce_crypto :: crypto
  ce_text :: text_codecs
  ce_clock :: "u64 option"

record client_dial =
  cd_connect :: "(io_error + unit) option"
  cd_nodelay :: "io_error + unit"
  cd_handshake :: "ClientConfig \<Rightarrow> ServerName \<Rightarrow> (tls_error option \<times> string) + unit"
  cd_exporter :: "string + bytes"
  cd_took :: duration
  cd_stream :: writer

definition dial_utls_tcp :: "client_env \<Rightarrow> client_dial \<Rightarrow> string \<Rightarrow> string \<Rightarrow> string \<Rightarrow> ObfuscatorError + unit" where
  "dial_utls_tcp env d sni spki addr =
     (case build_connector (ce_tls env) (ce_hook env) sni spki addr Chrome131 (Some [''h2'']) of
        Inl e \<Rightarrow> Inl (OTls e)
      | Inr (connector, server_name) \<Rightarrow>
          (case cd_handshake d connector server_name of
             Inl (inner, msg) \<Rightarrow> Inl (from_tls_connect inner msg)
           | Inr _ \<Rightarrow> Inr ()))"

definition derive_exporter :: "client_dial \<Rightarrow> ObfuscatorError + bytes" where
  "derive_exporter d = (case cd_exporter d of Inl e \<Rightarrow> Inl (OTls ''TLS exporter failed'') | Inr x \<Rightarrow> Inr x)"

definition TLS_AND_AUTH_TIMEOUT :: duration where "TLS_AND_AUTH_TIMEOUT = from_secs 10"

text \<open>\<^verbatim>\<open>cd_connect\<close> is absent when five seconds passed first; \<^verbatim>\<open>cd_took\<close> is the time the
  handshake and the AUTH write take together.  The stream returned is its write half.\<close>

definition dial_and_authenticate_within ::
  "client_env \<Rightarrow> client_dial \<Rightarrow> string \<Rightarrow> string \<Rightarrow> string \<Rightarrow> string \<Rightarrow> VeilFrontAuthV3 \<Rightarrow> duration \<Rightarrow>
     (ObfuscatorError + writer) exec" where
  "dial_and_authenticate_within env d addr sni spki capability_b64 auth tls_and_auth_timeout =
     (case cd_connect d of
        None \<Rightarrow> Done (Inl OTimeout)
      | Some (Inl e) \<Rightarrow>
          Done (Inl (if io_error_kind e = KConnectionRefused then OConnectionRefused else OIo e))
      | Some (Inr _) \<Rightarrow>
          (case cd_nodelay d of
             Inl e \<Rightarrow> Done (Inl (OIo e))
           | Inr _ \<Rightarrow>
               if tls_and_auth_timeout < cd_took d then Done (Inl OTimeout)
               else
                 try_bind (Done (dial_utls_tcp env d sni spki addr)) (\<lambda>_.
                 try_bind (Done (derive_exporter d)) (\<lambda>exporter.
                 exec_bind (authenticate_over (ce_crypto env) (ce_text env) (ce_clock env) (cd_stream d) exporter
                     capability_b64 auth) (\<lambda>(r, w).
                   Done (case r of Inl e \<Rightarrow> Inl e | Inr _ \<Rightarrow> Inr w))))))"

definition dial_and_authenticate ::
  "client_env \<Rightarrow> client_dial \<Rightarrow> string \<Rightarrow> string \<Rightarrow> string \<Rightarrow> string \<Rightarrow> VeilFrontAuthV3 \<Rightarrow> (ObfuscatorError + writer) exec" where
  "dial_and_authenticate env d addr sni spki capability_b64 auth =
     dial_and_authenticate_within env d addr sni spki capability_b64 auth TLS_AND_AUTH_TIMEOUT"

section \<open>The probe\<close>

definition H2_PREFACE_AND_SETTINGS :: bytes where
  "H2_PREFACE_AND_SETTINGS =
     [80, 82, 73, 32, 42, 32, 72, 84, 84, 80, 47, 50, 46, 48, 13, 10, 13, 10, 83, 77, 13, 10, 13, 10,
      0, 0, 0, 4, 0, 0, 0, 0, 0]"

function probe_verdict :: "VeilFrontCodec \<Rightarrow> bytes \<Rightarrow> (ObfuscatorError + unit) option \<times> bytes" where
  "probe_verdict codec rx_buf =
     (case decode codec rx_buf of
        (Inr (Some frame), rx_buf) \<Rightarrow>
          if frame_type frame = FRAME_TYPE_DATA then (Some (Inr ()), rx_buf)
          else if frame_type frame = FRAME_TYPE_CHAFF then probe_verdict codec rx_buf
          else (Some (Inl (OHandshake ''unexpected frame type after auth'')), rx_buf)
      | (Inr None, rx_buf) \<Rightarrow> (None, rx_buf)
      | (Inl e, rx_buf) \<Rightarrow> (Some (Inl (OHandshake ''frame decode error (routed to site)'')), rx_buf))"
  by pat_completeness auto

termination probe_verdict
  by (relation "measure (length \<circ> snd)") (auto dest: decode_shrinks [OF sym])

declare probe_verdict.simps [simp del]

text \<open>The read loop; each read has seven seconds, and a silent peer is one that lets them pass.\<close>

fun probe_loop :: "VeilFrontCodec \<Rightarrow> gate_read list \<Rightarrow> bytes \<Rightarrow> nat \<Rightarrow> ObfuscatorError + unit" where
  "probe_loop codec [] rx_buf total_read = Inl OTimeout"
| "probe_loop codec (TimedOut # reads) rx_buf total_read = Inl OTimeout"
| "probe_loop codec (ReadErr e # reads) rx_buf total_read = Inl (OIo e)"
| "probe_loop codec (ReadData d # reads) rx_buf total_read =
     (if d = [] then Inl (OHandshake ''relay closed connection after auth'')
      else
        let total_read = total_read + length d in
        case probe_verdict codec (rx_buf @ d) of
          (Some v, _) \<Rightarrow> v
        | (None, rx_buf) \<Rightarrow>
            if 65536 < total_read
            then Inl (OHandshake ''received >64KB without a DATA frame (likely routed to site)'')
            else probe_loop codec reads rx_buf total_read)"

definition probe_veil_front ::
  "client_env \<Rightarrow> client_dial \<Rightarrow> gate_read list \<Rightarrow> ProbeRequest \<Rightarrow> ((ObfuscatorError + unit) \<times> writer) exec" where
  "probe_veil_front env d reads req =
     exec_bind (dial_and_authenticate env d (relay_addr req) (tls_sni req) (req_spki_hex req)
        (veil_front_ticket_b64 req) (auth_v3 req)) (\<lambda>r. Done (case r of
        Inl e \<Rightarrow> (Inl e, cd_stream d)
      | Inr w \<Rightarrow>
          (case send_flushed (frame_data H2_PREFACE_AND_SETTINGS) w of
             (Inl e, w) \<Rightarrow> (Inl e, w)
           | (Inr _, w) \<Rightarrow> (probe_loop padded_codec reads [] 0, w))))"

text \<open>The handle's future: cancelled, or the probe's result.\<close>

definition first_byte :: "bool \<Rightarrow> ObfuscatorError + unit \<Rightarrow> ObfuscatorError + unit" where
  "first_byte cancelled probe = (if cancelled then Inl OCancelled else probe)"

section \<open>The ferry\<close>

datatype 's up_end = UpDone "'s WriteStrategy" | UpFailed ObfuscatorError | UpWaiting "'s VeilFrontUp"

type_synonym up_tick = "instant \<times> read_event option \<times> instant"

fun ferry_up :: "'s chacha \<Rightarrow> up_tick list \<Rightarrow> 's VeilFrontUp \<Rightarrow> writer \<Rightarrow> 's up_end \<times> writer" where
  "ferry_up c [] up relay_wr = (UpWaiting up, relay_wr)"
| "ferry_up c ((now, rd, now') # ticks) up relay_wr =
     (let emit = (\<lambda>up.
            case next_wire c now' up of
              (Inl e, up) \<Rightarrow> (UpFailed (OIo (frame_io e)), relay_wr)
            | (Inr None, up) \<Rightarrow> ferry_up c ticks up relay_wr
            | (Inr (Some out), up) \<Rightarrow>
                (case write_op (Write out) relay_wr of
                   (Inl e, relay_wr) \<Rightarrow> (UpFailed (OIo e), relay_wr)
                 | (Inr _, relay_wr) \<Rightarrow>
                     (case write_op Flush relay_wr of
                        (Inl e, relay_wr) \<Rightarrow> (UpFailed (OIo e), relay_wr)
                      | (Inr _, relay_wr) \<Rightarrow> ferry_up c ticks up relay_wr)))
      in case rd of
           None \<Rightarrow> if waits_for_local up now then ferry_up c ticks up relay_wr else emit up
         | Some (RFail e) \<Rightarrow> (UpFailed (OIo e), relay_wr)
         | Some (RData d) \<Rightarrow>
             if d = [] then
               (case write_op Shutdown relay_wr of
                  (Inl e, relay_wr) \<Rightarrow> (UpFailed (OIo e), relay_wr)
                | (Inr _, relay_wr) \<Rightarrow> (UpDone (strategy up), relay_wr))
             else emit (queue_local d up))"

datatype down_end = DownDone | DownFailed ObfuscatorError | DownWaiting VeilFrontDown

lemma next_payload_shrinks: "next_payload d = (Inr (Some p), d') \<Longrightarrow> length (down_buf d') < length (down_buf d)"
  using next_payload_drain [of d]
  by (cases "drain_frames (down_codec d) (down_buf d)") (auto split: list.splits option.splits)

function down_drain :: "VeilFrontDown \<Rightarrow> writer \<Rightarrow> (ObfuscatorError + VeilFrontDown) \<times> writer" where
  "down_drain down_session local_wr =
     (case next_payload down_session of
        (Inl e, _) \<Rightarrow> (Inl (OIo (frame_io e)), local_wr)
      | (Inr None, down_session) \<Rightarrow> (Inr down_session, local_wr)
      | (Inr (Some p), down_session) \<Rightarrow>
          (case write_op (Write p) local_wr of
             (Inl e, local_wr) \<Rightarrow> (Inl (OIo e), local_wr)
           | (Inr _, local_wr) \<Rightarrow> down_drain down_session local_wr))"
  by pat_completeness auto

termination down_drain
  by (relation "measure (length \<circ> down_buf \<circ> fst)") (auto dest: next_payload_shrinks [OF sym])

declare down_drain.simps [simp del]

fun ferry_down :: "read_event list \<Rightarrow> VeilFrontDown \<Rightarrow> writer \<Rightarrow> down_end \<times> writer" where
  "ferry_down relay_rd down_session local_wr =
     (case down_drain down_session local_wr of
        (Inl e, local_wr) \<Rightarrow> (DownFailed e, local_wr)
      | (Inr down_session, local_wr) \<Rightarrow>
          (case relay_rd of
             [] \<Rightarrow> (DownWaiting down_session, local_wr)
           | RFail e # _ \<Rightarrow> (DownFailed (OIo e), local_wr)
           | RData d # relay_rd \<Rightarrow>
               if d = [] then
                 (case write_op Shutdown local_wr of
                    (Inl e, local_wr) \<Rightarrow> (DownFailed (OIo e), local_wr)
                  | (Inr _, local_wr) \<Rightarrow> (DownDone, local_wr))
               else ferry_down relay_rd (feed d down_session) local_wr))"

declare ferry_down.simps [simp del]

record 's ferry_run =
  fr_result :: "(ObfuscatorError + 's WriteStrategy) option"
  fr_relay :: writer
  fr_local :: writer

text \<open>The half-close rule: when the local side finishes first the response is still awaited; when the relay
  finishes first the up task is dropped.  \<^verbatim>\<open>up_first\<close> says which of two finished tasks was first, and
  \<^verbatim>\<open>fresh\<close> is the strategy reported when the up task was dropped.  Nothing is returned while the ferry
  still runs.\<close>

fun ferry_join :: "bool \<Rightarrow> 's WriteStrategy \<Rightarrow> 's up_end \<Rightarrow> down_end \<Rightarrow> (ObfuscatorError + 's WriteStrategy) option" where
  "ferry_join up_first fresh (UpWaiting _) (DownWaiting _) = None"
| "ferry_join up_first fresh (UpWaiting _) (DownFailed e) = Some (Inl e)"
| "ferry_join up_first fresh (UpWaiting _) DownDone = Some (Inr fresh)"
| "ferry_join up_first fresh (UpFailed e) (DownWaiting _) = Some (Inl e)"
| "ferry_join up_first fresh (UpDone st) (DownWaiting _) = None"
| "ferry_join up_first fresh (UpFailed e) (DownFailed e') = Some (Inl (if up_first then e else e'))"
| "ferry_join up_first fresh (UpFailed e) DownDone = Some (if up_first then Inl e else Inr fresh)"
| "ferry_join up_first fresh (UpDone st) (DownFailed e) = Some (Inl e)"
| "ferry_join up_first fresh (UpDone st) DownDone = Some (Inr (if up_first then st else fresh))"

definition run_ferry ::
  "'s chacha \<Rightarrow> 's \<Rightarrow> 's \<Rightarrow> bool \<Rightarrow> up_tick list \<Rightarrow> read_event list \<Rightarrow> writer \<Rightarrow> writer \<Rightarrow> 's ferry_run" where
  "run_ferry c s fresh up_first ticks relay_rd relay_wr local_wr =
     (let (up_session, down_session) = session_new c s;
          (up, relay_wr) = ferry_up c ticks up_session relay_wr;
          (down, local_wr) = ferry_down relay_rd down_session local_wr
      in \<lparr>fr_result = ferry_join up_first (strategy_new c fresh) up down, fr_relay = relay_wr, fr_local = local_wr\<rparr>)"

definition run_veil_front_ferry_with_metrics ::
  "client_env \<Rightarrow> client_dial \<Rightarrow> 's chacha \<Rightarrow> 's \<Rightarrow> 's \<Rightarrow> bool \<Rightarrow> up_tick list \<Rightarrow> read_event list \<Rightarrow> writer \<Rightarrow>
     string \<Rightarrow> string \<Rightarrow> string \<Rightarrow> string \<Rightarrow> VeilFrontAuthV3 \<Rightarrow> 's ferry_run exec" where
  "run_veil_front_ferry_with_metrics env d c s fresh up_first ticks relay_rd local_wr addr sni spki ticket_b64 auth =
     exec_bind (dial_and_authenticate env d addr sni spki ticket_b64 auth) (\<lambda>r. Done (case r of
        Inl e \<Rightarrow> \<lparr>fr_result = Some (Inl e), fr_relay = cd_stream d, fr_local = local_wr\<rparr>
      | Inr relay_wr \<Rightarrow> run_ferry c s fresh up_first ticks relay_rd relay_wr local_wr))"

definition run_veil_front_ferry_external ::
  "crypto \<Rightarrow> text_codecs \<Rightarrow> u64 option \<Rightarrow> 's chacha \<Rightarrow> 's \<Rightarrow> 's \<Rightarrow> bool \<Rightarrow> up_tick list \<Rightarrow> read_event list \<Rightarrow> writer \<Rightarrow>
     writer \<Rightarrow> bytes \<Rightarrow> string \<Rightarrow> VeilFrontAuthV3 \<Rightarrow> 's ferry_run exec" where
  "run_veil_front_ferry_external cr tc clock c s fresh up_first ticks relay_rd local_wr relay_wr exporter capability_b64 auth =
     exec_bind (authenticate_over cr tc clock relay_wr exporter capability_b64 auth) (\<lambda>(r, relay_wr). Done (case r of
        Inl e \<Rightarrow> \<lparr>fr_result = Some (Inl e), fr_relay = relay_wr, fr_local = local_wr\<rparr>
      | Inr _ \<Rightarrow> run_ferry c s fresh up_first ticks relay_rd relay_wr local_wr))"

text \<open>The caller that does not read the statistics of the session.\<close>

definition run_veil_front_ferry ::
  "client_env \<Rightarrow> client_dial \<Rightarrow> 's chacha \<Rightarrow> 's \<Rightarrow> 's \<Rightarrow> bool \<Rightarrow> up_tick list \<Rightarrow> read_event list \<Rightarrow> writer \<Rightarrow>
     string \<Rightarrow> string \<Rightarrow> string \<Rightarrow> string \<Rightarrow> VeilFrontAuthV3 \<Rightarrow>
     ((ObfuscatorError + unit) option \<times> writer \<times> writer) exec" where
  "run_veil_front_ferry env d c s fresh up_first ticks relay_rd local_wr addr sni spki ticket_b64 auth =
     exec_bind (run_veil_front_ferry_with_metrics env d c s fresh up_first ticks relay_rd local_wr addr sni spki ticket_b64 auth)
       (\<lambda>run. Done (map_option (\<lambda>r. case r of Inl e \<Rightarrow> Inl e | Inr _ \<Rightarrow> Inr ()) (fr_result run), fr_relay run, fr_local run))"

section \<open>No panics\<close>

text \<open>A capability that was decoded can be encoded again, so authentication and the probe never panic,
  whatever texts the host configured.\<close>

lemma parse_capability_v2_total: "\<exists>r. parse_capability_v2 tc s = Done r \<and> (\<forall>c. r = Inr c \<longrightarrow> cap2_wf c)"
proof (cases "base64_decode tc s")
  case (Some raw)
  obtain oc rest where d: "cap2_decode raw = Done (oc, rest)" using v3.dec_total [of raw] by (cases "cap2_decode raw") auto
  then show ?thesis using Some v3.dec_canonical [of raw _ rest]
    by (cases oc) (auto simp: parse_capability_v2_def cap2_decode_slice_def)
qed (simp add: parse_capability_v2_def)

lemma parse_capability_total: "\<exists>r. parse_capability tc s = Done r \<and> (\<forall>c. r = Inr c \<longrightarrow> cap_wf c)"
proof (cases "s = [] \<or> base64_decode tc s = None")
  case False
  then obtain raw where raw: "base64_decode tc s = Some raw" "s \<noteq> []" by auto
  obtain oc rest where d: "cap_decode raw = Done (oc, rest)" using v2.dec_total [of raw] by (cases "cap_decode raw") auto
  then show ?thesis using raw v2.dec_canonical [of raw _ rest]
    by (cases oc) (auto simp: parse_capability_def cap_decode_slice_def)
qed (auto simp: parse_capability_def)

lemma auth_frame_total: "auth_frame cr tc clock exporter cap_b64 auth \<noteq> Panic"
proof -
  obtain r2 where r2: "parse_capability_v2 tc (auth_capability_v2_b64 auth) = Done r2" "\<And>c. r2 = Inr c \<Longrightarrow> cap2_wf c"
    using parse_capability_v2_total by blast
  obtain r1 where r1: "parse_capability tc cap_b64 = Done r1" "\<And>c. r1 = Inr c \<Longrightarrow> cap_wf c"
    using parse_capability_total by blast
  have e2: "v3_encode_payload (v3_from_capability cr c sk exporter) \<noteq> Panic" if "r2 = Inr c" for c sk
    using r2(2) [OF that] by (simp add: v3_encode_payload_def v3_from_capability_def cap2_encode_Done)
  have e1: "v2_encode_payload (v2_from_capability cr c exporter) \<noteq> Panic" if "r1 = Inr c" for c
    using r1(2) [OF that] by (simp add: v2_encode_payload_def v2_from_capability_def cap_encode_Done)
  have k: "exec_bind m (\<lambda>p. Done (h p)) \<noteq> Panic" if "m \<noteq> Panic" for m :: "bytes exec" and h :: "bytes \<Rightarrow> ObfuscatorError + Frame"
    using that by (cases m) simp_all
  show ?thesis unfolding auth_frame_def
    using r1(1) r2(1) by (auto intro!: try_bind_total [OF r1(1)] try_bind_total [OF r2(1)] try_bind_total [OF refl] k e1 e2)
qed

lemma authenticate_over_total: "authenticate_over cr tc clock w exporter cap_b64 auth \<noteq> Panic"
  using auth_frame_total [of cr tc clock exporter cap_b64 auth]
  by (cases "auth_frame cr tc clock exporter cap_b64 auth") (simp_all add: authenticate_over_def)

lemma dial_and_authenticate_total: "dial_and_authenticate env d addr sni spki cap_b64 auth \<noteq> Panic"
proof -
  have a: "exec_bind (authenticate_over cr tc clock w e cap_b64 auth) (\<lambda>(r, w). Done (h r w)) \<noteq> Panic"
    for cr tc clock w e and h :: "_ \<Rightarrow> writer \<Rightarrow> ObfuscatorError + writer"
    using authenticate_over_total [of cr tc clock w e cap_b64 auth]
    by (cases "authenticate_over cr tc clock w e cap_b64 auth") (auto split: prod.splits)
  show ?thesis
    by (auto simp: dial_and_authenticate_def dial_and_authenticate_within_def a intro!: try_bind_total [OF refl]
        split: option.splits sum.splits)
qed

lemma probe_veil_front_total: "probe_veil_front env d reads req \<noteq> Panic"
  using dial_and_authenticate_total [of env d "relay_addr req" "tls_sni req" "req_spki_hex req" "veil_front_ticket_b64 req" "auth_v3 req"]
  by (cases "dial_and_authenticate env d (relay_addr req) (tls_sni req) (req_spki_hex req) (veil_front_ticket_b64 req) (auth_v3 req)")
    (simp_all add: probe_veil_front_def)

section \<open>What the ferry carries\<close>

fun local_chunks :: "up_tick list \<Rightarrow> bytes list" where
  "local_chunks [] = []"
| "local_chunks ((t, None, t') # ticks) = local_chunks ticks"
| "local_chunks ((t, Some (RFail e), t') # ticks) = []"
| "local_chunks ((t, Some (RData d), t') # ticks) = (if d = [] then [] else d # local_chunks ticks)"

fun local_ends :: "up_tick list \<Rightarrow> stream_end" where
  "local_ends [] = Quiet"
| "local_ends ((t, None, t') # ticks) = local_ends ticks"
| "local_ends ((t, Some (RFail e), t') # ticks) = Broken e"
| "local_ends ((t, Some (RData d), t') # ticks) = (if d = [] then Eof else local_ends ticks)"

definition RBUF :: nat where "RBUF = 8192"

lemma chaff_payload_le: "chaff_ok f \<Longrightarrow> length (payload f) \<le> RBUF"
  by (auto simp: chaff_ok_def RBUF_def LENGTH_BUCKETS_def)

text \<open>One request for a frame with at most one chunk queued: the chunk leaves, or chaff, or nothing.\<close>

lemma next_wire_step:
  assumes "up_ok up" "chacha_ok c" "up_queue up = [] \<or> up_queue up = [frame_data d] \<and> length d \<le> RBUF"
  obtains f up' where "next_wire c now up = (Inr (map_option (frame_bytes padded_codec) f), up')"
    "up_ok up'" "up_queue up' = []"
    "data_payloads (case f of Some f \<Rightarrow> [f] | None \<Rightarrow> []) = map payload (up_queue up)"
    "\<forall>g. f = Some g \<longrightarrow> (is_data g \<or> is_chaff g) \<and> length (payload g) \<le> RBUF"
proof -
  obtain f ws where n: "next_frame c now (strategy up) = (f, ws)" by fastforce
  let ?up = "up\<lparr>strategy := ws\<rparr>"
  note ok = next_frame_ok [OF assms(1,2) n]
  have q: "up_queue ?up = []"
    using n assms(3) by (cases "up_queue up") (auto simp: next_frame_payload next_frame_idle case_prod_beta)
  have "is_data g \<Longrightarrow> f = Some g \<Longrightarrow> length (payload g) \<le> RBUF" for g
    using ok assms(3) q by (auto split: if_splits)
  then have "\<forall>g. f = Some g \<longrightarrow> (is_data g \<or> is_chaff g) \<and> length (payload g) \<le> RBUF"
    using ok chaff_payload_le chaff_ok_def by blast
  moreover have "up_codec up = padded_codec" using assms(1) by (simp add: up_ok_def)
  then have "next_wire c now up = (Inr (map_option (frame_bytes padded_codec) f), ?up)"
    by (simp add: next_wire_eq n)
  ultimately show thesis using that [of f ?up] ok q by simp
qed

text \<open>The result of the up task over a working stream: the frames it wrote carry the local chunks, nothing is
  left unflushed, and it ends as the local side does.\<close>

definition up_runs :: "up_tick list \<Rightarrow> writer \<Rightarrow> 's up_end \<times> writer \<Rightarrow> bool" where
  "up_runs ticks w res \<longleftrightarrow>
     (\<exists>frames as e. res = (e, w\<lparr>acts := acts w @ as\<rparr>)
    \<and> written as = concat (map (frame_bytes padded_codec) frames)
    \<and> data_payloads frames = local_chunks ticks
    \<and> (\<forall>f\<in>set frames. (is_data f \<or> is_chaff f) \<and> length (payload f) \<le> RBUF)
    \<and> (all_flushed (acts w) \<longrightarrow> all_flushed (acts w @ as))
    \<and> (case local_ends ticks of Quiet \<Rightarrow> \<exists>u. e = UpWaiting u | Eof \<Rightarrow> \<exists>st. e = UpDone st | Broken er \<Rightarrow> e = UpFailed (OIo er)))"

definition sent_acts :: "Frame option \<Rightarrow> write_act list" where
  "sent_acts f = (case f of Some g \<Rightarrow> [Write (frame_bytes padded_codec g), Flush] | None \<Rightarrow> [])"

lemma up_runs_sent:
  assumes "up_runs ticks (w\<lparr>acts := acts w @ sent_acts f\<rparr>) res"
    and "local_chunks (tick # ticks) = ps @ local_chunks ticks" "local_ends (tick # ticks) = local_ends ticks"
    and "data_payloads (case f of Some f \<Rightarrow> [f] | None \<Rightarrow> []) = ps"
    and "\<forall>g. f = Some g \<longrightarrow> (is_data g \<or> is_chaff g) \<and> length (payload g) \<le> RBUF"
  shows "up_runs (tick # ticks) w res"
proof -
  obtain frames as e where r: "res = (e, w\<lparr>acts := (acts w @ sent_acts f) @ as\<rparr>)"
    "written as = concat (map (frame_bytes padded_codec) frames)" "data_payloads frames = local_chunks ticks"
    "\<forall>f\<in>set frames. (is_data f \<or> is_chaff f) \<and> length (payload f) \<le> RBUF"
    "all_flushed (acts w @ sent_acts f) \<longrightarrow> all_flushed ((acts w @ sent_acts f) @ as)"
    "case local_ends ticks of Quiet \<Rightarrow> \<exists>u. e = UpWaiting u | Eof \<Rightarrow> \<exists>st. e = UpDone st | Broken er \<Rightarrow> e = UpFailed (OIo er)"
    using assms(1) unfolding up_runs_def by auto
  have "all_flushed (acts w) \<longrightarrow> all_flushed (acts w @ sent_acts f)"
    using all_flushed_simps(2) [of "acts w @ [Write x]" for x] by (cases f) (simp_all add: sent_acts_def)
  then show ?thesis
    unfolding up_runs_def assms(2,3)
    by (intro exI [of _ "(case f of Some f \<Rightarrow> [f] | None \<Rightarrow> []) @ frames"] exI [of _ "sent_acts f @ as"] exI [of _ e])
      (use r assms(4,5) in \<open>cases f; auto simp: sent_acts_def\<close>)
qed

text \<open>A tick on which the task asks the session for a frame.\<close>

lemma up_runs_emit:
  assumes "chacha_ok c" "faultless w" "up_ok up1"
    and q: "up_queue up1 = [] \<and> ps = [] \<or> (\<exists>d. up_queue up1 = [frame_data d] \<and> length d \<le> RBUF \<and> ps = [d])"
    and chunks: "local_chunks (tick # ticks) = ps @ local_chunks ticks" "local_ends (tick # ticks) = local_ends ticks"
    and IH: "\<And>up w. faultless w \<Longrightarrow> up_ok up \<Longrightarrow> up_queue up = [] \<Longrightarrow> up_runs ticks w (ferry_up c ticks up w)"
  shows "up_runs (tick # ticks) w
    (case next_wire c now' up1 of
       (Inl e, up) \<Rightarrow> (UpFailed (OIo (frame_io e)), w)
     | (Inr None, up) \<Rightarrow> ferry_up c ticks up w
     | (Inr (Some out), up) \<Rightarrow>
         (case write_op (Write out) w of
            (Inl e, w) \<Rightarrow> (UpFailed (OIo e), w)
          | (Inr _, w) \<Rightarrow>
              (case write_op Flush w of
                 (Inl e, w) \<Rightarrow> (UpFailed (OIo e), w)
               | (Inr _, w) \<Rightarrow> ferry_up c ticks up w)))"
proof -
  have "up_queue up1 = [] \<or> up_queue up1 = [frame_data (hd ps)] \<and> length (hd ps) \<le> RBUF" using q by auto
  then obtain f up' where n: "next_wire c now' up1 = (Inr (map_option (frame_bytes padded_codec) f), up')"
    "up_ok up'" "up_queue up' = []"
    "data_payloads (case f of Some f \<Rightarrow> [f] | None \<Rightarrow> []) = map payload (up_queue up1)"
    "\<forall>g. f = Some g \<longrightarrow> (is_data g \<or> is_chaff g) \<and> length (payload g) \<le> RBUF"
    using next_wire_step [OF assms(3,1), of _ now'] by metis
  have "map payload (up_queue up1) = ps" using q by auto
  with n(4,5) have "up_runs (tick # ticks) w (ferry_up c ticks up' (w\<lparr>acts := acts w @ sent_acts f\<rparr>))"
    using assms(2) by (intro up_runs_sent [OF IH [OF _ n(2,3)] chunks]) simp_all
  then show ?thesis using n(1) assms(2) by (cases f) (simp_all add: write_op_ok sent_acts_def)
qed

lemma ferry_up_faultless:
  assumes "chacha_ok c" "faultless w" "up_ok up" "up_queue up = []" "\<forall>d\<in>set (local_chunks ticks). length d \<le> RBUF"
  shows "up_runs ticks w (ferry_up c ticks up w)"
  using assms(2-)
proof (induction ticks arbitrary: up w)
  case Nil
  then show ?case unfolding up_runs_def by (intro exI [of _ "[]"]) auto
next
  case (Cons tick ticks up w)
  obtain now rd now' where tick: "tick = (now, rd, now')" by (cases tick)
  note emit = up_runs_emit [OF assms(1) Cons.prems(1), where tick = tick and ticks = ticks]
  consider "rd = None" "waits_for_local up now" | "rd = None" "\<not> waits_for_local up now"
    | d where "rd = Some (RData d)" "d \<noteq> []" | "rd = Some (RData [])" | er where "rd = Some (RFail er)"
    by (metis option.exhaust read_event.exhaust)
  then show ?case
  proof cases
    case 1
    then show ?thesis using Cons.IH [OF Cons.prems(1-3)] Cons.prems(4) tick by (simp add: up_runs_def)
  next
    case 2
    have "up_runs (tick # ticks) w (ferry_up c (tick # ticks) up w)" if "up_queue up = []"
      using emit [of up "[]" now'] Cons tick 2 that by simp
    then show ?thesis using Cons.prems(3) .
  next
    case 3
    have "up_queue (queue_local d up) = [frame_data d]" using Cons.prems(3) by (simp add: queue_local_def pq_push_def)
    then show ?thesis
      using emit [of "queue_local d up" "[d]" now'] Cons tick 3 by (simp add: queue_local_ok)
  next
    case 4
    then show ?thesis unfolding up_runs_def using tick Cons.prems(1)
      by (intro exI [of _ "[]"] exI [of _ "[Shutdown]"]) (simp add: write_op_ok)
  next
    case 5
    then show ?thesis unfolding up_runs_def using tick by (intro exI [of _ "[]"] exI [of _ "[]"]) simp
  qed
qed

lemma down_drain_faultless:
  assumes "faultless w" "drain_frames (down_codec d) (down_buf d) = (fs, e, r)"
  shows "down_drain d w =
    ((case e of Some er \<Rightarrow> Inl (OIo (frame_io er)) | None \<Rightarrow> Inr (d\<lparr>down_buf := r\<rparr>)),
     w\<lparr>acts := acts w @ map Write (data_payloads fs)\<rparr>)"
  using assms
proof (induction "length (down_buf d)" arbitrary: d w fs rule: less_induct)
  case less
  show ?case
  proof (cases "data_payloads fs")
    case Nil
    then show ?thesis using next_payload_drain [OF less.prems(2)]
      by (auto simp: down_drain.simps [of d] split: option.splits)
  next
    case (Cons p ps)
    then obtain b fs' where n: "next_payload d = (Inr (Some p), d\<lparr>down_buf := b\<rparr>)" "length b < length (down_buf d)"
      "drain_frames (down_codec d) b = (fs', e, r)" "data_payloads fs' = ps"
      using next_payload_drain [OF less.prems(2)] by auto
    have "down_drain (d\<lparr>down_buf := b\<rparr>) (w\<lparr>acts := acts w @ [Write p]\<rparr>) =
      ((case e of Some er \<Rightarrow> Inl (OIo (frame_io er)) | None \<Rightarrow> Inr (d\<lparr>down_buf := r\<rparr>)),
       w\<lparr>acts := acts w @ map Write (p # ps)\<rparr>)"
      using less.hyps [of "d\<lparr>down_buf := b\<rparr>" "w\<lparr>acts := acts w @ [Write p]\<rparr>" fs'] n less.prems(1)
      by (simp split: option.splits)
    then show ?thesis using n(1) less.prems(1) Cons by (simp add: down_drain.simps [of d] write_op_ok)
  qed
qed

lemma ferry_down_faultless:
  assumes "faultless w" "down_codec d = codec_new" "drain_frames codec_new (down_buf d @ stream_data reads) = (fs, None, r)"
  shows "\<exists>as e. ferry_down reads d w = (e, w\<lparr>acts := acts w @ as\<rparr>) \<and> written as = concat (data_payloads fs)
    \<and> (case stream_ends reads of Quiet \<Rightarrow> \<exists>u. e = DownWaiting u | Eof \<Rightarrow> e = DownDone | Broken er \<Rightarrow> e = DownFailed (OIo er))"
  using assms
proof (induction reads arbitrary: d w fs)
  case Nil
  then have "drain_frames (down_codec d) (down_buf d) = (fs, None, r)" by simp
  from down_drain_faultless [OF Nil.prems(1) this] show ?case
    using written_writes [of "\<lambda>p. p"] by (auto simp: ferry_down.simps [of "[]"])
next
  case (Cons x reads)
  obtain fs1 r1 fs2 where dr: "drain_frames codec_new (down_buf d) = (fs1, None, r1)"
    "drain_frames codec_new (r1 @ stream_data (x # reads)) = (fs2, None, r)" "fs = fs1 @ fs2"
    using Cons.prems(3) by (rule drain_split_ok)
  have dd: "down_drain d w = (Inr (d\<lparr>down_buf := r1\<rparr>), w\<lparr>acts := acts w @ map Write (data_payloads fs1)\<rparr>)"
    using down_drain_faultless [OF Cons.prems(1), of d fs1 None r1] dr(1) Cons.prems(2) by simp
  have w1: "written (map Write ps) = concat ps" for ps using written_writes [of "\<lambda>p. p" ps] by simp
  let ?w = "w\<lparr>acts := acts w @ map Write (data_payloads fs1)\<rparr>"
  show ?case
  proof (cases "\<exists>b. x = RData b \<and> b \<noteq> []")
    case True
    then obtain b where b: "x = RData b" "b \<noteq> []" by blast
    let ?d = "feed b (d\<lparr>down_buf := r1\<rparr>)"
    have "drain_frames codec_new (down_buf ?d @ stream_data reads) = (fs2, None, r)"
      using dr(2) b by (simp add: feed_def)
    moreover have "faultless ?w" "down_codec ?d = codec_new" using Cons.prems(1,2) by (simp_all add: feed_def)
    ultimately obtain as e where IH: "ferry_down reads ?d ?w = (e, ?w\<lparr>acts := acts ?w @ as\<rparr>)"
      "written as = concat (data_payloads fs2)"
      "case stream_ends reads of Quiet \<Rightarrow> \<exists>u. e = DownWaiting u | Eof \<Rightarrow> e = DownDone | Broken er \<Rightarrow> e = DownFailed (OIo er)"
      using Cons.IH by blast
    then show ?thesis
      using dd b dr(3) by (intro exI [of _ "map Write (data_payloads fs1) @ as"] exI [of _ e])
        (simp add: ferry_down.simps [of "RData b # reads"] w1)
  next
    case False
    then have fs: "fs2 = []"
      using dr(2) codec.drain_rest_idle [OF dr(1)] by (cases x) auto
    show ?thesis
    proof (cases x)
      case (RFail er)
      then show ?thesis using dd dr(3) fs
        by (intro exI [of _ "map Write (data_payloads fs1)"]) (simp add: ferry_down.simps [of "RFail er # reads"] w1)
    next
      case (RData b)
      then show ?thesis using dd dr(3) fs False Cons.prems(1)
        by (intro exI [of _ "map Write (data_payloads fs1) @ [Shutdown]"])
          (simp add: ferry_down.simps [of "RData [] # reads"] w1 write_op_ok)
    qed
  qed
qed

lemma RBUF_fits: "RBUF \<le> max_payload codec_new"
  by (simp add: RBUF_def codec_new_def DEFAULT_MAX_PAYLOAD_def)

text \<open>A whole ferry over working connections: what it has written on both sides, and how it ends.\<close>

lemma run_ferry_run:
  fixes c :: "'s chacha" and s fresh :: 's
  assumes "chacha_ok c" "faultless relay_wr" "faultless local_wr" "all_flushed (acts relay_wr)"
    and "\<forall>d\<in>set (local_chunks ticks). length d \<le> RBUF"
    and "drain_frames codec_new (stream_data relay_rd) = (fs, None, r)"
  shows "\<exists>frames as bs res. run_ferry c s fresh up_first ticks relay_rd relay_wr local_wr =
      \<lparr>fr_result = res, fr_relay = relay_wr\<lparr>acts := acts relay_wr @ as\<rparr>, fr_local = local_wr\<lparr>acts := acts local_wr @ bs\<rparr>\<rparr>
    \<and> drain_frames codec_new (written as) = (frames, None, []) \<and> data_payloads frames = local_chunks ticks
    \<and> (\<forall>f\<in>set frames. is_data f \<or> is_chaff f) \<and> all_flushed (acts relay_wr @ as)
    \<and> written bs = concat (data_payloads fs)
    \<and> (stream_ends relay_rd \<noteq> Quiet \<longrightarrow> res \<noteq> None)
    \<and> (local_ends ticks = Eof \<and> stream_ends relay_rd = Quiet \<longrightarrow> res = None)
    \<and> (local_ends ticks = Eof \<and> stream_ends relay_rd = Eof \<longrightarrow> (\<exists>st. res = Some (Inr st)))"
proof -
  have q: "up_queue (up_new c s) = []" by (simp add: up_new_def strategy_new_def pq_new_def)
  obtain frames as e where up: "ferry_up c ticks (up_new c s) relay_wr = (e, relay_wr\<lparr>acts := acts relay_wr @ as\<rparr>)"
    "written as = concat (map (frame_bytes padded_codec) frames)" "data_payloads frames = local_chunks ticks"
    "\<forall>f\<in>set frames. (is_data f \<or> is_chaff f) \<and> length (payload f) \<le> RBUF" "all_flushed (acts relay_wr @ as)"
    "case local_ends ticks of Quiet \<Rightarrow> \<exists>u. e = UpWaiting u | Eof \<Rightarrow> \<exists>st. e = UpDone st | Broken er \<Rightarrow> e = UpFailed (OIo er)"
    using ferry_up_faultless [OF assms(1,2) up_new_ok [OF assms(1)] q assms(5)] assms(4) unfolding up_runs_def by blast
  have d: "down_codec down_new = codec_new" "drain_frames codec_new (down_buf down_new @ stream_data relay_rd) = (fs, None, r)"
    using assms(6) by (simp_all add: down_new_def)
  obtain bs e' where down: "ferry_down relay_rd down_new local_wr = (e', local_wr\<lparr>acts := acts local_wr @ bs\<rparr>)"
    "written bs = concat (data_payloads fs)"
    "case stream_ends relay_rd of Quiet \<Rightarrow> \<exists>u. e' = DownWaiting u | Eof \<Rightarrow> e' = DownDone | Broken er \<Rightarrow> e' = DownFailed (OIo er)"
    using ferry_down_faultless [OF assms(3) d] by blast
  have run: "run_ferry c s fresh up_first ticks relay_rd relay_wr local_wr = \<lparr>fr_result = ferry_join up_first (strategy_new c fresh) e e',
      fr_relay = relay_wr\<lparr>acts := acts relay_wr @ as\<rparr>, fr_local = local_wr\<lparr>acts := acts local_wr @ bs\<rparr>\<rparr>"
    by (simp add: run_ferry_def session_new_def up(1) down(1))
  have "drain_frames codec_new (written as) = (frames, None, [])"
    using drain_padded [of frames] up(2,4) RBUF_fits by fastforce
  moreover have "stream_ends relay_rd \<noteq> Quiet \<longrightarrow> ferry_join up_first (strategy_new c fresh) e e' \<noteq> None"
    using up(6) down(3) by (cases "local_ends ticks"; cases "stream_ends relay_rd") auto
  moreover have "local_ends ticks = Eof \<and> stream_ends relay_rd = Quiet \<longrightarrow> ferry_join up_first (strategy_new c fresh) e e' = None"
    "local_ends ticks = Eof \<and> stream_ends relay_rd = Eof \<longrightarrow> (\<exists>st. ferry_join up_first (strategy_new c fresh) e e' = Some (Inr st))"
    using up(6) down(3) by auto
  ultimately show ?thesis
    using up(2-5) down(2) unfolding run
    by (intro exI [of _ frames] exI [of _ as] exI [of _ bs] exI conjI) (auto simp: written_append)
qed

text \<open>(C6) The ferry carries the bytes exactly, both ways, and ends when the relay is gone.  With working
  connections: what the relay receives is a well-formed stream of DATA and CHAFF frames whose payloads
  are the local bytes, chunk by chunk, with nothing left unflushed; the local side receives exactly the
  payload bytes of the relay's DATA frames; once the relay has closed or failed the ferry has a result
  whatever the local side does; and when the local side finishes first the response is still awaited.\<close>

theorem ferry_carries_bytes_and_ends:
  fixes c :: "'s chacha" and s fresh :: 's and up_first :: bool
  assumes "chacha_ok c" "faultless relay_wr" "faultless local_wr" "all_flushed (acts relay_wr)"
    and "\<forall>d\<in>set (local_chunks ticks). length d \<le> RBUF"
    and "drain_frames codec_new (stream_data relay_rd) = (fs, None, r)"
  defines "run \<equiv> run_ferry c s fresh up_first ticks relay_rd relay_wr local_wr"
  shows "(\<exists>frames sent. written (acts (fr_relay run)) = written (acts relay_wr) @ sent
        \<and> drain_frames codec_new sent = (frames, None, []) \<and> data_payloads frames = local_chunks ticks
        \<and> (\<forall>f\<in>set frames. is_data f \<or> is_chaff f))
    \<and> all_flushed (acts (fr_relay run))
    \<and> written (acts (fr_local run)) = written (acts local_wr) @ concat (data_payloads fs)
    \<and> (stream_ends relay_rd \<noteq> Quiet \<longrightarrow> fr_result run \<noteq> None)
    \<and> (local_ends ticks = Eof \<and> stream_ends relay_rd = Quiet \<longrightarrow> fr_result run = None)
    \<and> (local_ends ticks = Eof \<and> stream_ends relay_rd = Eof \<longrightarrow> (\<exists>st. fr_result run = Some (Inr st)))"
  using run_ferry_run [OF assms(1-6), of s fresh up_first] unfolding run_def
  by (elim exE conjE) (auto simp: written_append)

theorem ferry_carries_bytes_and_ends_witness:
  "fr_result (run_ferry demo_chacha () () True [(0, Some (RData [7]), 0)] [RData []] demo_writer demo_writer) \<noteq> None"
proof -
  have "drain_frames codec_new (stream_data [RData []]) = ([], None, [])" by simp
  from ferry_carries_bytes_and_ends [OF demo_chacha_ok demo_writer_ok(1) demo_writer_ok(1) _ _ this,
      of "[(0, Some (RData [7]), 0)]" "()" "()" True]
  show ?thesis by (simp add: demo_writer_ok RBUF_def)
qed

section \<open>What the probe proves\<close>

lemma decode_padded: "decode padded_codec = decode codec_new"
proof -
  have "max_payload padded_codec = max_payload codec_new" by (simp add: padded_codec_def with_buckets_def)
  then show ?thesis by (simp only: fun_eq_iff decode_def decode_on_def simp_thms)
qed

lemma probe_verdict_drain:
  assumes "drain_frames codec_new buf = (fs, e, r)"
  shows "case dropWhile is_chaff fs of
      [] \<Rightarrow> (case e of
          Some _ \<Rightarrow> fst (probe_verdict padded_codec buf) = Some (Inl (OHandshake ''frame decode error (routed to site)''))
        | None \<Rightarrow> probe_verdict padded_codec buf = (None, r))
    | f # _ \<Rightarrow> fst (probe_verdict padded_codec buf) =
        Some (if is_data f then Inr () else Inl (OHandshake ''unexpected frame type after auth''))"
  using assms
proof (induction "length buf" arbitrary: buf fs rule: less_induct)
  case less
  obtain x b' where x: "decode codec_new buf = (x, b')" by fastforce
  show ?case
  proof (cases "\<exists>f. x = Inr (Some f)")
    case False
    then show ?thesis using less.prems x
      by (auto simp: probe_verdict.simps [of _ buf] decode_padded drain_frames.simps [of codec_new buf]
          split: sum.splits option.splits)
  next
    case True
    then obtain f where f: "decode codec_new buf = (Inr (Some f), b')" using x by blast
    obtain gs where gs: "drain_frames codec_new b' = (gs, e, r)" "fs = f # gs"
      using less.prems by (auto simp: drain_frames.simps [of codec_new buf] f split: prod.splits)
    show ?thesis
    proof (cases "is_chaff f")
      case True
      then have eq: "probe_verdict padded_codec buf = probe_verdict padded_codec b'"
        by (simp add: probe_verdict.simps [of _ buf] decode_padded f is_chaff_def frame_type_defs)
      show ?thesis unfolding eq using less.hyps [OF decode_shrinks [OF f] gs(1)] gs(2) True by simp
    next
      case False
      then show ?thesis using gs(2)
        by (simp add: probe_verdict.simps [of _ buf] decode_padded f is_chaff_def is_data_def)
    qed
  qed
qed

text \<open>What the received bytes say, as one buffer.\<close>

definition probe_answer :: "bytes \<Rightarrow> (ObfuscatorError + unit) option" where
  "probe_answer bs = fst (probe_verdict padded_codec bs)"

lemma probe_verdict_None:
  assumes "probe_answer buf = None"
  shows "\<exists>fs r. drain_frames codec_new buf = (fs, None, r) \<and> dropWhile is_chaff fs = [] \<and> probe_verdict padded_codec buf = (None, r)"
  using probe_verdict_drain [of buf] assms
  by (cases "drain_frames codec_new buf") (auto simp: probe_answer_def split: list.splits option.splits)

lemma probe_answer_extend:
  "probe_answer (buf @ ext) =
     (case probe_answer buf of Some v \<Rightarrow> Some v | None \<Rightarrow> probe_answer (snd (probe_verdict padded_codec buf) @ ext))"
proof -
  obtain fs e r where d: "drain_frames codec_new buf = (fs, e, r)" by (metis prod_cases3)
  obtain fs' e' r' where d': "drain_frames codec_new (r @ ext) = (fs', e', r')" by (metis prod_cases3)
  have dw: "dropWhile is_chaff (fs @ gs) = (if dropWhile is_chaff fs = [] then dropWhile is_chaff gs else dropWhile is_chaff fs @ gs)" for gs
    by (induction fs) auto
  note v = probe_verdict_drain [OF d]
  show ?thesis
  proof (cases e)
    case (Some er)
    then have "drain_frames codec_new (buf @ ext) = (fs, e, r @ ext)" using codec.drain_extend [OF d, of ext] by simp
    from probe_verdict_drain [OF this] v Some show ?thesis
      by (auto simp: probe_answer_def split: list.splits)
  next
    case None
    then have "drain_frames codec_new (buf @ ext) = (fs @ fs', e', r')"
      using codec.drain_extend [OF d, of ext] d' by simp
    from probe_verdict_drain [OF this] probe_verdict_drain [OF d'] v None show ?thesis
      by (cases "dropWhile is_chaff fs") (auto simp: probe_answer_def dw split: list.splits option.splits)
  qed
qed

lemma probe_loop_chunks:
  assumes "\<forall>d\<in>set ds. d \<noteq> []" "n + length (concat ds) \<le> 65536" "probe_answer buf = None"
    "snd (probe_verdict padded_codec buf) = buf"
  shows "case probe_answer (buf @ concat ds) of
      Some v \<Rightarrow> probe_loop padded_codec (map ReadData ds @ reads) buf n = v
    | None \<Rightarrow> \<exists>rx. probe_loop padded_codec (map ReadData ds @ reads) buf n = probe_loop padded_codec reads rx (n + length (concat ds))"
  using assms
proof (induction ds arbitrary: buf n)
  case (Cons d ds)
  show ?case
  proof (cases "probe_answer (buf @ d)")
    case (Some v)
    then have "probe_answer (buf @ concat (d # ds)) = Some v"
      using probe_answer_extend [of "buf @ d" "concat ds"] by simp
    then show ?thesis using Some Cons.prems(1)
      by (cases "probe_verdict padded_codec (buf @ d)") (simp add: probe_answer_def Let_def)
  next
    case None
    then obtain fs r where r: "drain_frames codec_new (buf @ d) = (fs, None, r)"
      "probe_verdict padded_codec (buf @ d) = (None, r)" using probe_verdict_None by blast
    have idle: "probe_verdict padded_codec r = (None, r)"
      using probe_verdict_drain [OF codec.drain_rest_idle [OF r(1)]] by simp
    have a: "probe_answer (buf @ concat (d # ds)) = probe_answer (r @ concat ds)"
      using probe_answer_extend [of "buf @ d" "concat ds"] None r(2) by simp
    have l: "probe_loop padded_codec (map ReadData (d # ds) @ reads) buf n
        = probe_loop padded_codec (map ReadData ds @ reads) r (n + length d)"
      using r(2) Cons.prems(1,2) by (simp add: Let_def)
    show ?thesis unfolding a l
      using Cons.IH [of "n + length d" r] Cons.prems(1,2) idle
      by (auto simp: probe_answer_def add.assoc split: option.splits)
  qed
qed auto

text \<open>(C7) A probe's verdict is about the bytes, not about how they arrive, and success means a live tunnel.  For
  up to 64 KB of answer in any non-empty reads: if its first frame that is not chaff is DATA the probe
  succeeds, if it is any other frame or the bytes stop being frames before one (a cover site's answer)
  it fails as a handshake error, and while there is only chaff it goes on reading and in the end
  reports whatever ends it.\<close>

theorem probe_verdict_by_bytes:
  assumes "\<forall>d\<in>set ds. d \<noteq> []" "length (concat ds) \<le> 65536" "drain_frames codec_new (concat ds) = (fs, e, r)"
  shows "probe_loop padded_codec (map ReadData ds @ TimedOut # reads) [] 0 =
    (case (dropWhile is_chaff fs, e) of
       (f # _, _) \<Rightarrow> if is_data f then Inr () else Inl (OHandshake ''unexpected frame type after auth'')
     | ([], Some _) \<Rightarrow> Inl (OHandshake ''frame decode error (routed to site)'')
     | ([], None) \<Rightarrow> Inl OTimeout)"
proof -
  have n: "probe_verdict padded_codec [] = (None, [])"
    using probe_verdict_drain [OF drain_frames_Nil] by simp
  have "case probe_answer (concat ds) of
      Some v \<Rightarrow> probe_loop padded_codec (map ReadData ds @ TimedOut # reads) [] 0 = v
    | None \<Rightarrow> probe_loop padded_codec (map ReadData ds @ TimedOut # reads) [] 0 = Inl OTimeout"
    using probe_loop_chunks [of ds 0 "[]" "TimedOut # reads"] assms(1,2) n
    by (auto simp: probe_answer_def split: option.splits)
  then show ?thesis using probe_verdict_drain [OF assms(3)]
    by (cases "dropWhile is_chaff fs"; cases e) (simp_all add: probe_answer_def del: dropWhile_eq_Nil_conv)
qed

theorem probe_verdict_by_bytes_witness:
  "probe_loop padded_codec [ReadData [3, 1], ReadData [1, 0, 9], TimedOut] [] 0 = Inr ()"
proof -
  have d: "drain_frames codec_new (concat [[3, 1], [1, 0, 9]]) = ([frame_data [9]], None, [])"
    using drain_frames_Cons [OF codec_new_ok, of "frame_data [9]" codec_new "[]"]
    by (simp add: fits_def frame_pad_def codec_new_def DEFAULT_MAX_PAYLOAD_def frame_bytes_def wire_def
        WIRE_VER_def encode_varint_vec_eq varint_bytes_small) (simp add: frame_data_def FRAME_TYPE_DATA_def)
  show ?thesis using probe_verdict_by_bytes [OF _ _ d, of "[]"] by simp
qed

end
