(* ===== verification/Fsm_Scoring.thy ===== *)
theory Fsm_Scoring
  imports Fsm_Types F64
begin

text \<open>Scores and candidate selection of the client (\<^verbatim>\<open>src/src/veil/fsm/scoring.rs\<close>).  The trait
  \<^verbatim>\<open>ScoreLookup\<close> is a record of its two methods, and the locale \<^verbatim>\<open>score_lookup\<close> its contract: a method
  reported as blocked has an entry that says since when.  Scores are doubles; every arithmetic step is
  rounded by \<^const>\<open>f64\<close>.  Sorting is stable, as \<^verbatim>\<open>slice::sort_by\<close> is.\<close>

record ScoreLookup =
  sl_get :: "NetworkFingerprint \<Rightarrow> MethodId \<Rightarrow> ScoreEntry option"
  sl_is_permanently_blocked :: "NetworkFingerprint \<Rightarrow> MethodId \<Rightarrow> duration \<Rightarrow> system_time \<Rightarrow> bool"

section \<open>Scores\<close>

text \<open>\<^verbatim>\<open>u32 as f64\<close> and \<^verbatim>\<open>u8 as f64\<close> are exact; \<^verbatim>\<open>Duration::as_secs_f64\<close> adds the rounded
  fraction to the whole seconds.\<close>

definition u32_as_f64 :: "u32 \<Rightarrow> rat" where "u32_as_f64 w = of_nat (unat w)"
definition u8_as_f64 :: "byte \<Rightarrow> rat" where "u8_as_f64 w = of_nat (unat w)"

definition as_secs_f64 :: "duration \<Rightarrow> rat" where
  "as_secs_f64 d =
     f64 (f64 (of_nat (d div 1000000000)) + f64 (of_nat (d mod 1000000000) / 1000000000))"

definition compute_recent_failure_penalty :: "ScoreEntry \<Rightarrow> system_time \<Rightarrow> rat" where
  "compute_recent_failure_penalty entry now =
     (case last_failure_at entry of
        None \<Rightarrow> 0
      | Some last_failure \<Rightarrow>
          (case duration_since now last_failure of
             None \<Rightarrow> 0
           | Some elapsed \<Rightarrow>
               let five_minutes = from_secs 300; one_hour = from_secs 3600 in
               if one_hour < elapsed then 0
               else if elapsed \<le> five_minutes
               then f64 (u8_as_f64 (consecutive_failures entry) * 20)
               else
                 let decay = f64 (1 - f64 (f64 (as_secs_f64 elapsed - 300) / f64 (3600 - 300)))
                 in f64 (f64 (u8_as_f64 (consecutive_failures entry) * 20) * max decay 0)))"

definition compute_score ::
  "ScoreLookup \<Rightarrow> NetworkFingerprint \<Rightarrow> MethodId \<Rightarrow> system_time \<Rightarrow> rat" where
  "compute_score scores fingerprint meth now =
     (case sl_get scores fingerprint meth of
        None \<Rightarrow> 50
      | Some entry \<Rightarrow>
          let total = f64 (u32_as_f64 (successes entry) + u32_as_f64 (failures entry)) in
          if total = 0 then 50
          else
            let base_quality = f64 (f64 (u32_as_f64 (successes entry) / total) * 100);
                recent_failure_penalty = compute_recent_failure_penalty entry now;
                latency_penalty =
                  (if 1000 < median_latency_ms entry
                   then min (f64 (f64 (u32_as_f64 (median_latency_ms entry) - 1000) / 100)) 20
                   else 0);
                recency_bonus =
                  (case Option.bind (last_success_at entry) (duration_since now) of
                     Some d \<Rightarrow> if d < from_secs 3600 then 5 else 0
                   | None \<Rightarrow> 0)
            in f64 (f64 (f64 (base_quality - recent_failure_penalty) - latency_penalty) + recency_bonus))"

section \<open>Candidates\<close>

definition select_probe_candidates ::
  "NetworkFingerprint \<Rightarrow> MethodSet \<Rightarrow> ScoreLookup \<Rightarrow> VeilConfig \<Rightarrow> system_time \<Rightarrow> MethodId list" where
  "select_probe_candidates fingerprint allowed scores cfg now =
     (let scored = map (\<lambda>m. (m, compute_score scores fingerprint m now))
            (filter (\<lambda>m. \<not> sl_is_permanently_blocked scores fingerprint m (block_ttl cfg) now)
              (iter_allowed allowed));
          scored = sort_key (\<lambda>(_, s). - s) scored;
          top_k = min (top_k_probes cfg) (length scored);
          cands = map fst (take top_k scored)
      in if cands = [] then
           (let blocked_methods = List.map_filter
                  (\<lambda>m. Option.bind (sl_get scores fingerprint m) (\<lambda>e. map_option (\<lambda>t. (m, t)) (blocked_at e)))
                  (iter_allowed allowed);
                blocked_methods = sort_key snd blocked_methods
            in case blocked_methods of
                 (m, _) # _ \<Rightarrow> [m]
               | [] \<Rightarrow> (case iter_allowed allowed of first # _ \<Rightarrow> [first] | [] \<Rightarrow> []))
         else cands)"

section \<open>Bounds on scores\<close>

lemma f64_le_int: "q \<le> of_int n \<Longrightarrow> \<bar>n\<bar> < 2 ^ 53 \<Longrightarrow> f64 q \<le> of_int n"
  using f64_mono [of q "of_int n"] by (simp add: f64_of_int)

lemma f64_ge_int: "of_int n \<le> q \<Longrightarrow> \<bar>n\<bar> < 2 ^ 53 \<Longrightarrow> of_int n \<le> f64 q"
  using f64_mono [of "of_int n" q] by (simp add: f64_of_int)

lemma f64_between:
  assumes "of_int a \<le> q" "q \<le> of_int b" "\<bar>a\<bar> < 2 ^ 53" "\<bar>b\<bar> < 2 ^ 53"
  shows "of_int a \<le> f64 q \<and> f64 q \<le> of_int b"
  using f64_le_int [of q b] f64_ge_int [of a q] assms by blast

lemma f64_numeral: "numeral k < (2 ^ 53 :: int) \<Longrightarrow> f64 (numeral k) = numeral k"
  using f64_of_int [of "numeral k"] by simp

lemma u32_as_f64_nonneg [simp]: "0 \<le> u32_as_f64 w"
  unfolding u32_as_f64_def by (rule of_nat_0_le_iff)

lemma u8_as_f64_bounds: "0 \<le> u8_as_f64 b" "u8_as_f64 b \<le> 255"
proof -
  have "unat b \<le> 255" using unat_byte_less [of b] by linarith
  then have "(of_nat (unat b) :: rat) \<le> of_nat 255" by (rule of_nat_mono)
  then show "u8_as_f64 b \<le> 255" by (simp add: u8_as_f64_def)
  show "0 \<le> u8_as_f64 b" unfolding u8_as_f64_def by (rule of_nat_0_le_iff)
qed

lemma failures_times_20: "0 \<le> f64 (u8_as_f64 b * 20)" "f64 (u8_as_f64 b * 20) \<le> 5100"
  using f64_between [of 0 "u8_as_f64 b * 20" 5100] u8_as_f64_bounds [of b] by simp_all

lemma as_secs_f64_ge:
  assumes "n * 1000000000 \<le> d" "int n < 2 ^ 53"
  shows "of_nat n \<le> as_secs_f64 d"
proof -
  have "n \<le> d div 1000000000" using assms(1) by (simp add: less_eq_div_iff_mult_less_eq)
  then have "(of_int (int n) :: rat) \<le> of_nat (d div 1000000000)" by simp
  from f64_ge_int [OF this] assms(2) have "of_int (int n) \<le> f64 (of_nat (d div 1000000000) :: rat)" by simp
  moreover have "0 \<le> f64 (of_nat (d mod 1000000000) / 1000000000)" by (rule f64_nonneg) simp
  ultimately have "of_int (int n) \<le> f64 (of_nat (d div 1000000000)) + f64 (of_nat (d mod 1000000000) / 1000000000)"
    by linarith
  from f64_ge_int [OF this] assms(2) show ?thesis by (simp add: as_secs_f64_def)
qed

lemma decay_bounds:
  assumes "from_secs 300 < elapsed"
  shows "0 \<le> max (f64 (1 - f64 (f64 (as_secs_f64 elapsed - 300) / f64 (3600 - 300)))) 0"
    "max (f64 (1 - f64 (f64 (as_secs_f64 elapsed - 300) / f64 (3600 - 300)))) 0 \<le> 1"
proof -
  have "300 \<le> as_secs_f64 elapsed"
    using as_secs_f64_ge [of 300 elapsed] assms by (simp add: from_secs_def)
  then have "0 \<le> f64 (as_secs_f64 elapsed - 300)" by (intro f64_nonneg) simp
  then have "0 \<le> f64 (f64 (as_secs_f64 elapsed - 300) / f64 (3600 - 300))"
    by (intro f64_nonneg) (simp add: f64_numeral)
  then have "1 - f64 (f64 (as_secs_f64 elapsed - 300) / f64 (3600 - 300)) \<le> of_int 1" by simp
  from f64_le_int [OF this] show "max (f64 (1 - f64 (f64 (as_secs_f64 elapsed - 300) / f64 (3600 - 300)))) 0 \<le> 1"
    by simp
qed simp

lemma penalty_bounds: "0 \<le> compute_recent_failure_penalty e now" "compute_recent_failure_penalty e now \<le> 5100"
proof -
  have "0 \<le> f64 (f64 (u8_as_f64 b * 20) * d) \<and> f64 (f64 (u8_as_f64 b * 20) * d) \<le> 5100"
    if "0 \<le> d" "d \<le> 1" for b d
  proof -
    have "f64 (u8_as_f64 b * 20) * d \<le> 5100 * 1"
      using failures_times_20 [of b] that by (intro mult_mono) auto
    then show ?thesis
      using f64_between [of 0 "f64 (u8_as_f64 b * 20) * d" 5100] failures_times_20(1) [of b] that by simp
  qed
  from this [OF decay_bounds] failures_times_20
  show "0 \<le> compute_recent_failure_penalty e now" "compute_recent_failure_penalty e now \<le> 5100"
    by (auto simp: compute_recent_failure_penalty_def Let_def not_le split: option.splits)
qed

text \<open>The sum of the two counters is exact.\<close>

lemma total_exact:
  "f64 (u32_as_f64 a + u32_as_f64 b) = u32_as_f64 a + u32_as_f64 b"
proof -
  have "uint a < 2 ^ 32" "uint b < 2 ^ 32"
    using unsigned_less [of a, where ?'a = int] unsigned_less [of b, where ?'a = int] by simp_all
  then have "\<bar>int (unat a) + int (unat b)\<bar> < 2 ^ 53" by simp
  from f64_of_int [OF this] show ?thesis by (simp add: u32_as_f64_def)
qed

lemma u32_as_f64_0 [simp]: "u32_as_f64 0 = 0"
  by (simp add: u32_as_f64_def)

lemma f64_u32 [simp]: "f64 (u32_as_f64 a) = u32_as_f64 a"
  using total_exact [of a 0] by simp

lemma base_quality_bounds:
  assumes "u32_as_f64 a + u32_as_f64 b \<noteq> 0"
  shows "0 \<le> f64 (f64 (u32_as_f64 a / (u32_as_f64 a + u32_as_f64 b)) * 100)"
    "f64 (f64 (u32_as_f64 a / (u32_as_f64 a + u32_as_f64 b)) * 100) \<le> 100"
proof -
  let ?r = "u32_as_f64 a / (u32_as_f64 a + u32_as_f64 b)"
  have "0 < u32_as_f64 a + u32_as_f64 b"
    using assms u32_as_f64_nonneg [of a] u32_as_f64_nonneg [of b] by linarith
  then have "0 \<le> ?r" "?r \<le> 1" by (simp_all add: pos_divide_le_eq)
  then have "0 \<le> f64 ?r" "f64 ?r \<le> 1" using f64_between [of 0 ?r 1] by simp_all
  then show "0 \<le> f64 (f64 ?r * 100)" "f64 (f64 ?r * 100) \<le> 100"
    using f64_between [of 0 "f64 ?r * 100" 100] by simp_all
qed

lemma latency_penalty_bounds:
  "0 \<le> (if 1000 < l then min (f64 (f64 (u32_as_f64 l - 1000) / 100)) 20 else 0)"
  "(if 1000 < l then min (f64 (f64 (u32_as_f64 l - 1000) / 100)) 20 else 0) \<le> 20"
proof -
  have "0 \<le> f64 (f64 (u32_as_f64 l - 1000) / 100)" if "1000 < l"
  proof -
    from that have "1000 \<le> unat l" by (simp add: word_less_nat_alt)
    then have "(of_nat 1000 :: rat) \<le> of_nat (unat l)" by (rule of_nat_mono)
    then have "0 \<le> f64 (u32_as_f64 l - 1000)" by (intro f64_nonneg) (simp add: u32_as_f64_def)
    then show ?thesis by (intro f64_nonneg) simp
  qed
  then show "0 \<le> (if 1000 < l then min (f64 (f64 (u32_as_f64 l - 1000) / 100)) 20 else 0)"
    "(if 1000 < l then min (f64 (f64 (u32_as_f64 l - 1000) / 100)) 20 else 0) \<le> 20" by simp_all
qed

lemma rounded_chain_bounds:
  assumes "0 \<le> b" "b \<le> 100" "0 \<le> p" "p \<le> 5100" "0 \<le> l" "l \<le> 20" "0 \<le> r" "r \<le> 5"
  shows "- 5120 \<le> f64 (f64 (f64 (b - p) - l) + r) \<and> f64 (f64 (f64 (b - p) - l) + r) \<le> 105"
proof -
  have 1: "- 5100 \<le> f64 (b - p) \<and> f64 (b - p) \<le> 100"
    using f64_between [of "- 5100" "b - p" 100] assms by simp
  then have 2: "- 5120 \<le> f64 (f64 (b - p) - l) \<and> f64 (f64 (b - p) - l) \<le> 100"
    using f64_between [of "- 5120" "f64 (b - p) - l" 100] assms by simp
  then show ?thesis
    using f64_between [of "- 5120" "f64 (f64 (b - p) - l) + r" 105] assms by simp
qed

text \<open>(C40) Every score lies between -5120 and 105 whatever the store holds, including under rounding, and
  the two anchors of the scale: a method without data scores 50, one that never failed, was fast and
  succeeded within the last hour scores the maximum.\<close>

theorem score_bounds:
  "- 5120 \<le> compute_score scores fp m now \<and> compute_score scores fp m now \<le> 105
   \<and> (sl_get scores fp m = None \<longrightarrow> compute_score scores fp m now = 50)
   \<and> (sl_get scores fp m = Some e \<and> 0 < successes e \<and> failures e = 0 \<and> last_failure_at e = None
      \<and> median_latency_ms e \<le> 1000 \<and> last_success_at e = Some t \<and> t \<le> now
      \<and> now < t + int (from_secs 3600) \<longrightarrow> compute_score scores fp m now = 105)"
proof -
  have "- 5120 \<le> compute_score scores fp m now \<and> compute_score scores fp m now \<le> 105"
  proof (cases "sl_get scores fp m")
    case (Some e)
    let ?bonus = "case Option.bind (last_success_at e) (duration_since now) of
      Some d \<Rightarrow> if d < from_secs 3600 then 5 else 0 | None \<Rightarrow> (0 :: rat)"
    have "0 \<le> ?bonus" "?bonus \<le> 5" by (auto split: option.splits)
    from rounded_chain_bounds [OF base_quality_bounds penalty_bounds latency_penalty_bounds this] Some
    show ?thesis by (auto simp: compute_score_def Let_def total_exact)
  qed (simp add: compute_score_def)
  moreover have "sl_get scores fp m = None \<longrightarrow> compute_score scores fp m now = 50"
    by (simp add: compute_score_def)
  moreover have "compute_score scores fp m now = 105"
    if e: "sl_get scores fp m = Some e" "0 < successes e" "failures e = 0" "last_failure_at e = None"
      "median_latency_ms e \<le> 1000" "last_success_at e = Some t" "t \<le> now" "now < t + int (from_secs 3600)"
  proof -
    have s: "u32_as_f64 (successes e) \<noteq> 0" using e(2) by (auto simp: u32_as_f64_def unsigned_eq_0_iff)
    have d: "duration_since now t = Some (nat (now - t))" "nat (now - t) < from_secs 3600"
      using e(7,8) by (simp_all add: duration_since_def)
    have "f64 1 = 1" "f64 (0 :: rat) = 0" using f64_of_int [of 1] by simp_all
    then show ?thesis
      using e(1,3-6) s d
      by (simp add: compute_score_def Let_def total_exact compute_recent_failure_penalty_def f64_numeral
          linorder_not_less [symmetric])
  qed
  ultimately show ?thesis by blast
qed

definition demo_lookup :: "(MethodId \<rightharpoonup> ScoreEntry) \<Rightarrow> ScoreLookup" where
  "demo_lookup h = \<lparr>sl_get = (\<lambda>_. h), sl_is_permanently_blocked = (\<lambda>_ _ _ _. False)\<rparr>"

theorem score_bounds_witness:
  "compute_score (demo_lookup Map.empty) fingerprint_default VeilFront 0 = 50
   \<and> compute_score
      (demo_lookup [VeilFront \<mapsto> score_entry_default\<lparr>successes := 4, last_success_at := Some 7\<rparr>])
      fingerprint_default VeilFront 9 = 105"
proof
  show "compute_score (demo_lookup Map.empty) fingerprint_default VeilFront 0 = 50"
    by (simp add: score_bounds demo_lookup_def)
  let ?e = "score_entry_default\<lparr>successes := 4, last_success_at := Some 7\<rparr>"
  show "compute_score (demo_lookup [VeilFront \<mapsto> ?e]) fingerprint_default VeilFront 9 = 105"
    using score_bounds [of "demo_lookup [VeilFront \<mapsto> ?e]" fingerprint_default VeilFront 9 ?e 7]
    by (simp add: demo_lookup_def score_entry_default_def from_secs_def)
qed

section \<open>The selection\<close>

text \<open>Sorting a list of keyed elements is sorting by the key; a stable sort of an ordered list breaks ties
  by that order.\<close>

lemma sort_key_eq_Nil: "sort_key f xs = [] \<longleftrightarrow> xs = []"
  by (metis length_0_conv length_sort)

lemma insort_key_map: "insort_key g (h x) (map h xs) = map h (insort_key (\<lambda>x. g (h x)) x xs)"
  by (induction xs) auto

lemma sort_key_map: "sort_key g (map h xs) = map h (sort_key (\<lambda>x. g (h x)) xs)"
  by (induction xs) (auto simp: insort_key_map)

definition before :: "('a :: linorder \<Rightarrow> 'b :: linorder) \<Rightarrow> 'a \<Rightarrow> 'a \<Rightarrow> bool" where
  "before f a b \<longleftrightarrow> f a < f b \<or> f a = f b \<and> a < b"

lemma insort_key_before:
  "sorted_wrt (before f) ys \<Longrightarrow> \<forall>y\<in>set ys. x < y \<Longrightarrow> sorted_wrt (before f) (insort_key f x ys)"
proof (induction ys)
  case (Cons y ys)
  show ?case
  proof (cases "f x \<le> f y")
    case True
    have "before f x z" if "z \<in> set (y # ys)" for z
      using that Cons.prems True by (fastforce simp: before_def)
    with True Cons.prems show ?thesis by simp
  next
    case False
    then have "before f y x" by (simp add: before_def not_le)
    with False Cons show ?thesis by (simp add: set_insort_key)
  qed
qed simp

lemma sort_key_before: "sorted_wrt (<) xs \<Longrightarrow> sorted_wrt (before f) (sort_key f xs)"
  by (induction xs) (simp_all add: insort_key_before)

lemma sorted_iter_allowed: "sorted_wrt (<) (filter P (iter_allowed s))"
  by (simp add: strict_sorted_iff iter_allowed_def sorted_wrt_filter sorted_filter [where f = id, simplified])

definition unblocked ::
  "NetworkFingerprint \<Rightarrow> MethodSet \<Rightarrow> ScoreLookup \<Rightarrow> VeilConfig \<Rightarrow> system_time \<Rightarrow> MethodId list" where
  "unblocked fp allowed scores cfg now =
     filter (\<lambda>m. \<not> sl_is_permanently_blocked scores fp m (block_ttl cfg) now) (iter_allowed allowed)"

lemma select_unblocked:
  assumes "unblocked fp allowed scores cfg now \<noteq> []" "0 < top_k_probes cfg"
  shows "select_probe_candidates fp allowed scores cfg now =
    take (top_k_probes cfg) (sort_key (\<lambda>m. - compute_score scores fp m now) (unblocked fp allowed scores cfg now))"
proof -
  let ?u = "unblocked fp allowed scores cfg now"
  have "sort_key (\<lambda>(_, s). - s) (map (\<lambda>m. (m, compute_score scores fp m now)) ?u) =
      map (\<lambda>m. (m, compute_score scores fp m now)) (sort_key (\<lambda>m. - compute_score scores fp m now) ?u)"
    by (simp add: sort_key_map)
  moreover have "sort_key f ?u \<noteq> []" for f :: "_ \<Rightarrow> rat" using assms(1) by (simp add: sort_key_eq_Nil)
  moreover have "take (min k (length ?u)) (sort_key f ?u) = take k (sort_key f ?u)" for k and f :: "_ \<Rightarrow> rat"
    by (simp add: min_def)
  ultimately show ?thesis
    using assms
    by (auto simp: select_probe_candidates_def Let_def unblocked_def [symmetric] take_map comp_def min_def)
qed

text \<open>The fallback list.\<close>

lemma blocked_list_iff:
  "(m, t) \<in> set (sort_key snd (List.map_filter
       (\<lambda>m. Option.bind (sl_get scores fp m) (\<lambda>e. map_option (\<lambda>t. (m, t)) (blocked_at e))) (iter_allowed allowed)))
   \<longleftrightarrow> contains allowed m \<and> (\<exists>e. sl_get scores fp m = Some e \<and> blocked_at e = Some t)"
  by (force simp: List.map_filter_def bind_eq_Some_conv)

text \<open>The contract of the trait: who is reported as blocked has an entry that says since when.\<close>

locale score_lookup =
  fixes scores :: ScoreLookup
  assumes blocked_since:
    "sl_is_permanently_blocked scores fp m ttl now \<Longrightarrow> \<exists>e t. sl_get scores fp m = Some e \<and> blocked_at e = Some t"
begin

text \<open>The order of the least recently blocked method: earlier first.\<close>

lemma select_blocked:
  assumes none: "unblocked fp allowed scores cfg now = []" and some: "iter_allowed allowed \<noteq> []"
  shows "\<exists>m e t. select_probe_candidates fp allowed scores cfg now = [m] \<and> contains allowed m
    \<and> sl_get scores fp m = Some e \<and> blocked_at e = Some t
    \<and> (\<forall>m'. contains allowed m' \<longrightarrow>
         (\<exists>e' t'. sl_get scores fp m' = Some e' \<and> blocked_at e' = Some t' \<and> t \<le> t'))"
proof -
  let ?since = "\<lambda>m. Option.bind (sl_get scores fp m) (\<lambda>e. map_option (\<lambda>t. (m, t)) (blocked_at e))"
  let ?l = "sort_key snd (List.map_filter ?since (iter_allowed allowed))"
  have all: "\<exists>e t. sl_get scores fp m = Some e \<and> blocked_at e = Some t" if "contains allowed m" for m
    using none that blocked_since [of fp m "block_ttl cfg" now] by (auto simp: unblocked_def filter_empty_conv)
  note mem = blocked_list_iff [of _ _ scores fp allowed]
  obtain m0 where m0: "contains allowed m0" using some by (metis list.set_sel(1) set_iter_allowed)
  from all [OF m0] obtain e0 t0 where "sl_get scores fp m0 = Some e0" "blocked_at e0 = Some t0" by blast
  with mem [of m0 t0] m0 have "(m0, t0) \<in> set ?l" by blast
  then have "?l \<noteq> []" by (metis list.distinct(1) list.set_cases)
  then obtain m t r where l: "?l = (m, t) # r" by (cases ?l) auto
  have "sorted (map snd ?l)" by simp
  then have least: "t \<le> t'" if "(m', t') \<in> set ?l" for m' t' using that unfolding l by fastforce
  have "select_probe_candidates fp allowed scores cfg now = [m]"
    using none l by (simp add: select_probe_candidates_def Let_def unblocked_def [symmetric])
  moreover from mem [of m t] obtain e where "contains allowed m" "sl_get scores fp m = Some e" "blocked_at e = Some t"
    by (auto simp: l)
  moreover have "\<exists>e' t'. sl_get scores fp m' = Some e' \<and> blocked_at e' = Some t' \<and> t \<le> t'"
    if m': "contains allowed m'" for m'
  proof -
    from all [OF m'] obtain e' t' where e': "sl_get scores fp m' = Some e'" "blocked_at e' = Some t'" by blast
    with mem [of m' t'] m' have "(m', t') \<in> set ?l" by blast
    with least e' show ?thesis by blast
  qed
  ultimately show ?thesis by blast
qed

lemma select_none: "iter_allowed allowed = [] \<Longrightarrow> select_probe_candidates fp allowed scores cfg now = []"
  by (simp add: select_probe_candidates_def List.map_filter_def)

end

section \<open>Facts for every lookup\<close>

lemma select_sound:
  "m \<in> set (select_probe_candidates fp allowed scores cfg now) \<Longrightarrow> contains allowed m"
  "distinct (select_probe_candidates fp allowed scores cfg now)"
  "length (select_probe_candidates fp allowed scores cfg now) \<le> max 1 (top_k_probes cfg)"
proof -
  let ?u = "unblocked fp allowed scores cfg now"
  let ?c = "select_probe_candidates fp allowed scores cfg now"
  have "(\<forall>m\<in>set ?c. contains allowed m) \<and> distinct ?c \<and> length ?c \<le> max 1 (top_k_probes cfg)"
  proof (cases "?u = [] \<or> top_k_probes cfg = 0")
    case True
    let ?l = "sort_key snd (List.map_filter
      (\<lambda>m. Option.bind (sl_get scores fp m) (\<lambda>e. map_option (\<lambda>t. (m, t)) (blocked_at e))) (iter_allowed allowed))"
    have h: "contains allowed m" if "?l = (m, t) # r" for m t r
      using blocked_list_iff [of m t scores fp allowed] that by simp
    have f: "contains allowed m" if "iter_allowed allowed = m # r" for m r
      using set_iter_allowed [of m allowed] that by simp
    from True have "?c = (case ?l of (m, _) # _ \<Rightarrow> [m]
        | [] \<Rightarrow> (case iter_allowed allowed of first # _ \<Rightarrow> [first] | [] \<Rightarrow> []))"
      by (auto simp: select_probe_candidates_def Let_def unblocked_def [symmetric])
    then have "?c = [] \<or> (\<exists>m. ?c = [m] \<and> contains allowed m)"
      using h f by (cases ?l; cases "iter_allowed allowed") fastforce+
    then show ?thesis by auto
  next
    case False
    have "set (take k (sort_key f ?u)) \<subseteq> set ?u" for k and f :: "_ \<Rightarrow> rat"
      using set_take_subset [of k "sort_key f ?u"] by simp
    moreover have "distinct ?u" by (simp add: unblocked_def)
    ultimately show ?thesis using False by (auto simp: select_unblocked unblocked_def)
  qed
  then show "m \<in> set ?c \<Longrightarrow> contains allowed m" "distinct ?c" "length ?c \<le> max 1 (top_k_probes cfg)" by auto
qed

end
