(* ===== verification/Fsm.thy ===== *)
theory Fsm
  imports Fsm_Scoring "HOL-Library.Multiset"
begin

text \<open>The reducer of the client's session state machine (\<^verbatim>\<open>src/src/veil/fsm/reducer.rs\<close>): a pure
  function from a state and an event to the next state and the effects to execute.  The equations
  follow the arms of the source's \<^verbatim>\<open>match\<close>.  Adding a duration to an instant is exact; the source
  panics where the platform's clock type overflows.\<close>

definition saturating_inc :: "byte \<Rightarrow> byte" where
  "saturating_inc b = (if b = 255 then 255 else b + 1)"

text \<open>The arms of the match, grouped by the state they are for.\<close>

fun reduce_idle ::
  "VeilEvent \<Rightarrow> ScoreLookup \<Rightarrow> VeilConfig \<Rightarrow> instant \<Rightarrow> system_time \<Rightarrow> VeilState \<times> VeilEffect list" where
  "reduce_idle (Start relay fingerprint allowed_methods) scores cfg now now_sys =
     (let cands = select_probe_candidates fingerprint allowed_methods scores cfg now_sys in
      if cands = [] then
        (Cooldown (now + cooldown_duration cfg), [ScheduleCooldown (cooldown_duration cfg)])
      else
        (Probing cands (map_of (map (\<lambda>m. (m, ProbeAttempt now)) cands)) now, [StartProbes cands relay]))"
| "reduce_idle Stop scores cfg now now_sys = (Idle, [])"
| "reduce_idle _ scores cfg now now_sys = (Idle, [])"

fun reduce_probing ::
  "MethodId list \<Rightarrow> (MethodId \<rightharpoonup> ProbeAttempt) \<Rightarrow> instant \<Rightarrow> VeilEvent \<Rightarrow> VeilConfig \<Rightarrow> instant \<Rightarrow> VeilState \<times> VeilEffect list" where
  "reduce_probing cands att since (ProbeSucceeded meth port latency_ms) cfg now =
     (if meth \<notin> set cands then (Probing cands att since, [])
      else (Active meth port now 0,
            [CancelOtherProbes meth, RecordScore meth fingerprint_default (Success latency_ms)]))"
| "reduce_probing cands att since (ProbeFailed meth reason) cfg now =
     (if meth \<notin> set cands then (Probing cands att since, [])
      else
        let new_candidates = filter (\<lambda>m. m \<noteq> meth) cands in
        if new_candidates = [] then
          (Cooldown (now + cooldown_duration cfg),
           [RecordScore meth fingerprint_default (Failure reason), ScheduleCooldown (cooldown_duration cfg)])
        else
          (Probing new_candidates (att(meth := None)) since,
           [RecordScore meth fingerprint_default (Failure reason)]))"
| "reduce_probing cands att since AllProbesFailed cfg now =
     (Cooldown (now + cooldown_duration cfg), [ScheduleCooldown (cooldown_duration cfg)])"
| "reduce_probing cands att since Stop cfg now = (Idle, [StopActive])"
| "reduce_probing cands att since _ cfg now = (Probing cands att since, [])"

fun reduce_active ::
  "MethodId \<Rightarrow> u16 \<Rightarrow> instant \<Rightarrow> byte \<Rightarrow> VeilEvent \<Rightarrow> VeilConfig \<Rightarrow> VeilState \<times> VeilEffect list" where
  "reduce_active meth port since fails (TransportFailure kind) cfg =
     (case kind of
        TFingerprintBlocked \<Rightarrow> (Degraded meth port 255, [])
      | TTlsCertProblem \<Rightarrow> (Active meth port since fails, [])
      | _ \<Rightarrow>
          (let new_fails = saturating_inc fails in
           if degraded_threshold cfg \<le> new_fails then (Degraded meth port new_fails, [])
           else (Active meth port since new_fails, [])))"
| "reduce_active meth port since fails Stop cfg = (Idle, [StopActive])"
| "reduce_active meth port since fails _ cfg = (Active meth port since fails, [])"

fun reduce_degraded :: "MethodId \<Rightarrow> u16 \<Rightarrow> byte \<Rightarrow> VeilEvent \<Rightarrow> VeilConfig \<Rightarrow> VeilState \<times> VeilEffect list" where
  "reduce_degraded meth port fails (TransportFailure kind) cfg =
     (case kind of
        TTlsCertProblem \<Rightarrow> (Degraded meth port fails, [])
      | _ \<Rightarrow>
          (let new_fails = saturating_inc fails in
           if degraded_threshold cfg \<le> fails then (Idle, [StopActive])
           else (Degraded meth port new_fails, [])))"
| "reduce_degraded meth port fails Stop cfg = (Idle, [StopActive])"
| "reduce_degraded meth port fails _ cfg = (Degraded meth port fails, [])"

fun reduce_cooldown :: "instant \<Rightarrow> VeilEvent \<Rightarrow> instant \<Rightarrow> VeilState \<times> VeilEffect list" where
  "reduce_cooldown until CooldownElapsed now = (if until \<le> now then (Idle, []) else (Cooldown until, []))"
| "reduce_cooldown until Stop now = (Idle, [])"
| "reduce_cooldown until _ now = (Cooldown until, [])"

fun reduce ::
  "VeilState \<Rightarrow> VeilEvent \<Rightarrow> ScoreLookup \<Rightarrow> VeilConfig \<Rightarrow> instant \<Rightarrow> system_time \<Rightarrow> VeilState \<times> VeilEffect list" where
  "reduce Idle ev scores cfg now now_sys = reduce_idle ev scores cfg now now_sys"
| "reduce (Probing cands att since) ev scores cfg now now_sys = reduce_probing cands att since ev cfg now"
| "reduce (Active meth port since fails) ev scores cfg now now_sys = reduce_active meth port since fails ev cfg"
| "reduce (Degraded meth port fails) ev scores cfg now now_sys = reduce_degraded meth port fails ev cfg"
| "reduce (Cooldown until) ev scores cfg now now_sys = reduce_cooldown until ev now"

text \<open>A run: the events with the scores and the clocks at each, and the effects in order.\<close>

record fsm_input =
  fi_event :: VeilEvent
  fi_scores :: ScoreLookup
  fi_now :: instant
  fi_now_sys :: system_time

definition fsm_step :: "VeilConfig \<Rightarrow> VeilState \<Rightarrow> fsm_input \<Rightarrow> VeilState \<times> VeilEffect list" where
  "fsm_step cfg s i = reduce s (fi_event i) (fi_scores i) cfg (fi_now i) (fi_now_sys i)"

fun fsm_run :: "VeilConfig \<Rightarrow> VeilState \<Rightarrow> fsm_input list \<Rightarrow> VeilState \<times> VeilEffect list" where
  "fsm_run cfg s [] = (s, [])"
| "fsm_run cfg s (i # is) =
     (let (s1, es1) = fsm_step cfg s i; (s2, es2) = fsm_run cfg s1 is in (s2, es1 @ es2))"

section \<open>Invariant\<close>

text \<open>A probe race has candidates, each once and each with its attempt; an active connection has fewer
  failures than the threshold; a degraded one has reached it.\<close>

fun fsm_inv :: "VeilConfig \<Rightarrow> VeilState \<Rightarrow> bool" where
  "fsm_inv cfg (Probing cands att since) =
     (cands \<noteq> [] \<and> distinct cands \<and> length cands \<le> max 1 (top_k_probes cfg) \<and> dom att = set cands)"
| "fsm_inv cfg (Active meth port since fails) = (fails = 0 \<or> fails < degraded_threshold cfg)"
| "fsm_inv cfg (Degraded meth port fails) = (degraded_threshold cfg \<le> fails)"
| "fsm_inv cfg _ = True"

fun running :: "VeilState \<Rightarrow> bool" where
  "running Idle = False"
| "running (Cooldown _) = False"
| "running _ = True"

definition starts_probes :: "VeilEffect list \<Rightarrow> bool" where
  "starts_probes es = list_ex (\<lambda>e. case e of StartProbes _ _ \<Rightarrow> True | _ \<Rightarrow> False) es"

definition schedules_cooldown :: "VeilEffect list \<Rightarrow> bool" where
  "schedules_cooldown es = list_ex (\<lambda>e. case e of ScheduleCooldown _ \<Rightarrow> True | _ \<Rightarrow> False) es"

fun probes_ok :: "VeilConfig \<Rightarrow> VeilEffect \<Rightarrow> bool" where
  "probes_ok cfg (StartProbes ms relay) = (ms \<noteq> [] \<and> distinct ms \<and> length ms \<le> max 1 (top_k_probes cfg))"
| "probes_ok cfg _ = True"

lemma byte_le_255 [simp]: "(b :: byte) \<le> 255"
proof -
  have "unat b \<le> 255" using unat_byte_less [of b] by linarith
  then show ?thesis by (simp add: word_le_nat_alt)
qed

lemma reduce_inv:
  assumes "fsm_inv cfg s" "reduce s ev scores cfg now now_sys = (s', es)"
  shows "fsm_inv cfg s' \<and> list_all (probes_ok cfg) es"
  using assms
  by (cases s; cases ev)
    (auto simp: Let_def select_sound [unfolded One_nat_def] dom_map_of_conv_image_fst image_image
      intro: le_trans [OF length_filter_le] split: if_splits TransportFailureKind.splits)

lemma fsm_run_inv:
  "fsm_inv cfg s \<Longrightarrow> fsm_run cfg s is = (s', es) \<Longrightarrow> fsm_inv cfg s' \<and> list_all (probes_ok cfg) es"
proof (induction "is" arbitrary: s s' es)
  case (Cons i "is")
  obtain s1 es1 where 1: "fsm_step cfg s i = (s1, es1)" by fastforce
  obtain s2 es2 where 2: "fsm_run cfg s1 is = (s2, es2)" by fastforce
  from reduce_inv [OF Cons.prems(1)] 1 have "fsm_inv cfg s1" "list_all (probes_ok cfg) es1"
    by (auto simp: fsm_step_def)
  with Cons.IH [OF _ 2] Cons.prems(2) 1 2 show ?case by (auto simp: Let_def)
qed simp

text \<open>(C16) Whatever events arrive, in any order and with any scores: a probe race always has candidates,
  distinct, no more than configured, with one attempt each; a connection counted as active is below
  the failure threshold and a degraded one has reached it; and no probe race is ever started with an
  empty list of methods.\<close>

theorem fsm_reachable_states:
  "fsm_inv cfg (fst (fsm_run cfg Idle is)) \<and> list_all (probes_ok cfg) (snd (fsm_run cfg Idle is))"
  using fsm_run_inv [of cfg Idle "is"] by (cases "fsm_run cfg Idle is") simp

text \<open>(C33) The effects announce the transitions exactly: probes are started when and only when a session
  begins, the connection is stopped when and only when a session ends in the idle state, and a
  cooldown is scheduled when and only when one is entered, with its end set accordingly.\<close>

theorem effects_match_transitions:
  assumes "reduce s ev scores cfg now now_sys = (s', es)"
  shows "(starts_probes es \<longleftrightarrow> \<not> running s \<and> running s')
   \<and> (StopActive \<in> set es \<longleftrightarrow> running s \<and> s' = Idle)
   \<and> (schedules_cooldown es \<longleftrightarrow> (\<nexists>u. s = Cooldown u) \<and> (\<exists>u. s' = Cooldown u))
   \<and> (schedules_cooldown es \<longrightarrow> s' = Cooldown (now + cooldown_duration cfg))"
  using assms
  by (cases s; cases ev)
    (auto simp: Let_def starts_probes_def schedules_cooldown_def split: if_splits TransportFailureKind.splits)

theorem effects_match_transitions_witness:
  "\<exists>s' es. reduce (Active VeilFront 443 0 0) Stop (demo_lookup Map.empty) config_default 5 5 = (s', es)
     \<and> StopActive \<in> set es \<and> s' = Idle"
  using effects_match_transitions
    [of "Active VeilFront 443 0 0" Stop "demo_lookup Map.empty" config_default 5 5 Idle "[StopActive]"]
  by simp

section \<open>A probe race that fails\<close>

definition failing :: "(MethodId \<times> ProbeFailureReason \<times> fsm_input) \<Rightarrow> fsm_input" where
  "failing = (\<lambda>(m, r, i). i\<lparr>fi_event := ProbeFailed m r\<rparr>)"

lemma failing_at: "failing (m, r, i) = i\<lparr>fi_event := ProbeFailed m r\<rparr>"
  by (simp add: failing_def)

text \<open>(C31) A probe race comes to its end: when the candidates report failure one after another, in any order,
  the machine is in cooldown after the last report, each failure has been recorded exactly once and in
  order, and one cooldown has been scheduled.\<close>

theorem failed_race_ends_in_cooldown:
  assumes "distinct cands" "fails \<noteq> []" "mset (map fst fails) = mset cands"
  shows "fsm_run cfg (Probing cands att since) (map failing fails) =
     (Cooldown (fi_now (snd (snd (last fails))) + cooldown_duration cfg),
      map (\<lambda>(m, r, i). RecordScore m fingerprint_default (Failure r)) fails
        @ [ScheduleCooldown (cooldown_duration cfg)])"
  using assms
proof (induction fails arbitrary: cands att)
  case (Cons f fs)
  obtain m r i where f: "f = (m, r, i)" by (cases f)
  have m: "m \<in> set cands" using arg_cong [OF Cons.prems(3), of set_mset] by (auto simp: f)
  have rest: "mset (map fst fs) = mset (filter (\<lambda>x. x \<noteq> m) cands)"
  proof -
    have "mset (filter (\<lambda>x. x \<noteq> m) cands) = mset cands - {#m#}"
      using distinct_remove1_removeAll [OF Cons.prems(1), of m]
      by (simp add: removeAll_filter_not_eq eq_commute flip: mset_remove1 mset_filter)
    then show ?thesis using Cons.prems(3) by (simp add: f flip: Cons.prems(3))
  qed
  show ?case
  proof (cases "fs = []")
    case True
    with rest have "filter (\<lambda>x. x \<noteq> m) cands = []" by simp
    with m True show ?thesis by (simp add: f failing_at fsm_step_def Let_def)
  next
    case False
    with rest have "filter (\<lambda>x. x \<noteq> m) cands \<noteq> []" by (metis map_is_Nil_conv mset.simps(1) mset_zero_iff)
    moreover have "fsm_run cfg (Probing (filter (\<lambda>x. x \<noteq> m) cands) (att(m := None)) since) (map failing fs) =
       (Cooldown (fi_now (snd (snd (last fs))) + cooldown_duration cfg),
        map (\<lambda>(m, r, i). RecordScore m fingerprint_default (Failure r)) fs
          @ [ScheduleCooldown (cooldown_duration cfg)])"
      using Cons.prems(1) False rest by (intro Cons.IH) simp_all
    ultimately show ?thesis using m False by (simp add: f failing_at fsm_step_def Let_def)
  qed
qed simp

theorem failed_race_ends_in_cooldown_witness:
  "fst (fsm_run config_default (Probing [VeilFront, Obfs4] Map.empty 0)
     (map failing [(Obfs4, PTimeout, \<lparr>fi_event = Stop, fi_scores = demo_lookup Map.empty, fi_now = 1, fi_now_sys = 1\<rparr>),
       (VeilFront, PUnknown, \<lparr>fi_event = Stop, fi_scores = demo_lookup Map.empty, fi_now = 9, fi_now_sys = 9\<rparr>)]))
   = Cooldown (9 + from_secs 30)"
  by (subst failed_race_ends_in_cooldown) (simp_all add: config_default_def)

section \<open>Transport failures\<close>

lemma fsm_run_append:
  "fsm_run cfg s (is @ js) =
     (let (s1, es1) = fsm_run cfg s is; (s2, es2) = fsm_run cfg s1 js in (s2, es1 @ es2))"
  by (induction "is" arbitrary: s) (auto simp: Let_def split: prod.splits)

text \<open>Certificate problems do not count; the others do, up to one beyond the threshold.\<close>

definition counted :: "TransportFailureKind list \<Rightarrow> nat" where
  "counted ks = length (filter (\<lambda>k. k \<noteq> TTlsCertProblem) ks)"

definition after_failures :: "VeilConfig \<Rightarrow> MethodId \<Rightarrow> u16 \<Rightarrow> instant \<Rightarrow> nat \<Rightarrow> VeilState \<times> VeilEffect list" where
  "after_failures cfg m p t n =
     (let limit = max 1 (unat (degraded_threshold cfg)) in
      if n < limit then (Active m p t (of_nat n), [])
      else if n = limit then (Degraded m p (of_nat n), [])
      else (Idle, [StopActive]))"

lemma after_failures_step:
  assumes "k \<noteq> TFingerprintBlocked" "k \<noteq> TTlsCertProblem"
  shows "(let (s, es) = after_failures cfg m p t n;
              (s', es') = reduce s (TransportFailure k) scores cfg now now_sys in (s', es @ es'))
    = after_failures cfg m p t (Suc n)"
proof -
  let ?thr = "unat (degraded_threshold cfg)" let ?limit = "max 1 ?thr"
  have thr: "?thr \<le> 255" using unat_byte_less [of "degraded_threshold cfg"] by linarith
  have small: "unat (of_nat j :: byte) = j" if "j \<le> 255" for j by (rule unat_of_nat_less) (use that in simp)
  consider "n < ?limit" | "n = ?limit" | "?limit < n" by linarith
  then show ?thesis
  proof cases
    case 1
    with thr have n: "n < 255" by simp
    have "(of_nat n :: byte) \<noteq> 255" using small [of n] n by auto
    then have inc: "saturating_inc (of_nat n) = (of_nat (Suc n) :: byte)" by (simp add: saturating_inc_def add.commute)
    have le: "degraded_threshold cfg \<le> (of_nat (Suc n) :: byte) \<longleftrightarrow> ?thr \<le> Suc n"
      using small [of "Suc n"] n by (simp add: word_le_nat_alt del: of_nat_Suc)
    show ?thesis
      using 1 assms inc le by (cases k) (auto simp: after_failures_def Let_def simp del: of_nat_Suc)
  next
    case 2
    have "degraded_threshold cfg \<le> (of_nat ?limit :: byte)" using small [of ?limit] thr by (simp add: word_le_nat_alt)
    with 2 assms show ?thesis by (cases k) (simp_all add: after_failures_def Let_def)
  next
    case 3
    then show ?thesis by (auto simp: after_failures_def Let_def)
  qed
qed



text \<open>A method reported as blocked by its fingerprint is only marked as degraded: nothing is stopped, and it
  takes a further failure report until the session ends.\<close>

lemma blocked_fingerprint_needs_second_report:
  "reduce (Active m p t n) (TransportFailure TFingerprintBlocked) scores cfg now now_sys = (Degraded m p 255, [])"
  "running (Degraded m p 255)"
  "reduce (Degraded m p 255) (TransportFailure TUnknown) scores cfg now now_sys = (Idle, [StopActive])"
  by simp_all

end
