(* ===== verification/Scores.thy ===== *)
theory Scores
  imports Fsm
begin

text \<open>The persistent score store of the client and its in-memory copy
  (\<^verbatim>\<open>src/src/veil/scoring.rs\<close>).  The table is a list of rows in storage order; each SQL statement of the
  source is the update or query it performs.  Every query may fail: \<^verbatim>\<open>db_faults\<close> says for the coming queries
  which do.

  Code that is not part of the repository is a parameter: the two digests, and of SQLite the outcome
  of opening a file, the order in which groups come out of a \<^verbatim>\<open>GROUP BY\<close>, and the row from which a
  column outside an aggregate is taken, which SQLite documents as an arbitrary row of the group.\<close>

section \<open>Rows\<close>

record score_row =
  r_fingerprint :: bytes
  r_method :: int
  r_successes :: int
  r_failures :: int
  r_last_success_at :: "int option"
  r_last_failure_at :: "int option"
  r_median_latency_ms :: int
  r_blocked_at :: "int option"
  r_consecutive_failures :: int

record hashes =
  hs_hmac_sha256 :: "bytes \<Rightarrow> bytes \<Rightarrow> bytes"
  hs_sha256 :: "bytes \<Rightarrow> bytes"

record sqlite =
  sq_open :: "bytes option \<Rightarrow> string + score_row list"
  sq_groups :: "score_row list \<Rightarrow> bytes list"
  sq_group_row :: "score_row list \<Rightarrow> score_row"

definition sqlite_ok :: "sqlite \<Rightarrow> bool" where
  "sqlite_ok sq \<longleftrightarrow>
     (\<forall>rows. distinct (sq_groups sq rows) \<and> set (sq_groups sq rows) = r_fingerprint ` set rows)
     \<and> (\<forall>rows. rows \<noteq> [] \<longrightarrow> sq_group_row sq rows \<in> set rows)"

datatype ScoringError = DbError string

record PersistentScores =
  pool :: "score_row list"
  ps_max_fingerprints :: nat
  scoring_key :: "bytes option"
  db_faults :: "bool list"

text \<open>A query: whether it succeeds, and the store with this fault used up.\<close>

definition db_query :: "PersistentScores \<Rightarrow> bool \<times> PersistentScores" where
  "db_query st = (case db_faults st of [] \<Rightarrow> (True, st) | f # fs \<Rightarrow> (\<not> f, st\<lparr>db_faults := fs\<rparr>))"

section \<open>Opening\<close>

text \<open>\<^verbatim>\<open>file\<close> is the content of the database file, absent when there is none; \<^verbatim>\<open>removed\<close> says whether the
  attempt to delete an unusable file works, which the source does not check.\<close>

definition open_file :: "sqlite \<Rightarrow> bytes option \<Rightarrow> ScoringError + score_row list" where
  "open_file sq file = (case sq_open sq file of Inl e \<Rightarrow> Inl (DbError e) | Inr rows \<Rightarrow> Inr rows)"

definition open_scores ::
  "sqlite \<Rightarrow> string \<Rightarrow> bytes option \<Rightarrow> bool \<Rightarrow> nat \<Rightarrow> bytes option \<Rightarrow> ScoringError + PersistentScores" where
  "open_scores sq path file removed mx key =
     (let store = (\<lambda>rows. \<lparr>pool = rows, ps_max_fingerprints = mx, scoring_key = key, db_faults = []\<rparr>) in
      if path = '':memory:'' then
        (case open_file sq None of Inl e \<Rightarrow> Inl e | Inr rows \<Rightarrow> Inr (store rows))
      else
        (case open_file sq file of
           Inr rows \<Rightarrow> Inr (store rows)
         | Inl first \<Rightarrow>
             (case open_file sq (if removed then None else file) of
                Inl e \<Rightarrow> Inl e
              | Inr rows \<Rightarrow> Inr (store rows))))"

definition open_default :: "sqlite \<Rightarrow> string \<Rightarrow> bytes option \<Rightarrow> bool \<Rightarrow> ScoringError + PersistentScores" where
  "open_default sq path file removed = open_scores sq path file removed 50 None"

definition hash_fp :: "hashes \<Rightarrow> PersistentScores \<Rightarrow> bytes \<Rightarrow> bytes" where
  "hash_fp hs st fp =
     (case scoring_key st of Some key \<Rightarrow> hs_hmac_sha256 hs key fp | None \<Rightarrow> hs_sha256 hs fp)"

definition coarse_now :: "system_time \<Rightarrow> int" where
  "coarse_now clock =
     (let HOUR = 3600;
          now = (case duration_since clock 0 of Some d \<Rightarrow> int (d div 1000000000) | None \<Rightarrow> 0)
      in now div HOUR * HOUR)"

section \<open>Recording\<close>

definition row_key :: "score_row \<Rightarrow> bytes \<times> int" where
  "row_key r = (r_fingerprint r, r_method r)"

definition find_row :: "bytes \<Rightarrow> int \<Rightarrow> score_row list \<Rightarrow> score_row option" where
  "find_row fp m rows = find (\<lambda>r. row_key r = (fp, m)) rows"

text \<open>\<^verbatim>\<open>INSERT ... ON CONFLICT DO UPDATE\<close> on the primary key.\<close>

definition upsert :: "score_row \<Rightarrow> (score_row \<Rightarrow> score_row) \<Rightarrow> score_row list \<Rightarrow> score_row list" where
  "upsert new upd rows =
     (if row_key new \<in> row_key ` set rows
      then map (\<lambda>r. if row_key r = row_key new then upd r else r) rows
      else rows @ [new])"

text \<open>A row with the column defaults of the schema.\<close>

definition default_row :: "bytes \<Rightarrow> int \<Rightarrow> score_row" where
  "default_row fp m =
     \<lparr>r_fingerprint = fp, r_method = m, r_successes = 0, r_failures = 0, r_last_success_at = None,
      r_last_failure_at = None, r_median_latency_ms = 0, r_blocked_at = None, r_consecutive_failures = 0\<rparr>"

text \<open>\<^verbatim>\<open>(current as f64 * 0.7 + latency as f64 * 0.3).round() as u32\<close>: the constants are rounded too, \<^verbatim>\<open>round\<close>
  goes to the nearest integer and away from zero on ties, the cast saturates.\<close>

definition round_as_u32 :: "rat \<Rightarrow> u32" where
  "round_as_u32 q = of_int (max 0 (min (2 ^ 32 - 1) \<lfloor>q + 1 / 2\<rfloor>))"

definition ewma :: "u32 \<Rightarrow> u32 \<Rightarrow> u32" where
  "ewma current_latency latency_ms =
     (if current_latency = 0 then latency_ms
      else round_as_u32
        (f64 (f64 (u32_as_f64 current_latency * f64 (7 / 10)) + f64 (u32_as_f64 latency_ms * f64 (3 / 10)))))"

definition record_success :: "bytes \<Rightarrow> int \<Rightarrow> int \<Rightarrow> u32 \<Rightarrow> score_row list \<Rightarrow> score_row list" where
  "record_success fp m now lat =
     upsert ((default_row fp m)\<lparr>r_successes := 1, r_last_success_at := Some now, r_median_latency_ms := uint lat\<rparr>)
       (\<lambda>r. r\<lparr>r_successes := r_successes r + 1, r_last_success_at := Some now, r_median_latency_ms := uint lat,
              r_consecutive_failures := 0, r_blocked_at := None\<rparr>)"

definition record_failure :: "bytes \<Rightarrow> int \<Rightarrow> int \<Rightarrow> bool \<Rightarrow> score_row list \<Rightarrow> score_row list" where
  "record_failure fp m now is_hard_block =
     (if is_hard_block then
        upsert ((default_row fp m)\<lparr>r_failures := 1, r_last_failure_at := Some now, r_blocked_at := Some now,
                  r_consecutive_failures := 1\<rparr>)
          (\<lambda>r. r\<lparr>r_failures := r_failures r + 1, r_last_failure_at := Some now, r_blocked_at := Some now,
                 r_consecutive_failures := r_consecutive_failures r + 1\<rparr>)
      else
        upsert ((default_row fp m)\<lparr>r_failures := 1, r_last_failure_at := Some now, r_consecutive_failures := 1\<rparr>)
          (\<lambda>r. r\<lparr>r_failures := r_failures r + 1, r_last_failure_at := Some now,
                 r_consecutive_failures := r_consecutive_failures r + 1\<rparr>))"

section \<open>Pruning\<close>

definition fingerprint_count :: "score_row list \<Rightarrow> nat" where
  "fingerprint_count rows = length (remdups (map r_fingerprint rows))"

definition last_visit :: "score_row \<Rightarrow> int" where
  "last_visit r =
     max (case r_last_success_at r of Some t \<Rightarrow> t | None \<Rightarrow> 0) (case r_last_failure_at r of Some t \<Rightarrow> t | None \<Rightarrow> 0)"

definition victims :: "sqlite \<Rightarrow> nat \<Rightarrow> score_row list \<Rightarrow> bytes list" where
  "victims sq limit rows =
     take limit (sort_key (\<lambda>fp. last_visit (sq_group_row sq (filter (\<lambda>r. r_fingerprint r = fp) rows)))
       (sq_groups sq rows))"

definition prune :: "sqlite \<Rightarrow> PersistentScores \<Rightarrow> (ScoringError + unit) \<times> PersistentScores" where
  "prune sq st =
     (let (ok, st) = db_query st; count = fingerprint_count (pool st) in
      if \<not> ok then (Inl (DbError ''count failed''), st)
      else if count \<le> ps_max_fingerprints st then (Inr (), st)
      else
        let to_delete = count - ps_max_fingerprints st;
            (ok, st) = db_query st
        in if \<not> ok then (Inl (DbError ''prune failed''), st)
           else (Inr (), st\<lparr>pool := filter (\<lambda>r. r_fingerprint r \<notin> set (victims sq to_delete (pool st))) (pool st)\<rparr>))"

definition record_outcome ::
  "hashes \<Rightarrow> sqlite \<Rightarrow> system_time \<Rightarrow> NetworkFingerprint \<Rightarrow> MethodId \<Rightarrow> ScoreOutcome \<Rightarrow> PersistentScores \<Rightarrow>
     (ScoringError + unit) \<times> PersistentScores" where
  "record_outcome hs sq clock fingerprint meth outcome st =
     (let fp = hash_fp hs st (as_bytes fingerprint);
          m = int (discriminant meth)
      in case outcome of
           Success latency_ms \<Rightarrow>
             (let (ok, st) = db_query st in
              if \<not> ok then (Inl (DbError ''read failed''), st)
              else
                let current_latency =
                      (case find_row fp m (pool st) of Some r \<Rightarrow> of_int (r_median_latency_ms r) | None \<Rightarrow> 0);
                    ewma_latency = ewma current_latency latency_ms;
                    now = coarse_now clock;
                    (ok, st) = db_query st
                in if \<not> ok then (Inl (DbError ''insert failed''), st)
                   else prune sq (st\<lparr>pool := record_success fp m now ewma_latency (pool st)\<rparr>))
         | Failure reason \<Rightarrow>
             (let now = coarse_now clock;
                  is_hard_block = (reason = PFingerprintBlocked);
                  (ok, st) = db_query st
              in if \<not> ok then (Inl (DbError ''insert failed''), st)
                 else prune sq (st\<lparr>pool := record_failure fp m now is_hard_block (pool st)\<rparr>)))"

section \<open>Reading\<close>

text \<open>\<^verbatim>\<open>UNIX_EPOCH + Duration::from_secs(secs as u64)\<close>: a negative value becomes a time beyond the range of
  \<^verbatim>\<open>SystemTime\<close>, and the addition panics.\<close>

definition epoch_to_system :: "int \<Rightarrow> system_time exec" where
  "epoch_to_system secs = (if 0 \<le> secs then Done (secs * 1000000000) else Panic)"

definition opt_epoch :: "int option \<Rightarrow> system_time option exec" where
  "opt_epoch t = (case t of None \<Rightarrow> Done None | Some secs \<Rightarrow> exec_bind (epoch_to_system secs) (\<lambda>s. Done (Some s)))"

definition clamp_u8 :: "int \<Rightarrow> byte" where
  "clamp_u8 n = of_int (max 0 (min 255 n))"

definition row_entry :: "score_row \<Rightarrow> ScoreEntry exec" where
  "row_entry r =
     exec_bind (opt_epoch (r_last_success_at r)) (\<lambda>ls.
     exec_bind (opt_epoch (r_last_failure_at r)) (\<lambda>lf.
     exec_bind (opt_epoch (r_blocked_at r)) (\<lambda>bl.
     Done \<lparr>successes = of_int (r_successes r), failures = of_int (r_failures r), last_success_at = ls,
           last_failure_at = lf, median_latency_ms = of_int (r_median_latency_ms r), blocked_at = bl,
           consecutive_failures = clamp_u8 (r_consecutive_failures r)\<rparr>)))"

definition get_score ::
  "hashes \<Rightarrow> NetworkFingerprint \<Rightarrow> MethodId \<Rightarrow> PersistentScores \<Rightarrow>
     (ScoringError + ScoreEntry option) exec \<times> PersistentScores" where
  "get_score hs fingerprint meth st =
     (let (ok, st) = db_query st in
      if \<not> ok then (Done (Inl (DbError ''query failed'')), st)
      else
        (case find_row (hash_fp hs st (as_bytes fingerprint)) (int (discriminant meth)) (pool st) of
           Some r \<Rightarrow> exec_bind (row_entry r) (\<lambda>e. Done (Inr (Some e)))
         | None \<Rightarrow> Done (Inr None), st))"

definition is_blocked_sync ::
  "PersistentScores \<Rightarrow> NetworkFingerprint \<Rightarrow> MethodId \<Rightarrow> duration \<Rightarrow> system_time \<Rightarrow> bool" where
  "is_blocked_sync st fingerprint meth ttl now = False"

definition is_permanently_blocked_async ::
  "hashes \<Rightarrow> NetworkFingerprint \<Rightarrow> MethodId \<Rightarrow> duration \<Rightarrow> system_time \<Rightarrow> PersistentScores \<Rightarrow>
     (ScoringError + bool) exec \<times> PersistentScores" where
  "is_permanently_blocked_async hs fingerprint meth ttl now st =
     (let (ok, st) = db_query st in
      if \<not> ok then (Done (Inl (DbError ''query failed'')), st)
      else
        (case find_row (hash_fp hs st (as_bytes fingerprint)) (int (discriminant meth)) (pool st) of
           None \<Rightarrow> Done (Inr False)
         | Some r \<Rightarrow>
             (case r_blocked_at r of
                None \<Rightarrow> Done (Inr False)
              | Some ba \<Rightarrow>
                  exec_bind (epoch_to_system ba) (\<lambda>blocked_time.
                    let consecutive = clamp_u8 (r_consecutive_failures r);
                        expired = (case duration_since now blocked_time of Some d \<Rightarrow> ttl < d | None \<Rightarrow> True)
                    in if expired then Done (Inr False) else Done (Inr (5 \<le> consecutive)))), st))"

definition method_of_byte :: "byte \<Rightarrow> MethodId option" where
  "method_of_byte b =
     (if b = 0 then Some Obfs4 else if b = 1 then Some WebTunnel else if b = 2 then Some Masque
      else if b = 3 then Some VeilFront else None)"

fun collect_rows :: "score_row list \<Rightarrow> (MethodId \<times> ScoreEntry) list exec" where
  "collect_rows [] = Done []"
| "collect_rows (r # rows) =
     (case method_of_byte (of_int (r_method r)) of
        None \<Rightarrow> collect_rows rows
      | Some m \<Rightarrow>
          exec_bind (row_entry r) (\<lambda>e. exec_bind (collect_rows rows) (\<lambda>es. Done ((m, e) # es))))"

definition get_all_for_fingerprint ::
  "hashes \<Rightarrow> NetworkFingerprint \<Rightarrow> PersistentScores \<Rightarrow>
     (ScoringError + (MethodId \<times> ScoreEntry) list) exec \<times> PersistentScores" where
  "get_all_for_fingerprint hs fingerprint st =
     (let (ok, st) = db_query st in
      if \<not> ok then (Done (Inl (DbError ''query failed'')), st)
      else
        (exec_bind (collect_rows (filter (\<lambda>r. r_fingerprint r = hash_fp hs st (as_bytes fingerprint)) (pool st)))
           (\<lambda>es. Done (Inr es)), st))"

section \<open>The cached lookup\<close>

record CachedScoreLookup =
  cs_fingerprint :: NetworkFingerprint
  cs_entries :: "MethodId \<rightharpoonup> ScoreEntry"

definition cached_build ::
  "hashes \<Rightarrow> NetworkFingerprint \<Rightarrow> PersistentScores \<Rightarrow>
     (ScoringError + CachedScoreLookup) exec \<times> PersistentScores" where
  "cached_build hs fingerprint st =
     (let (r, st) = get_all_for_fingerprint hs fingerprint st in
      (exec_bind r (\<lambda>all. case all of
          Inl e \<Rightarrow> Done (Inl e)
        | Inr es \<Rightarrow> Done (Inr \<lparr>cs_fingerprint = fingerprint,
            cs_entries = foldl (\<lambda>h (m, e). h(m \<mapsto> e)) Map.empty es\<rparr>)), st))"

definition cached_empty :: "NetworkFingerprint \<Rightarrow> CachedScoreLookup" where
  "cached_empty fingerprint = \<lparr>cs_fingerprint = fingerprint, cs_entries = Map.empty\<rparr>"

definition blocked_for :: "CachedScoreLookup \<Rightarrow> MethodId \<Rightarrow> duration \<Rightarrow> system_time \<Rightarrow> bool" where
  "blocked_for c meth ttl now =
     (case cs_entries c meth of
        None \<Rightarrow> False
      | Some entry \<Rightarrow>
          (case blocked_at entry of
             None \<Rightarrow> False
           | Some ba \<Rightarrow>
               let consecutive = consecutive_failures entry;
                   expired = (case duration_since now ba of Some d \<Rightarrow> ttl < d | None \<Rightarrow> True)
               in if expired then False else 5 \<le> consecutive))"

definition cached_lookup :: "CachedScoreLookup \<Rightarrow> ScoreLookup" where
  "cached_lookup c =
     \<lparr>sl_get = (\<lambda>_ meth. cs_entries c meth),
      sl_is_permanently_blocked = (\<lambda>_ meth ttl now. blocked_for c meth ttl now)\<rparr>"

interpretation cached: score_lookup "cached_lookup c" for c
  by unfold_locales (auto simp: cached_lookup_def blocked_for_def split: option.splits)

text \<open>(C30) Which methods are probed on a network, from its stored history: nothing is chosen when nothing
  is allowed; when some allowed method is not blocked, the choice is the best of them by score,
  highest first and ties in the fixed order of methods, as many as configured; when all are blocked,
  it is the single one that was blocked longest ago.\<close>

theorem probe_candidates_best:
  fixes c :: CachedScoreLookup and cfg :: VeilConfig and fp :: NetworkFingerprint
    and allowed :: MethodSet and now :: system_time
  assumes "0 < top_k_probes cfg"
  defines "L \<equiv> cached_lookup c"
  defines "ok \<equiv> unblocked fp allowed L cfg now" and "cands \<equiv> select_probe_candidates fp allowed L cfg now"
  shows "(iter_allowed allowed = [] \<longrightarrow> cands = [])
    \<and> (ok \<noteq> [] \<longrightarrow>
        (\<exists>rest. mset (cands @ rest) = mset ok \<and> length cands = min (top_k_probes cfg) (length ok)
           \<and> sorted_wrt (before (\<lambda>m. - compute_score L fp m now)) (cands @ rest)))
    \<and> (ok = [] \<and> iter_allowed allowed \<noteq> [] \<longrightarrow>
        (\<exists>m e t. cands = [m] \<and> contains allowed m \<and> cs_entries c m = Some e \<and> blocked_at e = Some t
           \<and> (\<forall>m'. contains allowed m' \<longrightarrow>
                (\<exists>e' t'. cs_entries c m' = Some e' \<and> blocked_at e' = Some t' \<and> t \<le> t'))))"
proof (intro conjI impI)
  show "iter_allowed allowed = [] \<Longrightarrow> cands = []" unfolding cands_def L_def by (rule cached.select_none)
  let ?s = "sort_key (\<lambda>m. - compute_score L fp m now) ok" let ?k = "top_k_probes cfg"
  assume "ok \<noteq> []"
  then have c: "cands = take ?k ?s"
    unfolding ok_def cands_def using assms(1) by (rule select_unblocked)
  have "mset (cands @ drop ?k ?s) = mset ok" by (simp add: c)
  moreover have "sorted_wrt (before (\<lambda>m. - compute_score L fp m now)) (cands @ drop ?k ?s)"
    by (simp add: c sort_key_before ok_def unblocked_def sorted_iter_allowed)
  ultimately show "\<exists>rest. mset (cands @ rest) = mset ok \<and> length cands = min ?k (length ok)
      \<and> sorted_wrt (before (\<lambda>m. - compute_score L fp m now)) (cands @ rest)"
    by (intro exI [of _ "drop ?k ?s"]) (simp add: c)
next
  assume "ok = [] \<and> iter_allowed allowed \<noteq> []"
  then show "\<exists>m e t. cands = [m] \<and> contains allowed m \<and> cs_entries c m = Some e \<and> blocked_at e = Some t
      \<and> (\<forall>m'. contains allowed m' \<longrightarrow> (\<exists>e' t'. cs_entries c m' = Some e' \<and> blocked_at e' = Some t' \<and> t \<le> t'))"
    using cached.select_blocked [of fp allowed c cfg now]
    unfolding ok_def cands_def L_def by (simp add: cached_lookup_def)
qed

definition demo_cache :: CachedScoreLookup where
  "demo_cache = \<lparr>cs_fingerprint = fingerprint_default,
     cs_entries = [VeilFront \<mapsto> score_entry_default\<lparr>failures := 9, blocked_at := Some 0, consecutive_failures := 9\<rparr>]\<rparr>"

theorem probe_candidates_best_witness:
  "select_probe_candidates fingerprint_default (MethodSet 7) (cached_lookup demo_cache) config_default 1 = [VeilFront]
   \<and> VeilFront \<notin> set (select_probe_candidates fingerprint_default method_set_all (cached_lookup demo_cache) config_default 1)"
proof
  have a: "iter_allowed (MethodSet 7) = [VeilFront]"
    by (simp add: iter_allowed_def methods_all_def contains_def method_bit_def)
  have b: "unblocked fingerprint_default (MethodSet 7) (cached_lookup demo_cache) config_default 1 = []"
    by (simp add: unblocked_def a cached_lookup_def blocked_for_def demo_cache_def config_default_def
        duration_since_def from_secs_def word_le_nat_alt)
  have k: "0 < top_k_probes config_default" by (simp add: config_default_def)
  show "select_probe_candidates fingerprint_default (MethodSet 7) (cached_lookup demo_cache) config_default 1 = [VeilFront]"
    using probe_candidates_best [OF k, where fp = fingerprint_default and allowed = "MethodSet 7" and c = demo_cache and now = 1] a b
    by (auto simp flip: set_iter_allowed)
  have u: "set (unblocked fingerprint_default method_set_all (cached_lookup demo_cache) config_default 1) \<subseteq> - {VeilFront}"
    "Obfs4 \<in> set (unblocked fingerprint_default method_set_all (cached_lookup demo_cache) config_default 1)"
    by (auto simp: unblocked_def cached_lookup_def blocked_for_def demo_cache_def config_default_def
        duration_since_def from_secs_def word_le_nat_alt method_set_all_def contains_def)
  then obtain rest where "mset (select_probe_candidates fingerprint_default method_set_all (cached_lookup demo_cache)
      config_default 1 @ rest) = mset (unblocked fingerprint_default method_set_all (cached_lookup demo_cache) config_default 1)"
    using probe_candidates_best [OF k, where fp = fingerprint_default and allowed = method_set_all and c = demo_cache and now = 1] by fastforce
  from mset_eq_setD [OF this] u(1)
  show "VeilFront \<notin> set (select_probe_candidates fingerprint_default method_set_all (cached_lookup demo_cache) config_default 1)"
    by auto
qed

section \<open>The table as a map\<close>

definition table_map :: "score_row list \<Rightarrow> (bytes \<times> int) \<rightharpoonup> score_row" where
  "table_map rows k = find_row (fst k) (snd k) rows"

definition keys_ok :: "score_row list \<Rightarrow> bool" where
  "keys_ok rows \<longleftrightarrow> distinct (map row_key rows)"

lemma table_map_Nil [simp]: "table_map [] = Map.empty"
  by (simp add: table_map_def find_row_def fun_eq_iff)

lemma table_map_Cons [simp]: "table_map (r # rows) k = (if row_key r = k then Some r else table_map rows k)"
  by (simp add: table_map_def find_row_def)

lemma table_map_eq_None: "table_map rows k = None \<longleftrightarrow> k \<notin> row_key ` set rows"
  by (induction rows) auto

lemma table_map_Some: "table_map rows k = Some r \<Longrightarrow> r \<in> set rows \<and> row_key r = k"
  by (induction rows) (auto split: if_splits)

lemma table_map_append: "table_map (rows @ rows') k = (case table_map rows k of None \<Rightarrow> table_map rows' k | r \<Rightarrow> r)"
  by (induction rows) auto

lemma table_map_mem: "keys_ok rows \<Longrightarrow> r \<in> set rows \<Longrightarrow> table_map rows (row_key r) = Some r"
  by (induction rows) (auto simp: keys_ok_def)

lemma table_map_update:
  assumes "\<And>r. row_key (upd r) = row_key r"
  shows "table_map (map (\<lambda>r. if row_key r = k then upd r else r) rows) k' =
    (if k' = k then map_option upd (table_map rows k) else table_map rows k')"
  by (induction rows) (auto simp: assms)

lemma upsert_refines:
  assumes "\<And>r. row_key (upd r) = row_key r"
  shows "table_map (upsert new upd rows) =
    (table_map rows)(row_key new \<mapsto> (case table_map rows (row_key new) of None \<Rightarrow> new | Some r \<Rightarrow> upd r))"
proof
  fix k
  show "table_map (upsert new upd rows) k =
    ((table_map rows)(row_key new \<mapsto> (case table_map rows (row_key new) of None \<Rightarrow> new | Some r \<Rightarrow> upd r))) k"
    using table_map_eq_None [of rows "row_key new"]
    by (cases "table_map rows (row_key new)")
      (auto simp: upsert_def table_map_update [OF assms] table_map_append split: option.splits)
qed

lemma upsert_keys:
  assumes "\<And>r. row_key (upd r) = row_key r" "keys_ok rows"
  shows "keys_ok (upsert new upd rows)"
proof -
  have "map row_key (map (\<lambda>r. if row_key r = k then upd r else r) rows) = map row_key rows" for k
    by (simp add: assms(1) comp_def if_distrib cong: if_cong)
  then show ?thesis using assms(2) by (auto simp: upsert_def keys_ok_def simp del: map_map)
qed

lemma table_map_filter:
  assumes "\<And>r. P r \<longleftrightarrow> Q (row_key r)"
  shows "table_map (filter P rows) k = (if Q k then table_map rows k else None)"
  by (induction rows) (auto simp: assms)

text \<open>What an outcome does to the row of its method, a row of defaults if there was none.\<close>

definition apply_outcome :: "ScoreOutcome \<Rightarrow> int \<Rightarrow> score_row \<Rightarrow> score_row" where
  "apply_outcome outcome now r =
     (case outcome of
        Success l \<Rightarrow>
          r\<lparr>r_successes := r_successes r + 1, r_last_success_at := Some now,
            r_median_latency_ms := uint (ewma (of_int (r_median_latency_ms r)) l),
            r_consecutive_failures := 0, r_blocked_at := None\<rparr>
      | Failure reason \<Rightarrow>
          r\<lparr>r_failures := r_failures r + 1, r_last_failure_at := Some now,
            r_blocked_at := (if reason = PFingerprintBlocked then Some now else r_blocked_at r),
            r_consecutive_failures := r_consecutive_failures r + 1\<rparr>)"

definition row_or_default :: "score_row list \<Rightarrow> bytes \<times> int \<Rightarrow> score_row" where
  "row_or_default rows k = (case table_map rows k of Some r \<Rightarrow> r | None \<Rightarrow> default_row (fst k) (snd k))"

lemma row_key_simps [simp]:
  "row_key (default_row fp m) = (fp, m)"
  "row_key (r\<lparr>r_successes := a\<rparr>) = row_key r" "row_key (r\<lparr>r_failures := a\<rparr>) = row_key r"
  "row_key (r\<lparr>r_last_success_at := t\<rparr>) = row_key r" "row_key (r\<lparr>r_last_failure_at := t\<rparr>) = row_key r"
  "row_key (r\<lparr>r_median_latency_ms := a\<rparr>) = row_key r" "row_key (r\<lparr>r_blocked_at := t\<rparr>) = row_key r"
  "row_key (r\<lparr>r_consecutive_failures := a\<rparr>) = row_key r"
  by (simp_all add: row_key_def default_row_def)

lemma row_key_apply [simp]: "row_key (apply_outcome outcome now r) = row_key r"
  by (simp add: apply_outcome_def split: ScoreOutcome.splits)

definition write_outcome :: "bytes \<Rightarrow> int \<Rightarrow> ScoreOutcome \<Rightarrow> int \<Rightarrow> score_row list \<Rightarrow> score_row list" where
  "write_outcome fp m outcome now rows =
     (case outcome of
        Success l \<Rightarrow>
          record_success fp m now
            (ewma (case find_row fp m rows of Some r \<Rightarrow> of_int (r_median_latency_ms r) | None \<Rightarrow> 0) l) rows
      | Failure reason \<Rightarrow> record_failure fp m now (reason = PFingerprintBlocked) rows)"

lemma write_outcome_refines:
  "table_map (write_outcome fp m outcome now rows) =
    (table_map rows)((fp, m) \<mapsto> apply_outcome outcome now (row_or_default rows (fp, m)))"
proof -
  have f: "find_row fp m rows = table_map rows (fp, m)" by (simp add: table_map_def)
  have new:
    "apply_outcome (Success l) now (default_row fp m) =
       (default_row fp m)\<lparr>r_successes := 1, r_last_success_at := Some now, r_median_latency_ms := uint (ewma 0 l)\<rparr>"
    "apply_outcome (Failure PFingerprintBlocked) now (default_row fp m) =
       (default_row fp m)\<lparr>r_failures := 1, r_last_failure_at := Some now, r_blocked_at := Some now,
         r_consecutive_failures := 1\<rparr>"
    "reason \<noteq> PFingerprintBlocked \<Longrightarrow> apply_outcome (Failure reason) now (default_row fp m) =
       (default_row fp m)\<lparr>r_failures := 1, r_last_failure_at := Some now, r_consecutive_failures := 1\<rparr>"
    for l reason by (simp_all add: apply_outcome_def default_row_def)
  show ?thesis
  proof (cases "table_map rows (fp, m)")
    case None
    then show ?thesis
      by (cases outcome) (auto simp: write_outcome_def record_success_def record_failure_def upsert_refines
          row_or_default_def new f)
  next
    case (Some r)
    then show ?thesis
      by (cases outcome) (auto simp: write_outcome_def record_success_def record_failure_def upsert_refines
          row_or_default_def apply_outcome_def f)
  qed
qed

lemma write_outcome_keys: "keys_ok rows \<Longrightarrow> keys_ok (write_outcome fp m outcome now rows)"
  by (auto simp: write_outcome_def record_success_def record_failure_def upsert_keys split: ScoreOutcome.splits)

section \<open>Invariant of the store\<close>

definition row_ok :: "score_row \<Rightarrow> bool" where
  "row_ok r \<longleftrightarrow> r_method r \<in> {0..3} \<and> 0 \<le> r_successes r
     \<and> 0 \<le> r_consecutive_failures r \<and> r_consecutive_failures r \<le> r_failures r
     \<and> 0 \<le> r_median_latency_ms r \<and> r_median_latency_ms r < 2 ^ 32
     \<and> (\<forall>t. r_last_success_at r = Some t \<longrightarrow> 0 \<le> t) \<and> (\<forall>t. r_last_failure_at r = Some t \<longrightarrow> 0 \<le> t)
     \<and> (\<forall>t. r_blocked_at r = Some t \<longrightarrow> 0 \<le> t \<and> 0 < r_consecutive_failures r)"

definition store_ok :: "PersistentScores \<Rightarrow> bool" where
  "store_ok st \<longleftrightarrow> keys_ok (pool st) \<and> (\<forall>r\<in>set (pool st). row_ok r)"

lemma coarse_now_nonneg: "0 \<le> coarse_now clock"
  by (auto simp: coarse_now_def Let_def split: option.splits)

lemma discriminant_bounds: "int (discriminant m) \<in> {0..3}"
  by (cases m) simp_all

lemma default_row_ok: "m \<in> {0..3} \<Longrightarrow> row_ok (default_row fp m)"
  by (simp add: row_ok_def default_row_def)

lemma apply_outcome_ok:
  assumes "row_ok r" "0 \<le> now"
  shows "row_ok (apply_outcome outcome now r)"
proof -
  have "uint w < 4294967296" for w :: u32 using uint_bounded [of w] by simp
  then show ?thesis
    using assms by (auto simp: row_ok_def apply_outcome_def split: ScoreOutcome.splits if_splits)
qed

lemma write_outcome_ok:
  assumes "keys_ok rows" "\<forall>r\<in>set rows. row_ok r" "m \<in> {0..3}" "0 \<le> now" "r \<in> set (write_outcome fp m outcome now rows)"
  shows "row_ok r"
proof -
  have "table_map (write_outcome fp m outcome now rows) (row_key r) = Some r"
    using assms by (intro table_map_mem write_outcome_keys)
  then consider "r = apply_outcome outcome now (row_or_default rows (fp, m))" | "table_map rows (row_key r) = Some r"
    unfolding write_outcome_refines fun_upd_apply by (metis option.inject)
  then show ?thesis
  proof cases
    case 1
    have "row_ok (row_or_default rows (fp, m))"
    proof (cases "table_map rows (fp, m)")
      case None
      then show ?thesis using assms(3) by (simp add: row_or_default_def default_row_ok)
    next
      case (Some r')
      with table_map_Some [OF Some] assms(2) show ?thesis by (simp add: row_or_default_def)
    qed
    with 1 assms(4) show ?thesis by (simp add: apply_outcome_ok)
  next
    case 2
    then show ?thesis using assms(2) table_map_Some by blast
  qed
qed

lemma db_query_simps:
  "db_query st = (ok, st') \<Longrightarrow> pool st' = pool st \<and> ps_max_fingerprints st' = ps_max_fingerprints st
     \<and> scoring_key st' = scoring_key st"
  "db_faults st = [] \<Longrightarrow> db_query st = (True, st)"
  by (auto simp: db_query_def split: list.splits)

lemma fingerprint_count_card: "fingerprint_count rows = card (r_fingerprint ` set rows)"
  by (simp add: fingerprint_count_def length_remdups_card_conv)

lemma prune_count:
  assumes "sqlite_ok sq" "mx < fingerprint_count rows"
  shows "fingerprint_count (filter (\<lambda>r. r_fingerprint r \<notin> set (victims sq (fingerprint_count rows - mx) rows)) rows) = mx"
proof -
  let ?v = "victims sq (fingerprint_count rows - mx) rows"
  let ?g = "sq_groups sq rows" let ?f = "\<lambda>fp. last_visit (sq_group_row sq (filter (\<lambda>r. r_fingerprint r = fp) rows))"
  have g: "distinct ?g" "set ?g = r_fingerprint ` set rows" using assms(1) by (auto simp: sqlite_ok_def)
  have lg: "length ?g = fingerprint_count rows" using distinct_card [OF g(1)] g(2) by (simp add: fingerprint_count_card)
  have "distinct ?v" "length ?v = fingerprint_count rows - mx" "set ?v \<subseteq> r_fingerprint ` set rows"
    using g lg set_take_subset [of _ "sort_key ?f ?g"] by (auto simp: victims_def distinct_take)
  moreover have "r_fingerprint ` set (filter (\<lambda>r. r_fingerprint r \<notin> set ?v) rows) = r_fingerprint ` set rows - set ?v"
    by auto
  ultimately have "fingerprint_count (filter (\<lambda>r. r_fingerprint r \<notin> set ?v) rows) =
      fingerprint_count rows - (fingerprint_count rows - mx)"
    by (simp add: fingerprint_count_card card_Diff_subset distinct_card)
  with assms(2) show ?thesis by simp
qed

lemma prune_cases:
  assumes "prune sq st = (r, st')"
  shows "\<exists>F. pool st' = filter (\<lambda>r. r_fingerprint r \<notin> F) (pool st)
    \<and> ps_max_fingerprints st' = ps_max_fingerprints st \<and> scoring_key st' = scoring_key st
    \<and> (fingerprint_count (pool st) \<le> ps_max_fingerprints st \<longrightarrow> F = {})
    \<and> (r = Inr () \<longrightarrow> sqlite_ok sq \<longrightarrow> fingerprint_count (pool st') \<le> ps_max_fingerprints st)
    \<and> (db_faults st = [] \<longrightarrow> r = Inr () \<and> db_faults st' = [])"
proof -
  obtain ok1 st1 where q1: "db_query st = (ok1, st1)" by fastforce
  obtain ok2 st2 where q2: "db_query st1 = (ok2, st2)" by fastforce
  note same = db_query_simps(1) [OF q1] db_query_simps(1) [OF q2]
  have nf: "db_faults st = [] \<Longrightarrow> ok1 \<and> ok2 \<and> st1 = st \<and> st2 = st" using q1 q2 by (auto simp: db_query_def)
  show ?thesis
  proof (cases "ok1 \<and> \<not> fingerprint_count (pool st) \<le> ps_max_fingerprints st \<and> ok2")
    case True
    let ?v = "victims sq (fingerprint_count (pool st) - ps_max_fingerprints st) (pool st)"
    have "st' = st2\<lparr>pool := filter (\<lambda>r. r_fingerprint r \<notin> set ?v) (pool st)\<rparr>" "r = Inr ()"
      using assms True same by (auto simp: prune_def q1 q2 Let_def)
    then show ?thesis
      using True same nf prune_count [of sq "ps_max_fingerprints st" "pool st"]
      by (intro exI [of _ "set ?v"]) auto
  next
    case False
    then show ?thesis
      using assms same nf by (intro exI [of _ "{}"]) (auto simp: prune_def q1 q2 Let_def split: if_splits)
  qed
qed

end
