(* ===== verification/Score_Store.thy ===== *)
theory Score_Store
  imports Scores
begin

text \<open>What the score store promises: its invariant under failing queries, that recording refines an update
  of a map from (network, method) to rows, when a method counts as blocked, and that the cached lookup
  the state machine uses agrees with the store.\<close>

section \<open>Recording\<close>

lemma record_outcome_cases:
  assumes "record_outcome hs sq clock fp m outcome st = (r, st')"
  shows "(\<exists>e. r = Inl e \<and> pool st' = pool st \<and> ps_max_fingerprints st' = ps_max_fingerprints st
            \<and> scoring_key st' = scoring_key st \<and> db_faults st \<noteq> [])
    \<or> (\<exists>st1. prune sq st1 = (r, st')
        \<and> pool st1 = write_outcome (hash_fp hs st (as_bytes fp)) (int (discriminant m)) outcome (coarse_now clock) (pool st)
        \<and> ps_max_fingerprints st1 = ps_max_fingerprints st \<and> scoring_key st1 = scoring_key st
        \<and> (db_faults st = [] \<longrightarrow> db_faults st1 = []))"
proof -
  obtain ok1 st1 where q1: "db_query st = (ok1, st1)" by fastforce
  obtain ok2 st2 where q2: "db_query st1 = (ok2, st2)" by fastforce
  note same = db_query_simps(1) [OF q1] db_query_simps(1) [OF q2]
  have nf: "db_faults st = [] \<Longrightarrow> ok1 \<and> ok2 \<and> st1 = st \<and> st2 = st" using q1 q2 by (auto simp: db_query_def)
  let ?w = "write_outcome (hash_fp hs st (as_bytes fp)) (int (discriminant m)) outcome (coarse_now clock) (pool st)"
  have "(r = Inl (DbError ''read failed'') \<and> \<not> ok1 \<and> st' = st1) \<or> (r = Inl (DbError ''insert failed'') \<and> \<not> ok1 \<and> st' = st1)
    \<or> (r = Inl (DbError ''insert failed'') \<and> \<not> ok2 \<and> st' = st2)
    \<or> prune sq (st2\<lparr>pool := ?w\<rparr>) = (r, st') \<or> prune sq (st1\<lparr>pool := ?w\<rparr>) = (r, st')"
  proof (cases outcome)
    case (Success l)
    with assms same show ?thesis
      by (cases ok1; cases ok2) (simp_all add: record_outcome_def write_outcome_def q1 q2 Let_def)
  next
    case (Failure reason)
    with assms same show ?thesis
      by (cases ok1) (simp_all add: record_outcome_def write_outcome_def q1 Let_def)
  qed
  then show ?thesis
  proof (elim disjE conjE)
    assume "prune sq (st2\<lparr>pool := ?w\<rparr>) = (r, st')"
    then show ?thesis using same nf by (intro disjI2 exI [of _ "st2\<lparr>pool := ?w\<rparr>"]) simp
  next
    assume "prune sq (st1\<lparr>pool := ?w\<rparr>) = (r, st')"
    then show ?thesis using same nf by (intro disjI2 exI [of _ "st1\<lparr>pool := ?w\<rparr>"]) simp
  qed (use same nf in auto)
qed

lemma row_entry_total: "row_ok r \<Longrightarrow> row_entry r \<noteq> Panic"
  by (auto simp: row_ok_def row_entry_def opt_epoch_def epoch_to_system_def exec_bind_def split: option.splits)

lemma record_outcome_inv:
  assumes "store_ok st" "record_outcome hs sq clock fp m outcome st = (r, st')"
  shows "store_ok st' \<and> (\<forall>row\<in>set (pool st'). row_entry row \<noteq> Panic)
    \<and> (r = Inr () \<and> sqlite_ok sq \<longrightarrow> fingerprint_count (pool st') \<le> ps_max_fingerprints st)"
proof -
  have "store_ok st' \<and> (r = Inr () \<and> sqlite_ok sq \<longrightarrow> fingerprint_count (pool st') \<le> ps_max_fingerprints st)"
    using record_outcome_cases [OF assms(2)]
  proof (elim disjE exE conjE)
    fix e assume "r = Inl e" "pool st' = pool st"
    with assms(1) show ?thesis by (simp add: store_ok_def)
  next
    fix st1
    assume p: "prune sq st1 = (r, st')"
      and w: "pool st1 = write_outcome (hash_fp hs st (as_bytes fp)) (int (discriminant m)) outcome (coarse_now clock) (pool st)"
      and mx: "ps_max_fingerprints st1 = ps_max_fingerprints st"
    have ok: "keys_ok (pool st1)" "\<forall>r\<in>set (pool st1). row_ok r"
      using assms(1) write_outcome_ok [OF _ _ discriminant_bounds coarse_now_nonneg]
      by (auto simp: w store_ok_def write_outcome_keys)
    from prune_cases [OF p] obtain F where F: "pool st' = filter (\<lambda>r. r_fingerprint r \<notin> F) (pool st1)"
      and c: "r = Inr () \<longrightarrow> sqlite_ok sq \<longrightarrow> fingerprint_count (pool st') \<le> ps_max_fingerprints st1" by blast
    have "store_ok st'" using ok by (auto simp: store_ok_def F keys_ok_def distinct_map_filter)
    with c mx show ?thesis by simp
  qed
  then show ?thesis by (auto simp: store_ok_def row_entry_total)
qed

text \<open>(C27) The store stays sound whatever is recorded and whichever queries fail: keys are unique, counters and
  times are in range, a block mark means at least one failure in a row, no row makes a reader panic;
  and when a recording reports success the store holds at most the configured number of networks.\<close>

theorem score_store_invariant:
  assumes "store_ok st" "record_outcome hs sq clock fp m outcome st = (r, st')"
  shows "store_ok st' \<and> (\<forall>row\<in>set (pool st'). row_entry row \<noteq> Panic)
    \<and> (r = Inr () \<and> sqlite_ok sq \<longrightarrow> fingerprint_count (pool st') \<le> ps_max_fingerprints st)"
  using record_outcome_inv [OF assms] .

definition demo_hashes :: hashes where
  "demo_hashes = \<lparr>hs_hmac_sha256 = (\<lambda>k m. k @ m), hs_sha256 = (\<lambda>m. m)\<rparr>"

definition demo_sqlite :: sqlite where
  "demo_sqlite = \<lparr>sq_open = (\<lambda>f. case f of None \<Rightarrow> Inr [] | Some _ \<Rightarrow> Inl ''not a database''),
     sq_groups = (\<lambda>rows. remdups (map r_fingerprint rows)), sq_group_row = (\<lambda>rows. last rows)\<rparr>"

definition demo_store :: PersistentScores where
  "demo_store = \<lparr>pool = [], ps_max_fingerprints = 50, scoring_key = None, db_faults = []\<rparr>"

lemma demo_sqlite_ok: "sqlite_ok demo_sqlite"
  by (simp add: sqlite_ok_def demo_sqlite_def)

lemma demo_store_ok: "store_ok demo_store"
  by (simp add: store_ok_def demo_store_def keys_ok_def)

theorem score_store_invariant_witness:
  "fingerprint_count (pool (snd (record_outcome demo_hashes demo_sqlite 0 fingerprint_default VeilFront (Success 80) demo_store))) \<le> 50"
proof -
  obtain r st' where s: "record_outcome demo_hashes demo_sqlite 0 fingerprint_default VeilFront (Success 80) demo_store = (r, st')"
    by fastforce
  moreover have "r = Inr ()"
    using record_outcome_cases [OF s] prune_cases by (fastforce simp: demo_store_def)
  ultimately show ?thesis
    using score_store_invariant [OF demo_store_ok s] demo_sqlite_ok by (simp add: demo_store_def)
qed

section \<open>Reading back\<close>

abbreviation key_of :: "hashes \<Rightarrow> PersistentScores \<Rightarrow> NetworkFingerprint \<Rightarrow> MethodId \<Rightarrow> bytes \<times> int" where
  "key_of hs st fp m \<equiv> (hash_fp hs st (as_bytes fp), int (discriminant m))"

text \<open>There is room when the network is known or the limit is not reached.\<close>

definition has_room :: "hashes \<Rightarrow> PersistentScores \<Rightarrow> NetworkFingerprint \<Rightarrow> bool" where
  "has_room hs st fp \<longleftrightarrow>
     card (insert (hash_fp hs st (as_bytes fp)) (r_fingerprint ` set (pool st))) \<le> ps_max_fingerprints st"

lemma write_outcome_fingerprints:
  "r_fingerprint ` set (write_outcome fp m outcome now rows) \<subseteq> insert fp (r_fingerprint ` set rows)"
  by (auto simp: write_outcome_def record_success_def record_failure_def upsert_def default_row_def
      split: ScoreOutcome.splits if_splits)

lemma record_with_room:
  assumes "db_faults st = []" "has_room hs st fp"
  obtains st' where "record_outcome hs sq clock fp m outcome st = (Inr (), st')" "db_faults st' = []"
    "ps_max_fingerprints st' = ps_max_fingerprints st" "scoring_key st' = scoring_key st"
    "pool st' = write_outcome (hash_fp hs st (as_bytes fp)) (int (discriminant m)) outcome (coarse_now clock) (pool st)"
proof -
  obtain r st' where s: "record_outcome hs sq clock fp m outcome st = (r, st')" by fastforce
  from record_outcome_cases [OF s] assms(1) obtain st1 where st1: "prune sq st1 = (r, st')"
    "pool st1 = write_outcome (hash_fp hs st (as_bytes fp)) (int (discriminant m)) outcome (coarse_now clock) (pool st)"
    "ps_max_fingerprints st1 = ps_max_fingerprints st" "scoring_key st1 = scoring_key st" "db_faults st1 = []" by blast
  have "fingerprint_count (pool st1) \<le> card (insert (hash_fp hs st (as_bytes fp)) (r_fingerprint ` set (pool st)))"
    unfolding fingerprint_count_card st1(2) by (intro card_mono write_outcome_fingerprints) simp
  with assms(2) have "fingerprint_count (pool st1) \<le> ps_max_fingerprints st1" by (simp add: has_room_def st1(3))
  with prune_cases [OF st1(1)] st1 have "r = Inr ()" "db_faults st' = []" "pool st' = pool st1"
    "ps_max_fingerprints st' = ps_max_fingerprints st" "scoring_key st' = scoring_key st"
    by (auto simp: filter_id_conv)
  with that s st1(2) show thesis by simp
qed

lemma get_score_eq:
  "db_faults st = [] \<Longrightarrow> get_score hs fp m st =
     ((case table_map (pool st) (key_of hs st fp m) of
         Some r \<Rightarrow> exec_bind (row_entry r) (\<lambda>e. Done (Inr (Some e))) | None \<Rightarrow> Done (Inr None)), st)"
  by (simp add: get_score_def db_query_simps(2) table_map_def)

text \<open>(C20) What is recorded is what is read: with room in the store and no failing query, the entry of the
  network and method is the old one with exactly this outcome applied (a fresh one if there was
  none), and every other entry reads as before.\<close>

theorem recorded_outcome_read_back:
  assumes "store_ok st" "db_faults st = []" "has_room hs st fp"
  shows "\<exists>st' e. record_outcome hs sq clock fp m outcome st = (Inr (), st')
    \<and> row_entry (apply_outcome outcome (coarse_now clock) (row_or_default (pool st) (key_of hs st fp m))) = Done e
    \<and> fst (get_score hs fp m st') = Done (Inr (Some e))
    \<and> (key_of hs st fp' m' \<noteq> key_of hs st fp m \<longrightarrow> fst (get_score hs fp' m' st') = fst (get_score hs fp' m' st))"
proof -
  obtain st' where st': "record_outcome hs sq clock fp m outcome st = (Inr (), st')" "db_faults st' = []"
    "scoring_key st' = scoring_key st"
    "pool st' = write_outcome (hash_fp hs st (as_bytes fp)) (int (discriminant m)) outcome (coarse_now clock) (pool st)"
    using record_with_room [OF assms(2,3)] by metis
  have k: "hash_fp hs st' b = hash_fp hs st b" for b by (simp add: hash_fp_def st'(3))
  have t: "table_map (pool st') = (table_map (pool st))(key_of hs st fp m \<mapsto>
      apply_outcome outcome (coarse_now clock) (row_or_default (pool st) (key_of hs st fp m)))"
    by (simp add: st'(4) write_outcome_refines)
  from record_outcome_inv [OF assms(1) st'(1)] table_map_Some [of "pool st'" "key_of hs st fp m"] t
  obtain e where e: "row_entry (apply_outcome outcome (coarse_now clock) (row_or_default (pool st) (key_of hs st fp m))) = Done e"
    by (metis exec.exhaust fun_upd_same)
  have "fst (get_score hs fp m st') = Done (Inr (Some e))"
    by (simp add: get_score_eq st'(2) k t e exec_bind_def)
  moreover have "key_of hs st fp' m' \<noteq> key_of hs st fp m \<longrightarrow> fst (get_score hs fp' m' st') = fst (get_score hs fp' m' st)"
    by (simp add: get_score_eq st'(2) assms(2) k t)
  ultimately show ?thesis using st'(1) e by blast
qed

theorem recorded_outcome_read_back_witness:
  "\<exists>st'. record_outcome demo_hashes demo_sqlite 7200000000000 fingerprint_default VeilFront (Success 80) demo_store = (Inr (), st')
    \<and> fst (get_score demo_hashes fingerprint_default VeilFront st') =
        Done (Inr (Some (score_entry_default\<lparr>successes := 1, last_success_at := Some 7200000000000, median_latency_ms := 80\<rparr>)))"
proof -
  have c: "coarse_now 7200000000000 = 7200" by (simp add: coarse_now_def duration_since_def)
  have f: "db_faults demo_store = []" "has_room demo_hashes demo_store fingerprint_default"
    by (simp_all add: demo_store_def has_room_def)
  from recorded_outcome_read_back [OF demo_store_ok f, of demo_sqlite 7200000000000 VeilFront "Success 80"]
  show ?thesis
    by (auto simp: c row_or_default_def demo_store_def default_row_def apply_outcome_def row_entry_def opt_epoch_def
        epoch_to_system_def exec_bind_def ewma_def clamp_u8_def score_entry_default_def)
qed

section \<open>Blocked methods\<close>

fun record_blocks ::
  "hashes \<Rightarrow> sqlite \<Rightarrow> NetworkFingerprint \<Rightarrow> MethodId \<Rightarrow> system_time list \<Rightarrow> PersistentScores \<Rightarrow> PersistentScores" where
  "record_blocks hs sq fp m [] st = st"
| "record_blocks hs sq fp m (t # ts) st =
     record_blocks hs sq fp m ts (snd (record_outcome hs sq t fp m (Failure PFingerprintBlocked) st))"

lemma has_room_write:
  assumes "has_room hs st fp" "scoring_key st' = scoring_key st" "ps_max_fingerprints st' = ps_max_fingerprints st"
    "pool st' = write_outcome (hash_fp hs st (as_bytes fp)) m outcome now (pool st)"
  shows "has_room hs st' fp"
proof -
  let ?h = "hash_fp hs st (as_bytes fp)"
  have "hash_fp hs st' (as_bytes fp) = ?h" by (simp add: hash_fp_def assms(2))
  moreover have "card (insert ?h (r_fingerprint ` set (pool st'))) \<le> card (insert ?h (r_fingerprint ` set (pool st)))"
    using write_outcome_fingerprints [of ?h m outcome now "pool st"] by (intro card_mono) (auto simp: assms(4))
  ultimately show ?thesis using assms(1,3) by (simp add: has_room_def)
qed

lemma record_blocks_row:
  assumes "db_faults st = []" "has_room hs st fp" "ts \<noteq> []"
  shows "\<exists>r. table_map (pool (record_blocks hs sq fp m ts st)) (key_of hs st fp m) = Some r
    \<and> r_consecutive_failures r = r_consecutive_failures (row_or_default (pool st) (key_of hs st fp m)) + int (length ts)
    \<and> r_blocked_at r = Some (coarse_now (last ts))
    \<and> db_faults (record_blocks hs sq fp m ts st) = [] \<and> has_room hs (record_blocks hs sq fp m ts st) fp
    \<and> scoring_key (record_blocks hs sq fp m ts st) = scoring_key st"
  using assms
proof (induction ts arbitrary: st)
  case (Cons t ts)
  from record_with_room [OF Cons.prems(1,2), of sq t m "Failure PFingerprintBlocked"]
  obtain st' where st': "record_outcome hs sq t fp m (Failure PFingerprintBlocked) st = (Inr (), st')" "db_faults st' = []"
    "ps_max_fingerprints st' = ps_max_fingerprints st" "scoring_key st' = scoring_key st"
    "pool st' = write_outcome (hash_fp hs st (as_bytes fp)) (int (discriminant m)) (Failure PFingerprintBlocked)
       (coarse_now t) (pool st)" by metis
  have room: "has_room hs st' fp" by (rule has_room_write [OF Cons.prems(2) st'(4,3,5)])
  have k: "hash_fp hs st' b = hash_fp hs st b" for b by (simp add: hash_fp_def st'(4))
  let ?r = "apply_outcome (Failure PFingerprintBlocked) (coarse_now t) (row_or_default (pool st) (key_of hs st fp m))"
  have r: "table_map (pool st') (key_of hs st fp m) = Some ?r" by (simp add: st'(5) write_outcome_refines)
  show ?case
  proof (cases "ts = []")
    case True
    with r st' room show ?thesis by (simp add: apply_outcome_def)
  next
    case False
    from Cons.IH [OF st'(2) room False] r
    show ?thesis using False by (simp add: st'(1,4) k row_or_default_def apply_outcome_def algebra_simps)
  qed
qed simp

lemma blocked_async_eq:
  assumes "db_faults st = []" "table_map (pool st) (key_of hs st fp m) = Some r" "r_blocked_at r = Some ba" "0 \<le> ba"
  shows "fst (is_permanently_blocked_async hs fp m ttl now st) =
    Done (Inr (ba * 1000000000 \<le> now \<and> nat (now - ba * 1000000000) \<le> ttl \<and> 5 \<le> r_consecutive_failures r))"
proof -
  have "5 \<le> clamp_u8 n \<longleftrightarrow> 5 \<le> n" for n
  proof -
    have "(of_int (max 0 (min 255 n)) :: byte) = of_nat (nat (max 0 (min 255 n)))" by simp
    then have "unat (of_int (max 0 (min 255 n)) :: byte) = nat (max 0 (min 255 n))"
      by (simp only:) (rule unat_of_nat_less, simp)
    then show ?thesis by (simp add: clamp_u8_def word_le_nat_alt le_nat_iff) linarith
  qed
  then show ?thesis
    using assms
    by (auto simp: is_permanently_blocked_async_def db_query_simps(2) table_map_def exec_bind_def epoch_to_system_def
        duration_since_def Let_def)
qed

text \<open>(C29) When a method is blocked on a network: after a run of fingerprint blocks starting from no history, the
  store calls it blocked exactly when the run has at least five and the time asked for is within the
  time-to-live of the last one, which counts from the full hour; and one recorded success ends the
  block.\<close>

theorem five_blocks_block_until_success:
  fixes sq :: sqlite and t :: system_time and l :: u32
  assumes "db_faults st = []" "has_room hs st fp" "table_map (pool st) (key_of hs st fp m) = None" "ts \<noteq> []"
  defines "since \<equiv> coarse_now (last ts) * 1000000000" and "st1 \<equiv> record_blocks hs sq fp m ts st"
  defines "st2 \<equiv> snd (record_outcome hs sq t fp m (Success l) st1)"
  shows "fst (is_permanently_blocked_async hs fp m ttl now st1) =
      Done (Inr (5 \<le> length ts \<and> since \<le> now \<and> nat (now - since) \<le> ttl))
    \<and> fst (is_permanently_blocked_async hs fp m ttl now st2) = Done (Inr False)"
proof -
  from record_blocks_row [OF assms(1,2,4), of sq m] obtain r where
    r: "table_map (pool st1) (key_of hs st fp m) = Some r" "r_blocked_at r = Some (coarse_now (last ts))"
      "r_consecutive_failures r = int (length ts)"
    and st1: "db_faults st1 = []" "has_room hs st1 fp" "scoring_key st1 = scoring_key st"
    using assms(3) by (auto simp: st1_def row_or_default_def default_row_def)
  have k: "hash_fp hs st1 b = hash_fp hs st b" for b by (simp add: hash_fp_def st1(3))
  have 1: "fst (is_permanently_blocked_async hs fp m ttl now st1) =
      Done (Inr (5 \<le> length ts \<and> since \<le> now \<and> nat (now - since) \<le> ttl))"
    using blocked_async_eq [OF st1(1), of hs fp m r "coarse_now (last ts)" ttl now] r coarse_now_nonneg
    by (auto simp: k since_def)
  from record_with_room [OF st1(1,2), of sq t m "Success l"] have
    st2: "db_faults st2 = []" "scoring_key st2 = scoring_key st1"
      "pool st2 = write_outcome (hash_fp hs st1 (as_bytes fp)) (int (discriminant m)) (Success l) (coarse_now t) (pool st1)"
    unfolding st2_def by (metis snd_conv)+
  have "hash_fp hs st2 b = hash_fp hs st1 b" for b by (simp add: hash_fp_def st2(2))
  then have "\<exists>r2. find_row (hash_fp hs st2 (as_bytes fp)) (int (discriminant m)) (pool st2) = Some r2 \<and> r_blocked_at r2 = None"
    using write_outcome_refines [of "hash_fp hs st1 (as_bytes fp)" "int (discriminant m)" "Success l" "coarse_now t" "pool st1"]
    by (auto simp: st2(3) table_map_def fun_eq_iff apply_outcome_def dest: spec [of _ "key_of hs st1 fp m"])
  then have "fst (is_permanently_blocked_async hs fp m ttl now st2) = Done (Inr False)"
    by (auto simp: is_permanently_blocked_async_def db_query_simps(2) st2(1))
  with 1 show ?thesis by blast
qed

theorem five_blocks_block_until_success_witness:
  "fst (is_permanently_blocked_async demo_hashes fingerprint_default VeilFront (from_secs 3600) 5
      (record_blocks demo_hashes demo_sqlite fingerprint_default VeilFront [1, 2, 3, 4, 5] demo_store)) = Done (Inr True)"
proof -
  have "coarse_now 5 = 0" by (simp add: coarse_now_def duration_since_def)
  then show ?thesis
    using five_blocks_block_until_success [where st = demo_store and hs = demo_hashes and fp = fingerprint_default
        and m = VeilFront and ts = "[1, 2, 3, 4, 5]" and ttl = "from_secs 3600" and now = 5 and sq = demo_sqlite]
    by (simp add: demo_store_def has_room_def from_secs_def)
qed

section \<open>The cached lookup agrees with the store\<close>

lemma method_of_row:
  assumes "row_ok r"
  shows "method_of_byte (of_int (r_method r)) = Some m \<longleftrightarrow> r_method r = int (discriminant m)"
proof -
  have "r_method r \<in> {0, 1, 2, 3}" using assms by (auto simp: row_ok_def)
  then show ?thesis by (cases m) (auto simp: method_of_byte_def)
qed

lemma row_method: "row_ok r \<Longrightarrow> \<exists>m. r_method r = int (discriminant m)"
proof -
  assume "row_ok r"
  then have "r_method r \<in> {0, 1, 2, 3}" by (auto simp: row_ok_def)
  then consider "r_method r = 0" | "r_method r = 1" | "r_method r = 2" | "r_method r = 3" by blast
  then show ?thesis
  proof cases
    case 1 then show ?thesis by (intro exI [of _ Obfs4]) simp
  next
    case 2 then show ?thesis by (intro exI [of _ WebTunnel]) simp
  next
    case 3 then show ?thesis by (intro exI [of _ Masque]) simp
  next
    case 4 then show ?thesis by (intro exI [of _ VeilFront]) simp
  qed
qed

lemma collect_rows_ok:
  assumes "\<forall>r\<in>set rows. row_ok r" "distinct (map r_method rows)"
  shows "\<exists>es. collect_rows rows = Done es \<and> distinct (map fst es)
    \<and> (\<forall>m e. (m, e) \<in> set es \<longleftrightarrow> (\<exists>r\<in>set rows. r_method r = int (discriminant m) \<and> row_entry r = Done e))"
  using assms
proof (induction rows)
  case (Cons r rows)
  then obtain es where es: "collect_rows rows = Done es" "distinct (map fst es)"
    "\<forall>m e. (m, e) \<in> set es \<longleftrightarrow> (\<exists>r\<in>set rows. r_method r = int (discriminant m) \<and> row_entry r = Done e)" by auto
  have ok: "row_ok r" using Cons.prems by simp
  obtain e where e: "row_entry r = Done e" using row_entry_total [OF ok] by (cases "row_entry r") auto
  obtain m where m: "r_method r = int (discriminant m)" using row_method [OF ok] by blast
  have "collect_rows (r # rows) = Done ((m, e) # es)"
    using method_of_row [OF ok, of m] m e es(1) by (simp add: exec_bind_def)
  moreover have "m \<notin> fst ` set es" using Cons.prems(2) m es(3) by force
  moreover have "(m', e') \<in> set ((m, e) # es) \<longleftrightarrow>
      (\<exists>r'\<in>set (r # rows). r_method r' = int (discriminant m') \<and> row_entry r' = Done e')" for m' e'
    using es(3) m e by auto
  ultimately show ?case using es(2) by (intro exI [of _ "(m, e) # es"]) (simp only: list.map distinct.simps fst_conv set_map, blast)
qed simp

lemma foldl_entries:
  "distinct (map fst es) \<Longrightarrow> foldl (\<lambda>h (m, e). h(m \<mapsto> e)) h es m = Some e \<longleftrightarrow>
     (m, e) \<in> set es \<or> m \<notin> fst ` set es \<and> h m = Some e"
proof (induction es arbitrary: h)
  case (Cons a es)
  then show ?case by (cases a) (force split: if_splits)
qed simp

lemma methods_distinct:
  "keys_ok rows \<Longrightarrow> distinct (map r_method (filter (\<lambda>r. r_fingerprint r = h) rows))"
  by (induction rows) (auto simp: keys_ok_def row_key_def image_iff)

lemma table_map_iff: "keys_ok rows \<Longrightarrow> table_map rows k = Some r \<longleftrightarrow> r \<in> set rows \<and> row_key r = k"
  using table_map_Some table_map_mem by blast

lemma row_entry_fields:
  "row_entry r = Done e \<Longrightarrow> blocked_at e = map_option (\<lambda>s. s * 1000000000) (r_blocked_at r)
     \<and> consecutive_failures e = clamp_u8 (r_consecutive_failures r)"
  by (auto simp: row_entry_def opt_epoch_def epoch_to_system_def exec_bind_def split: option.splits if_splits)

text \<open>(C28) The state machine sees the store: the cached lookup built from a sound store gives, for every method of
  the network, the entry the store returns and the verdict on blocking the store gives.\<close>

theorem cached_lookup_agrees_with_store:
  assumes "store_ok st" "db_faults st = []"
  shows "\<exists>c. cached_build hs fp st = (Done (Inr c), st)
    \<and> fst (get_score hs fp m st) = Done (Inr (cs_entries c m))
    \<and> fst (is_permanently_blocked_async hs fp m ttl now st) = Done (Inr (blocked_for c m ttl now))"
proof -
  let ?h = "hash_fp hs st (as_bytes fp)" let ?rows = "filter (\<lambda>r. r_fingerprint r = ?h) (pool st)"
  have k: "keys_ok (pool st)" and ok: "\<forall>r\<in>set (pool st). row_ok r" using assms(1) by (auto simp: store_ok_def)
  obtain es where es: "collect_rows ?rows = Done es" "distinct (map fst es)"
    "(m, e) \<in> set es \<longleftrightarrow> (\<exists>r\<in>set ?rows. r_method r = int (discriminant m) \<and> row_entry r = Done e)" for m e
    using collect_rows_ok [of ?rows] methods_distinct [OF k] ok by auto
  let ?c = "\<lparr>cs_fingerprint = fp, cs_entries = foldl (\<lambda>h (m, e). h(m \<mapsto> e)) Map.empty es\<rparr>"
  have c: "cs_entries ?c m = Some e \<longleftrightarrow> (\<exists>r. table_map (pool st) (?h, int (discriminant m)) = Some r \<and> row_entry r = Done e)" for e
    using foldl_entries [OF es(2), of Map.empty m e] es(3) [of m e] by (auto simp: table_map_iff [OF k] row_key_def)
  have b: "cached_build hs fp st = (Done (Inr ?c), st)"
    by (simp add: cached_build_def get_all_for_fingerprint_def db_query_simps(2) assms(2) es(1) exec_bind_def)
  have f: "find_row ?h (int (discriminant m)) (pool st) = table_map (pool st) (?h, int (discriminant m))"
    by (simp add: table_map_def)
  show ?thesis
  proof (cases "table_map (pool st) (?h, int (discriminant m))")
    case None
    with c have n: "cs_entries ?c m = None" by (cases "cs_entries ?c m") auto
    have "fst (get_score hs fp m st) = Done (Inr (cs_entries ?c m))"
      by (simp only: n get_score_eq [OF assms(2)] None) simp
    moreover have "blocked_for ?c m ttl now = False" unfolding blocked_for_def n by simp
    ultimately show ?thesis using b None
      by (intro exI [of _ ?c]) (simp add: is_permanently_blocked_async_def db_query_simps(2) assms(2) f)
  next
    case (Some r)
    then have "row_ok r" using ok table_map_Some by blast
    then obtain e where e: "row_entry r = Done e" using row_entry_total by (cases "row_entry r") auto
    with c Some have n: "cs_entries ?c m = Some e" by simp
    note fields = row_entry_fields [OF e]
    have "fst (get_score hs fp m st) = Done (Inr (cs_entries ?c m))"
      by (simp only: n get_score_eq [OF assms(2)] Some) (simp add: e exec_bind_def)
    moreover have "fst (is_permanently_blocked_async hs fp m ttl now st) = Done (Inr (blocked_for ?c m ttl now))"
      using \<open>row_ok r\<close> unfolding blocked_for_def n
      by (auto simp: is_permanently_blocked_async_def db_query_simps(2) assms(2) f Some fields row_ok_def
          epoch_to_system_def exec_bind_def Let_def split: option.splits)
    ultimately show ?thesis using b by blast
  qed
qed

theorem cached_lookup_agrees_with_store_witness:
  "\<exists>c. cached_build demo_hashes fingerprint_default demo_store = (Done (Inr c), demo_store) \<and> \<not> blocked_for c VeilFront 0 0"
proof -
  have f: "db_faults demo_store = []" by (simp add: demo_store_def)
  from cached_lookup_agrees_with_store [OF demo_store_ok f, of demo_hashes fingerprint_default VeilFront 0 0]
  show ?thesis by (auto simp: is_permanently_blocked_async_def db_query_def demo_store_def find_row_def)
qed

section \<open>Pruning\<close>

text \<open>The statement that prunes takes \<^verbatim>\<open>MAX\<close> with two arguments, which is not an aggregate: the order of the
  networks follows one row of each.  A network visited most recently can be the one that is deleted,
  here in a table of two networks with room for one: the first was last visited in the third hour by
  one method and in the first hour by another.\<close>

definition two_networks :: PersistentScores where
  "two_networks =
     \<lparr>pool = [(default_row [1] 0)\<lparr>r_successes := 1, r_last_success_at := Some 7200\<rparr>,
              (default_row [1] 3)\<lparr>r_successes := 1, r_last_success_at := Some 0\<rparr>,
              (default_row [2] 3)\<lparr>r_successes := 1, r_last_success_at := Some 3600\<rparr>],
      ps_max_fingerprints = 1, scoring_key = None, db_faults = []\<rparr>"

lemma prune_may_drop_newest:
  "store_ok two_networks" "sqlite_ok demo_sqlite"
  "Max (last_visit ` {r \<in> set (pool two_networks). r_fingerprint r = [2]})
     < Max (last_visit ` {r \<in> set (pool two_networks). r_fingerprint r = [1]})"
  "map r_fingerprint (pool (snd (prune demo_sqlite two_networks))) = [[2]]"
proof -
  show "sqlite_ok demo_sqlite" by (rule demo_sqlite_ok)
  show "store_ok two_networks"
    by (simp add: two_networks_def store_ok_def keys_ok_def row_ok_def default_row_def row_key_def)
  have "{r \<in> set (pool two_networks). r_fingerprint r = [1]} =
      {(default_row [1] 0)\<lparr>r_successes := 1, r_last_success_at := Some 7200\<rparr>,
       (default_row [1] 3)\<lparr>r_successes := 1, r_last_success_at := Some 0\<rparr>}"
    "{r \<in> set (pool two_networks). r_fingerprint r = [2]} =
      {(default_row [2] 3)\<lparr>r_successes := 1, r_last_success_at := Some 3600\<rparr>}"
    by (auto simp: two_networks_def default_row_def)
  then show "Max (last_visit ` {r \<in> set (pool two_networks). r_fingerprint r = [2]})
     < Max (last_visit ` {r \<in> set (pool two_networks). r_fingerprint r = [1]})"
    by (simp add: last_visit_def default_row_def)
  show "map r_fingerprint (pool (snd (prune demo_sqlite two_networks))) = [[2]]"
    by (simp add: prune_def db_query_def two_networks_def fingerprint_count_def victims_def demo_sqlite_def
        last_visit_def default_row_def Let_def)
qed

section \<open>The latency average\<close>

lemma abs_diffD: "\<bar>a - b\<bar> \<le> (e :: rat) \<Longrightarrow> a \<le> b + e \<and> b \<le> a + e"
  by linarith

lemma round_as_u32_between:
  assumes "of_int lo - 1 / 2 < q" "q < of_int hi + 1 / 2" "0 \<le> lo" "hi < 2 ^ 32"
  shows "lo \<le> uint (round_as_u32 q)" "uint (round_as_u32 q) \<le> hi"
proof -
  obtain n where n: "\<lfloor>q + 1 / 2\<rfloor> = n" by blast
  with assms have "lo \<le> n" "n \<le> hi" by linarith+
  with assms(3,4) have "uint (round_as_u32 q) = n"
    by (simp add: round_as_u32_def n unsigned_of_int take_bit_int_eq_self)
  with \<open>lo \<le> n\<close> \<open>n \<le> hi\<close> show "lo \<le> uint (round_as_u32 q)" "uint (round_as_u32 q) \<le> hi" by simp_all
qed

lemma ewma_real_bounds:
  assumes "0 \<le> a" "a \<le> hi" "0 \<le> b" "b \<le> hi" "hi \<le> 2 ^ 32" "lo \<le> a" "lo \<le> b" "0 \<le> (lo :: rat)"
  shows "f64 (f64 (a * f64 (7 / 10)) + f64 (b * f64 (3 / 10))) < hi + 1 / 2"
    "lo - 1 / 2 < f64 (f64 (a * f64 (7 / 10)) + f64 (b * f64 (3 / 10)))"
proof -
  have prod: "\<bar>f64 (x * f64 c) - x * c\<bar> \<le> 1 / 2 ^ 19" "f64 (x * f64 c) \<le> 2 ^ 32"
    if x: "0 \<le> x" "x \<le> 2 ^ 32" and c: "0 \<le> c" "c \<le> 7 / 10" for x c
  proof -
    have e: "\<bar>f64 c - c\<bar> \<le> 1 / 2 ^ 53" using f64_rel_error [OF c(1)] c(2) by simp
    have "\<bar>x * f64 c - x * c\<bar> = x * \<bar>f64 c - c\<bar>" using x(1) by (simp add: abs_mult flip: right_diff_distrib)
    also have "\<dots> \<le> 2 ^ 32 * (1 / 2 ^ 53)" using x e by (intro mult_mono) auto
    finally have 1: "x * f64 c \<le> x * c + 1 / 2097152" "x * c \<le> x * f64 c + 1 / 2097152"
      using abs_diffD [of "x * f64 c" "x * c" "1 / 2097152"] by auto
    have xc: "x * c \<le> 4294967296 * (7 / 10)" by (rule mult_mono) (use x c in simp_all)
    have n: "0 \<le> x * f64 c" using x(1) f64_nonneg [OF c(1)] by simp
    have "x * f64 c \<le> 2 ^ 33" using 1 xc by simp
    from abs_diffD [OF f64_abs_error [OF n this]]
    have 2: "f64 (x * f64 c) \<le> x * f64 c + 1 / 1048576" "x * f64 c \<le> f64 (x * f64 c) + 1 / 1048576" by simp_all
    have "\<bar>f64 (x * f64 c) - x * c\<bar> \<le> 1 / 524288" using 1 2 by linarith
    then show "\<bar>f64 (x * f64 c) - x * c\<bar> \<le> 1 / 2 ^ 19" by simp
    show "f64 (x * f64 c) \<le> 2 ^ 32" using 1 2 xc by simp
  qed
  have "a \<le> 2 ^ 32" "b \<le> 2 ^ 32" using assms by linarith+
  then have p: "\<bar>f64 (a * f64 (7 / 10)) - a * (7 / 10)\<bar> \<le> 1 / 2 ^ 19" "\<bar>f64 (b * f64 (3 / 10)) - b * (3 / 10)\<bar> \<le> 1 / 2 ^ 19"
    "f64 (a * f64 (7 / 10)) \<le> 2 ^ 32" "f64 (b * f64 (3 / 10)) \<le> 2 ^ 32"
    using prod [of a "7 / 10"] prod [of b "3 / 10"] assms by simp_all
  have n: "0 \<le> f64 (a * f64 (7 / 10)) + f64 (b * f64 (3 / 10))"
    using assms by (intro add_nonneg_nonneg f64_nonneg mult_nonneg_nonneg) auto
  have "f64 (a * f64 (7 / 10)) + f64 (b * f64 (3 / 10)) \<le> 2 ^ 33" using p(3,4) by simp
  note s = abs_diffD [OF f64_abs_error [OF n this]] abs_diffD [OF p(1)] abs_diffD [OF p(2)]
  show "f64 (f64 (a * f64 (7 / 10)) + f64 (b * f64 (3 / 10))) < hi + 1 / 2"
    "lo - 1 / 2 < f64 (f64 (a * f64 (7 / 10)) + f64 (b * f64 (3 / 10)))"
    using s assms by simp_all
qed

text \<open>The moving average of the latency is computed in floating point and rounded; nevertheless it always
  lies between the old value and the new sample, and it never saturates.  The first sample is taken as
  it is.\<close>

theorem latency_average_between:
  "min old new \<le> ewma old new \<and> ewma old new \<le> max old new \<and> ewma 0 new = new"
proof (cases "old = 0")
  case True
  then show ?thesis by (simp add: ewma_def)
next
  case False
  let ?x = "f64 (f64 (u32_as_f64 old * f64 (7 / 10)) + f64 (u32_as_f64 new * f64 (3 / 10)))"
  let ?lo = "min (uint old) (uint new)" and ?hi = "max (uint old) (uint new)"
  have u: "u32_as_f64 w = of_int (uint w)" for w by (simp add: u32_as_f64_def)
  have hi: "?hi < 2 ^ 32" using uint_bounded [of old] uint_bounded [of new] by simp
  then have "(of_int ?hi :: rat) \<le> of_int (2 ^ 32)" by (simp only: of_int_le_iff)
  then have h32: "(of_int ?hi :: rat) \<le> 2 ^ 32" by simp
  have le: "u32_as_f64 old \<le> of_int ?hi" "u32_as_f64 new \<le> of_int ?hi" "of_int ?lo \<le> u32_as_f64 old"
    "of_int ?lo \<le> u32_as_f64 new" "(0 :: rat) \<le> of_int ?lo"
    unfolding u of_int_le_iff of_int_0_le_iff by simp_all
  note b = ewma_real_bounds [OF u32_as_f64_nonneg le(1) u32_as_f64_nonneg le(2) h32 le(3,4,5)]
  have "?lo \<le> uint (ewma old new)" "uint (ewma old new) \<le> ?hi"
    using round_as_u32_between [OF b(2,1) _ hi] False by (simp_all add: ewma_def)
  then have "uint (min old new) \<le> uint (ewma old new)" "uint (ewma old new) \<le> uint (max old new)"
    by (auto simp: min_def max_def word_le_def split: if_splits)
  then show ?thesis by (simp add: word_le_def ewma_def)
qed

section \<open>Opening\<close>

text \<open>The scores are a cache and never keep a session from starting: where SQLite can create an empty database,
  opening succeeds for every content of the file that can be removed; the stored rows are kept when the
  file is usable and the store is empty otherwise.  A file that is unusable and cannot be removed is
  the only failure.\<close>

theorem scores_open_recovers:
  assumes "sq_open sq None = Inr []" "path \<noteq> '':memory:''"
  shows "(case open_scores sq path content removed mx key of
      Inr st \<Rightarrow> pool st = (case sq_open sq content of Inr rows \<Rightarrow> rows | Inl _ \<Rightarrow> []) \<and> db_faults st = []
        \<and> ps_max_fingerprints st = mx \<and> scoring_key st = key
    | Inl e \<Rightarrow> \<not> removed \<and> (\<exists>m. sq_open sq content = Inl m \<and> e = DbError m))"
  using assms by (auto simp: open_scores_def open_file_def Let_def split: sum.splits)

theorem scores_open_recovers_witness:
  "\<exists>st. open_scores demo_sqlite ''scores.sqlite'' (Some [1, 2, 3]) True 50 None = Inr st \<and> pool st = []"
proof -
  have "sq_open demo_sqlite None = Inr []" by (simp add: demo_sqlite_def)
  from scores_open_recovers [OF this, where path = "''scores.sqlite''" and content = "Some [1, 2, 3]" and removed = True
      and mx = 50 and key = None]
  show ?thesis by (auto simp: demo_sqlite_def split: sum.splits)
qed

end
