(* ===== verification/Coordinator.thy ===== *)
theory Coordinator
  imports Adapter Score_Store
begin

text \<open>The coordinator (\<^verbatim>\<open>src/src/veil/coordinator.rs\<close>): it drives the reducer through one cycle of probes,
  records what they gave, and keeps the slot of the active session; and the retry rule of its accept
  loop (\<^verbatim>\<open>src/src/accept.rs\<close>).

  What the world answers is the record \<^verbatim>\<open>coord_env\<close>: the digests and SQLite of the score store, the clocks
  by the number of the reading, the outcome of binding the local listener, the time the cycle took,
  for parallel probes the order in which their results reach the channel, and how an error prints.  A registered method is
  the function from a probe request to how its probe runs, with the milliseconds it took.  Log lines
  are left out.

  The slot is also modelled under concurrency, as a step relation over sessions being installed,
  stopped, and ending by themselves.\<close>

section \<open>Results and errors\<close>

datatype probe_run = StartFails ObfuscatorError u32 | FirstByte "ObfuscatorError + unit" u32 | NoFirstByte u32

type_synonym obfuscator = "ProbeRequest \<Rightarrow> probe_run"

datatype ProbeOutcome = ProbeSuccess u16 u32 | ProbeFailure ProbeFailureReason u32

record ProbeResult =
  pr_method :: MethodId
  pr_outcome :: ProbeOutcome

record CoordinatorStartResult =
  sr_port :: u16
  sr_method :: MethodId
  sr_latency_ms :: u32

datatype CoordinatorError = CoIo io_error | CoScoring string | CoStopped | CoAllProbesFailed | CoNoMethods

fun classify_obfuscator_error :: "ObfuscatorError \<Rightarrow> ProbeFailureReason" where
  "classify_obfuscator_error OFingerprintBlocked = PFingerprintBlocked"
| "classify_obfuscator_error (OCertProblem _) = PTlsCertProblem"
| "classify_obfuscator_error OTimeout = PTimeout"
| "classify_obfuscator_error OCancelled = PConnectionFailed"
| "classify_obfuscator_error OConnectionRefused = PConnectionFailed"
| "classify_obfuscator_error (OHandshake _) = PConnectionFailed"
| "classify_obfuscator_error (OTls _) = PConnectionFailed"
| "classify_obfuscator_error (OIo _) = PConnectionFailed"
| "classify_obfuscator_error (OUnknown _) = PUnknown"

section \<open>State\<close>

record ActiveSession =
  session_id :: u64
  session_port :: u16
  session_method :: MethodId

record ProxyParams =
  pp_method :: MethodId
  pp_request :: ProbeRequest

text \<open>\<^verbatim>\<open>told\<close> lists the sessions that were shut down: their listener was signalled and their tunnels
  cancelled.  \<^verbatim>\<open>proxies\<close> lists the proxy tasks started.  \<^verbatim>\<open>readings\<close> numbers the clock readings.
  \<^verbatim>\<open>sink\<close> is the last failure text (\<^verbatim>\<open>src/src/veil/diag.rs\<close>), which is process-wide in the source.\<close>

record VeilCoordinator =
  co_config :: VeilConfig
  co_scores :: PersistentScores
  obfuscators :: "MethodId \<rightharpoonup> obfuscator"
  active :: "ActiveSession option"
  next_session_id :: u64
  told :: "u64 list"
  proxies :: "(u64 \<times> ProxyParams) list"
  readings :: nat
  sink :: string

record coord_env =
  en_hashes :: hashes
  en_sqlite :: sqlite
  en_now :: "nat \<Rightarrow> instant"
  en_sys :: "nat \<Rightarrow> system_time"
  en_bind :: "io_error + u16"
  en_order :: "MethodId list \<Rightarrow> MethodId list"
  en_elapsed :: u32
  en_debug :: "ObfuscatorError \<Rightarrow> string"

definition coordinator_new :: "VeilConfig \<Rightarrow> PersistentScores \<Rightarrow> VeilCoordinator" where
  "coordinator_new cfg scores =
     \<lparr>co_config = cfg, co_scores = scores, obfuscators = Map.empty, active = None, next_session_id = 0,
      told = [], proxies = [], readings = 0, sink = []\<rparr>"

definition register :: "MethodId \<Rightarrow> obfuscator \<Rightarrow> VeilCoordinator \<Rightarrow> VeilCoordinator" where
  "register meth obf co = co\<lparr>obfuscators := (obfuscators co)(meth \<mapsto> obf)\<rparr>"

text \<open>Reading both clocks and running the reducer, as every caller of it does.\<close>

definition reduce_now ::
  "coord_env \<Rightarrow> VeilState \<Rightarrow> VeilEvent \<Rightarrow> CachedScoreLookup \<Rightarrow> VeilCoordinator \<Rightarrow> VeilState \<times> VeilEffect list \<times> VeilCoordinator" where
  "reduce_now env state ev cache co =
     (let n = readings co;
          (new_state, effects) = reduce state ev (cached_lookup cache) (co_config co) (en_now env n) (en_sys env n)
      in (new_state, effects, co\<lparr>readings := n + 1\<rparr>))"

section \<open>The session slot\<close>

text \<open>Taking the session out of the slot and shutting it down, under the lock.\<close>

definition take_and_shut_down :: "VeilCoordinator \<Rightarrow> VeilCoordinator" where
  "take_and_shut_down co =
     (case active co of
        Some s \<Rightarrow> co\<lparr>active := None, told := told co @ [session_id s]\<rparr>
      | None \<Rightarrow> co)"

definition install_at :: "u64 \<Rightarrow> u16 \<Rightarrow> ProxyParams \<Rightarrow> VeilCoordinator \<Rightarrow> VeilCoordinator" where
  "install_at i port params co =
     (let co = take_and_shut_down co
      in co\<lparr>active := Some \<lparr>session_id = i, session_port = port, session_method = pp_method params\<rparr>,
            proxies := proxies co @ [(i, params)]\<rparr>)"

definition install_session :: "u16 \<Rightarrow> ProxyParams \<Rightarrow> VeilCoordinator \<Rightarrow> VeilCoordinator" where
  "install_session port params co =
     (let i = next_session_id co + 1
      in install_at i port params (co\<lparr>next_session_id := i\<rparr>))"

text \<open>What the proxy task of a session does after its loop has ended.\<close>

definition proxy_exit :: "u64 \<Rightarrow> VeilCoordinator \<Rightarrow> VeilCoordinator" where
  "proxy_exit i co =
     (case active co of
        Some s \<Rightarrow> if session_id s = i then co\<lparr>active := None\<rparr> else co
      | None \<Rightarrow> co)"

definition stop :: "VeilCoordinator \<Rightarrow> bool \<times> VeilCoordinator" where
  "stop co = (active co \<noteq> None, take_and_shut_down co)"

definition is_alive :: "VeilCoordinator \<Rightarrow> bool" where
  "is_alive co \<longleftrightarrow> active co \<noteq> None"

definition active_port :: "VeilCoordinator \<Rightarrow> u16" where
  "active_port co = (case active co of Some s \<Rightarrow> session_port s | None \<Rightarrow> 0)"

section \<open>Recording\<close>

definition record_score ::
  "coord_env \<Rightarrow> NetworkFingerprint \<Rightarrow> MethodId \<Rightarrow> ScoreOutcome \<Rightarrow> VeilCoordinator \<Rightarrow> VeilCoordinator" where
  "record_score env fp meth outcome co =
     (let (_, sc) = record_outcome (en_hashes env) (en_sqlite env) (en_sys env (readings co)) fp meth outcome (co_scores co)
      in co\<lparr>co_scores := sc, readings := readings co + 1\<rparr>)"

fun record_effects :: "coord_env \<Rightarrow> NetworkFingerprint \<Rightarrow> VeilEffect list \<Rightarrow> VeilCoordinator \<Rightarrow> VeilCoordinator" where
  "record_effects env fp [] co = co"
| "record_effects env fp (RecordScore sm _ outcome # effects) co =
     record_effects env fp effects (record_score env fp sm outcome co)"
| "record_effects env fp (_ # effects) co = record_effects env fp effects co"

section \<open>Probe results\<close>

definition handle_probe_failure ::
  "coord_env \<Rightarrow> MethodId \<Rightarrow> ProbeFailureReason \<Rightarrow> NetworkFingerprint \<Rightarrow> VeilState \<Rightarrow> CachedScoreLookup \<Rightarrow> VeilCoordinator \<Rightarrow>
     VeilState \<times> VeilCoordinator" where
  "handle_probe_failure env meth reason fp state cache co =
     (let (new_state, effects, co) = reduce_now env state (ProbeFailed meth reason) cache co
      in (new_state, record_effects env fp effects co))"

definition handle_all_probes_failed ::
  "coord_env \<Rightarrow> VeilState \<Rightarrow> CachedScoreLookup \<Rightarrow> VeilCoordinator \<Rightarrow> VeilState \<times> VeilCoordinator" where
  "handle_all_probes_failed env state cache co =
     (case state of
        Probing _ _ _ \<Rightarrow>
          (let (new_state, effects, co) = reduce_now env state AllProbesFailed cache co in (new_state, co))
      | _ \<Rightarrow> (state, co))"

definition handle_probe_success ::
  "coord_env \<Rightarrow> MethodId \<Rightarrow> u32 \<Rightarrow> NetworkFingerprint \<Rightarrow> ProbeRequest \<Rightarrow> VeilState \<Rightarrow> CachedScoreLookup \<Rightarrow> VeilCoordinator \<Rightarrow>
     (CoordinatorError + unit) \<times> VeilState \<times> VeilCoordinator" where
  "handle_probe_success env meth latency_ms fp req state cache co =
     (case en_bind env of
        Inl e \<Rightarrow> (Inl (CoIo e), state, co)
      | Inr port \<Rightarrow>
          (let (new_state, effects, co) = reduce_now env state (ProbeSucceeded meth port latency_ms) cache co;
               co = record_effects env fp effects co
           in (Inr (), new_state, install_session port \<lparr>pp_method = meth, pp_request = req\<rparr> co)))"

definition execute_probe_with_params :: "VeilCoordinator \<Rightarrow> MethodId \<Rightarrow> ProbeRequest \<Rightarrow> ProbeFailureReason + unit" where
  "execute_probe_with_params co meth req =
     (case obfuscators co meth of
        None \<Rightarrow> Inl PUnknown
      | Some obf \<Rightarrow>
          (case obf req of
             StartFails e _ \<Rightarrow> Inl (classify_obfuscator_error e)
           | FirstByte (Inr _) _ \<Rightarrow> Inr ()
           | FirstByte (Inl e) _ \<Rightarrow> Inl (classify_obfuscator_error e)
           | NoFirstByte _ \<Rightarrow> Inl PTimeout))"

text \<open>The time a probe took, as its caller measures it.\<close>

fun run_ms :: "probe_run \<Rightarrow> u32" where
  "run_ms (StartFails _ ms) = ms"
| "run_ms (FirstByte _ ms) = ms"
| "run_ms (NoFirstByte ms) = ms"

definition probe_ms :: "VeilCoordinator \<Rightarrow> MethodId \<Rightarrow> ProbeRequest \<Rightarrow> u32" where
  "probe_ms co meth req = (case obfuscators co meth of None \<Rightarrow> 0 | Some obf \<Rightarrow> run_ms (obf req))"

fun run_sequential_probes ::
  "coord_env \<Rightarrow> MethodId list \<Rightarrow> NetworkFingerprint \<Rightarrow> ProbeRequest \<Rightarrow> VeilState \<Rightarrow> CachedScoreLookup \<Rightarrow> VeilCoordinator \<Rightarrow>
     (CoordinatorError + unit) \<times> VeilState \<times> VeilCoordinator" where
  "run_sequential_probes env [] fp req state cache co =
     (let (state, co) = handle_all_probes_failed env state cache co in (Inr (), state, co))"
| "run_sequential_probes env (meth # methods) fp req state cache co =
     (case execute_probe_with_params co meth req of
        Inr _ \<Rightarrow> handle_probe_success env meth (probe_ms co meth req) fp req state cache co
      | Inl reason \<Rightarrow>
          (let (state, co) = handle_probe_failure env meth reason fp state cache co
           in case state of
                Cooldown _ \<Rightarrow> (let (state, co) = handle_all_probes_failed env state cache co in (Inr (), state, co))
              | Idle \<Rightarrow> (let (state, co) = handle_all_probes_failed env state cache co in (Inr (), state, co))
              | _ \<Rightarrow> run_sequential_probes env methods fp req state cache co))"

text \<open>What the task of one parallel probe sends.\<close>

definition spawn_probe :: "VeilCoordinator \<Rightarrow> ProbeRequest \<Rightarrow> MethodId \<Rightarrow> ProbeResult" where
  "spawn_probe co req meth =
     \<lparr>pr_method = meth, pr_outcome =
       (case obfuscators co meth of
          None \<Rightarrow> ProbeFailure PUnknown 0
        | Some obf \<Rightarrow>
            (case obf req of
               StartFails e ms \<Rightarrow> ProbeFailure (classify_obfuscator_error e) ms
             | FirstByte (Inr _) ms \<Rightarrow> ProbeSuccess 0 ms
             | FirstByte (Inl e) ms \<Rightarrow> ProbeFailure (classify_obfuscator_error e) ms
             | NoFirstByte ms \<Rightarrow> ProbeFailure PTimeout ms))\<rparr>"

text \<open>Decimal text of a number.\<close>

fun decimal :: "nat \<Rightarrow> string" where
  "decimal n = (if n div 10 = 0 then [] else decimal (n div 10)) @ [char_of (48 + n mod 10)]"

declare decimal.simps [simp del]

text \<open>The text the task of a failed parallel probe keeps for the host, and the texts of the failures in the
  order of their results.  The probe of a single method keeps none.\<close>

definition probe_text :: "coord_env \<Rightarrow> VeilCoordinator \<Rightarrow> ProbeRequest \<Rightarrow> MethodId \<Rightarrow> string" where
  "probe_text env co req meth =
     (case obfuscators co meth of
        None \<Rightarrow> method_name meth @ '': no obfuscator registered in this build''
      | Some obf \<Rightarrow>
          (case obf req of
             StartFails e ms \<Rightarrow> method_name meth @ '': start error: '' @ en_debug env e @ '' ('' @ decimal (unat ms) @ ''ms)''
           | FirstByte (Inl e) ms \<Rightarrow> method_name meth @ '': probe error: '' @ en_debug env e @ '' ('' @ decimal (unat ms) @ ''ms)''
           | FirstByte (Inr _) ms \<Rightarrow> []
           | NoFirstByte ms \<Rightarrow> method_name meth @ '': timeout after '' @ decimal (unat ms) @ ''ms (no first byte)''))"

fun note_failures ::
  "coord_env \<Rightarrow> ProbeRequest \<Rightarrow> (MethodId \<times> ProbeFailureReason \<times> u32) list \<Rightarrow> VeilCoordinator \<Rightarrow> VeilCoordinator" where
  "note_failures env req [] co = co"
| "note_failures env req ((meth, _) # failed) co =
     note_failures env req failed (co\<lparr>sink := probe_text env co req meth\<rparr>)"

fun collect_results ::
  "ProbeResult list \<Rightarrow> (MethodId \<times> ProbeFailureReason \<times> u32) list \<Rightarrow>
     (MethodId \<times> u32) option \<times> (MethodId \<times> ProbeFailureReason \<times> u32) list" where
  "collect_results [] failed = (None, failed)"
| "collect_results (r # rx) failed =
     (case pr_outcome r of
        ProbeSuccess _ latency_ms \<Rightarrow> (Some (pr_method r, latency_ms), failed)
      | ProbeFailure reason latency_ms \<Rightarrow>
          collect_results rx (failed @ [(pr_method r, reason, latency_ms)]))"

fun record_failures ::
  "coord_env \<Rightarrow> NetworkFingerprint \<Rightarrow> (MethodId \<times> ProbeFailureReason \<times> u32) list \<Rightarrow> VeilCoordinator \<Rightarrow> VeilCoordinator" where
  "record_failures env fp [] co = co"
| "record_failures env fp ((meth, reason, _) # failed) co =
     record_failures env fp failed (record_score env fp meth (Failure reason) co)"

fun fail_each ::
  "coord_env \<Rightarrow> NetworkFingerprint \<Rightarrow> CachedScoreLookup \<Rightarrow> (MethodId \<times> ProbeFailureReason \<times> u32) list \<Rightarrow> VeilState \<Rightarrow>
     VeilCoordinator \<Rightarrow> VeilState \<times> VeilCoordinator" where
  "fail_each env fp cache [] state co = (state, co)"
| "fail_each env fp cache ((meth, reason, _) # failed) state co =
     (let (state, co) = handle_probe_failure env meth reason fp state cache co
      in fail_each env fp cache failed state co)"

definition run_parallel_probes ::
  "coord_env \<Rightarrow> MethodId list \<Rightarrow> NetworkFingerprint \<Rightarrow> ProbeRequest \<Rightarrow> VeilState \<Rightarrow> CachedScoreLookup \<Rightarrow> VeilCoordinator \<Rightarrow>
     (CoordinatorError + unit) \<times> VeilState \<times> VeilCoordinator" where
  "run_parallel_probes env methods fp req state cache co =
     (if methods = [] then (Inl CoNoMethods, state, co)
      else
        let (winner, failed) = collect_results (map (spawn_probe co req) (en_order env methods)) [];
            co = note_failures env req failed co
        in case winner of
             Some (winning_method, latency_ms) \<Rightarrow>
               (case en_bind env of
                  Inl e \<Rightarrow> (Inl (CoIo e), state, co)
                | Inr port \<Rightarrow>
                    (let (new_state, effects, co) =
                           reduce_now env state (ProbeSucceeded winning_method port latency_ms) cache co;
                         co = record_effects env fp effects co;
                         co = record_failures env fp failed co
                     in (Inr (), new_state, install_session port \<lparr>pp_method = winning_method, pp_request = req\<rparr> co)))
           | None \<Rightarrow>
               (let (state, co) = fail_each env fp cache failed state co;
                    (state, co) = handle_all_probes_failed env state cache co
                in (Inr (), state, co)))"

section \<open>Effects and the start of a session\<close>

definition execute_effect_with_params ::
  "coord_env \<Rightarrow> VeilEffect \<Rightarrow> NetworkFingerprint \<Rightarrow> ProbeRequest \<Rightarrow> CachedScoreLookup \<Rightarrow> VeilState \<Rightarrow> VeilCoordinator \<Rightarrow>
     (CoordinatorError + unit) \<times> VeilState \<times> VeilCoordinator" where
  "execute_effect_with_params env effect fp req cache state co =
     (case effect of
        StartProbes methods _ \<Rightarrow>
          if length methods = 1 then run_sequential_probes env methods fp req state cache co
          else run_parallel_probes env methods fp req state cache co
      | CancelOtherProbes winner \<Rightarrow> (Inr (), state, co)
      | StopActive \<Rightarrow> (Inr (), state, take_and_shut_down co)
      | ScheduleCooldown duration \<Rightarrow> (Inr (), state, co)
      | RecordScore meth efp outcome \<Rightarrow>
          (let fp_to_use = (if list_all (\<lambda>b. b = 0) (as_bytes efp) then fp else efp);
               (r, sc) = record_outcome (en_hashes env) (en_sqlite env) (en_sys env (readings co)) fp_to_use meth outcome
                 (co_scores co);
               co = co\<lparr>co_scores := sc, readings := readings co + 1\<rparr>
           in (case r of Inl (DbError e) \<Rightarrow> Inl (CoScoring e) | Inr _ \<Rightarrow> Inr (), state, co)))"

fun execute_effects ::
  "coord_env \<Rightarrow> VeilEffect list \<Rightarrow> NetworkFingerprint \<Rightarrow> ProbeRequest \<Rightarrow> CachedScoreLookup \<Rightarrow> VeilState \<Rightarrow> VeilCoordinator \<Rightarrow>
     (CoordinatorError + unit) \<times> VeilState \<times> VeilCoordinator" where
  "execute_effects env [] fp req cache state co = (Inr (), state, co)"
| "execute_effects env (e # es) fp req cache state co =
     (case execute_effect_with_params env e fp req cache state co of
        (Inl er, state, co) \<Rightarrow> (Inl er, state, co)
      | (Inr _, state, co) \<Rightarrow> execute_effects env es fp req cache state co)"

text \<open>The allowed set with every unregistered method disabled.\<close>

definition registered_methods :: "VeilCoordinator \<Rightarrow> MethodSet \<Rightarrow> MethodSet" where
  "registered_methods co allowed =
     from_bitmask (foldl (\<lambda>bits m. if obfuscators co m = None then bits OR method_bit m else bits)
       (method_bits allowed) methods_all)"

text \<open>The loop body runs once: it returns in every state but probing and degraded, and from those the next
  round leaves the loop and reaches \<^verbatim>\<open>unreachable!\<close>.\<close>

text \<open>What the state after the effects means for the caller.\<close>

definition session_result ::
  "coord_env \<Rightarrow> (CoordinatorError + unit) \<times> VeilState \<times> VeilCoordinator \<Rightarrow>
     ((CoordinatorError + CoordinatorStartResult) \<times> VeilCoordinator) exec" where
  "session_result env cycle =
     (case cycle of
        (Inl e, state, co) \<Rightarrow> Done (Inl e, co)
      | (Inr _, state, co) \<Rightarrow>
          (case state of
             Active meth port _ _ \<Rightarrow> Done (Inr \<lparr>sr_port = port, sr_method = meth, sr_latency_ms = en_elapsed env\<rparr>, co)
           | Cooldown _ \<Rightarrow> Done (Inl CoAllProbesFailed, co)
           | Idle \<Rightarrow> Done (Inl CoStopped, co)
           | _ \<Rightarrow> Panic))"

definition start_session_with_params ::
  "coord_env \<Rightarrow> NetworkFingerprint \<Rightarrow> MethodSet \<Rightarrow> ProbeRequest \<Rightarrow> VeilCoordinator \<Rightarrow>
     ((CoordinatorError + CoordinatorStartResult) \<times> VeilCoordinator) exec" where
  "start_session_with_params env fp allowed_methods req co =
     (let allowed = registered_methods co allowed_methods in
      if iter_allowed allowed = [] then Done (Inl CoNoMethods, co)
      else
        let (built, sc) = cached_build (en_hashes env) fp (co_scores co);
            co = co\<lparr>co_scores := sc\<rparr>
        in exec_bind built (\<lambda>built.
          let cache = (case built of Inr c \<Rightarrow> c | Inl _ \<Rightarrow> cached_empty fp);
              (state, effects, co) = reduce_now env Idle (Start (relay_addr req) fp allowed) cache co
          in session_result env (execute_effects env effects fp req cache state co)))"

definition start_session ::
  "coord_env \<Rightarrow> string \<Rightarrow> NetworkFingerprint \<Rightarrow> MethodSet \<Rightarrow> VeilCoordinator \<Rightarrow>
     ((CoordinatorError + CoordinatorStartResult) \<times> VeilCoordinator) exec" where
  "start_session env relay fp allowed_methods co =
     start_session_with_params env fp allowed_methods
       \<lparr>relay_addr = relay, tls_sni = [], req_spki_hex = [], veil_front_ticket_b64 = [], auth_v3 = auth_v3_default\<rparr> co"

section \<open>The proxy loop\<close>

definition is_resource_exhaustion :: "bool \<Rightarrow> int \<Rightarrow> bool" where
  "is_resource_exhaustion linux code \<longleftrightarrow> code \<in> set (if linux then [24, 23, 105, 12] else [24, 23, 55, 12])"

definition accept_retry_delay :: "bool \<Rightarrow> io_kind \<Rightarrow> int option \<Rightarrow> duration option" where
  "accept_retry_delay linux kind raw_os_error =
     (if kind \<in> {KConnectionAborted, ConnectionReset, KInterrupted, KWouldBlock} then Some 0
      else if (case raw_os_error of Some code \<Rightarrow> is_resource_exhaustion linux code | None \<Rightarrow> False)
      then Some (from_millis 100)
      else if kind = KOutOfMemory then Some (from_millis 100)
      else None)"

text \<open>What the loop sees: the shutdown signal, a connection, or a failed accept.  The result lists the
  connections handed to a tunnel task and the pauses, and says whether the loop has ended, which
  cancels all of them.\<close>

datatype 'conn proxy_event = ShutdownSignal | Accepted 'conn | AcceptFails io_kind "int option"

fun run_proxy_loop :: "bool \<Rightarrow> 'conn proxy_event list \<Rightarrow> 'conn list \<times> duration list \<times> bool" where
  "run_proxy_loop linux [] = ([], [], False)"
| "run_proxy_loop linux (ShutdownSignal # evs) = ([], [], True)"
| "run_proxy_loop linux (Accepted local # evs) =
     (let (served, pauses, ended) = run_proxy_loop linux evs in (local # served, pauses, ended))"
| "run_proxy_loop linux (AcceptFails kind raw # evs) =
     (case accept_retry_delay linux kind raw of
        Some delay \<Rightarrow>
          (let (served, pauses, ended) = run_proxy_loop linux evs
           in (served, if delay \<noteq> 0 then delay # pauses else pauses, ended))
      | None \<Rightarrow> ([], [], True))"

text \<open>One accepted connection: only veil-front has a data plane.\<close>

definition handle_proxy_connection ::
  "client_env \<Rightarrow> client_dial \<Rightarrow> 's chacha \<Rightarrow> 's \<Rightarrow> 's \<Rightarrow> bool \<Rightarrow> up_tick list \<Rightarrow> read_event list \<Rightarrow> writer \<Rightarrow> ProxyParams \<Rightarrow>
     ((ObfuscatorError + unit) option \<times> writer \<times> writer) option exec" where
  "handle_proxy_connection env d c s fresh up_first ticks relay_rd local params =
     (case pp_method params of
        VeilFront \<Rightarrow>
          (let req = pp_request params in
           exec_bind (run_veil_front_ferry env d c s fresh up_first ticks relay_rd local
               (relay_addr req) (tls_sni req) (req_spki_hex req) (veil_front_ticket_b64 req) (auth_v3 req))
             (\<lambda>r. Done (Some r)))
      | _ \<Rightarrow> Done None)"

section \<open>What a cycle records\<close>

text \<open>The store after recording these outcomes in this order, each at some time.\<close>

definition recorded_as ::
  "coord_env \<Rightarrow> NetworkFingerprint \<Rightarrow> (MethodId \<times> ScoreOutcome) list \<Rightarrow> PersistentScores \<Rightarrow> PersistentScores \<Rightarrow> bool" where
  "recorded_as env fp recs sc sc' \<longleftrightarrow> (\<exists>times. length times = length recs
     \<and> sc' = foldl (\<lambda>sc ((m, outcome), t). snd (record_outcome (en_hashes env) (en_sqlite env) t fp m outcome sc))
         sc (zip recs times))"

lemma recorded_as_Nil: "recorded_as env fp [] sc sc"
  by (simp add: recorded_as_def)

lemma recorded_as_append:
  assumes "recorded_as env fp xs a b" "recorded_as env fp ys b c"
  shows "recorded_as env fp (xs @ ys) a c"
proof -
  let ?f = "\<lambda>sc ((m, outcome), t). snd (record_outcome (en_hashes env) (en_sqlite env) t fp m outcome sc)"
  obtain ts us where ts: "length ts = length xs" "b = foldl ?f a (zip xs ts)"
    and us: "length us = length ys" "c = foldl ?f b (zip ys us)"
    using assms unfolding recorded_as_def by blast
  have "zip (xs @ ys) (ts @ us) = zip xs ts @ zip ys us" using ts(1) by simp
  then have "c = foldl ?f a (zip (xs @ ys) (ts @ us))" using ts(2) us(2) by simp
  then show ?thesis unfolding recorded_as_def using ts(1) us(1) by (intro exI [of _ "ts @ us"]) simp
qed

lemma record_score_recorded: "recorded_as env fp [(m, outcome)] (co_scores co) (co_scores (record_score env fp m outcome co))"
  unfolding recorded_as_def record_score_def
  by (intro exI [of _ "[en_sys env (readings co)]"]) (simp add: case_prod_beta)

text \<open>Everything of the coordinator that recording leaves alone.\<close>

definition same_session :: "VeilCoordinator \<Rightarrow> VeilCoordinator \<Rightarrow> bool" where
  "same_session co co' \<longleftrightarrow> active co' = active co \<and> told co' = told co \<and> proxies co' = proxies co
     \<and> next_session_id co' = next_session_id co \<and> obfuscators co' = obfuscators co \<and> co_config co' = co_config co"

lemma same_session_simps [simp]:
  "same_session co co" "same_session co (co\<lparr>readings := n\<rparr>)" "same_session co (record_score env fp m outcome co)"
  "same_session co (co\<lparr>co_scores := sc\<rparr>)"
  by (simp_all add: same_session_def record_score_def case_prod_beta)

lemma same_session_trans: "same_session a b \<Longrightarrow> same_session b c \<Longrightarrow> same_session a c"
  by (simp add: same_session_def)

fun effect_records :: "VeilEffect list \<Rightarrow> (MethodId \<times> ScoreOutcome) list" where
  "effect_records [] = []"
| "effect_records (RecordScore m _ outcome # es) = (m, outcome) # effect_records es"
| "effect_records (_ # es) = effect_records es"

lemma record_effects_recorded:
  "recorded_as env fp (effect_records es) (co_scores co) (co_scores (record_effects env fp es co))
   \<and> same_session co (record_effects env fp es co)"
proof (induction env fp es co rule: record_effects.induct)
  case (2 env fp sm u outcome effects co)
  then show ?case
    using recorded_as_append [OF record_score_recorded [of env fp sm outcome co]] same_session_trans [OF same_session_simps(3)]
    by fastforce
qed (simp_all add: recorded_as_Nil)

lemma record_failures_recorded:
  "recorded_as env fp (map (\<lambda>(m, r, _). (m, Failure r)) fs) (co_scores co) (co_scores (record_failures env fp fs co))
   \<and> same_session co (record_failures env fp fs co)"
proof (induction env fp fs co rule: record_failures.induct)
  case (2 env fp meth reason u failed co)
  then show ?case
    using recorded_as_append [OF record_score_recorded [of env fp meth "Failure reason" co]]
      same_session_trans [OF same_session_simps(3)] by fastforce
qed (simp_all add: recorded_as_Nil)

lemma reduce_now_eq:
  "reduce_now env state ev cache co =
     (fst (reduce state ev (cached_lookup cache) (co_config co) (en_now env (readings co)) (en_sys env (readings co))),
      snd (reduce state ev (cached_lookup cache) (co_config co) (en_now env (readings co)) (en_sys env (readings co))),
      co\<lparr>readings := readings co + 1\<rparr>)"
  by (simp add: reduce_now_def Let_def case_prod_beta)

text \<open>One failure of a candidate: it is recorded, and the race goes on with the others or ends.\<close>

lemma handle_probe_failure_step:
  assumes "m \<in> set cs"
  shows "\<exists>state co'. handle_probe_failure env m reason fp (Probing cs att since) cache co = (state, co')
    \<and> same_session co co' \<and> recorded_as env fp [(m, Failure reason)] (co_scores co) (co_scores co')
    \<and> (let cs' = filter (\<lambda>x. x \<noteq> m) cs in
       if cs' = [] then \<exists>until. state = Cooldown until else state = Probing cs' (att(m := None)) since)"
proof -
  define R where "R = reduce (Probing cs att since) (ProbeFailed m reason) (cached_lookup cache) (co_config co)
    (en_now env (readings co)) (en_sys env (readings co))"
  have r: "effect_records (snd R) = [(m, Failure reason)]"
    "let cs' = filter (\<lambda>x. x \<noteq> m) cs in
       if cs' = [] then \<exists>until. fst R = Cooldown until else fst R = Probing cs' (att(m := None)) since"
    using assms by (auto simp: R_def Let_def)
  have h: "handle_probe_failure env m reason fp (Probing cs att since) cache co =
      (fst R, record_effects env fp (snd R) (co\<lparr>readings := readings co + 1\<rparr>))"
    by (simp add: handle_probe_failure_def reduce_now_eq R_def)
  show ?thesis
    using record_effects_recorded [of env fp "snd R" "co\<lparr>readings := readings co + 1\<rparr>"] r
      same_session_trans [OF same_session_simps(2)]
    unfolding h by fastforce
qed

lemma fail_each_ends:
  assumes "distinct (map fst fs)" "set (map fst fs) = set cs" "cs \<noteq> []"
  shows "\<exists>until co'. fail_each env fp cache fs (Probing cs att since) co = (Cooldown until, co') \<and> same_session co co'
    \<and> recorded_as env fp (map (\<lambda>(m, r, _). (m, Failure r)) fs) (co_scores co) (co_scores co')"
  using assms
proof (induction fs arbitrary: cs att co)
  case (Cons f fs)
  obtain m reason ms where f: "f = (m, reason, ms)" by (cases f)
  have m: "m \<in> set cs" using Cons.prems(2) f by auto
  obtain state co1 where h: "handle_probe_failure env m reason fp (Probing cs att since) cache co = (state, co1)"
    "same_session co co1" "recorded_as env fp [(m, Failure reason)] (co_scores co) (co_scores co1)"
    "let cs' = filter (\<lambda>x. x \<noteq> m) cs in
       if cs' = [] then \<exists>until. state = Cooldown until else state = Probing cs' (att(m := None)) since"
    using handle_probe_failure_step [OF m] by blast
  let ?cs = "filter (\<lambda>x. x \<noteq> m) cs"
  have s: "set (map fst fs) = set ?cs" using Cons.prems(1,2) f by auto
  show ?case
  proof (cases "?cs = []")
    case True
    then have "fs = []" using s by (cases fs) auto
    then show ?thesis using h True f by (auto simp: Let_def)
  next
    case False
    then have "state = Probing ?cs (att(m := None)) since" using h(4) by (simp add: Let_def)
    moreover have d: "distinct (map fst fs)" using Cons.prems(1) by simp
    from Cons.IH [OF d s False, of "att(m := None)" co1] obtain until co'
      where IH: "fail_each env fp cache fs (Probing ?cs (att(m := None)) since) co1 = (Cooldown until, co')"
        "same_session co1 co'" "recorded_as env fp (map (\<lambda>(m, r, _). (m, Failure r)) fs) (co_scores co1) (co_scores co')"
      by blast
    ultimately show ?thesis
      using h(1-3) f same_session_trans [OF h(2) IH(2)] recorded_as_append [OF h(3) IH(3)] by auto
  qed
qed simp

section \<open>The race\<close>

definition probe_ok :: "VeilCoordinator \<Rightarrow> ProbeRequest \<Rightarrow> MethodId \<Rightarrow> bool" where
  "probe_ok co req m \<longleftrightarrow> execute_probe_with_params co m req = Inr ()"

definition probe_reason :: "VeilCoordinator \<Rightarrow> ProbeRequest \<Rightarrow> MethodId \<Rightarrow> ProbeFailureReason" where
  "probe_reason co req m = (case execute_probe_with_params co m req of Inl r \<Rightarrow> r | Inr _ \<Rightarrow> PUnknown)"

lemma spawn_probe_eq:
  "spawn_probe co req m = \<lparr>pr_method = m, pr_outcome =
     (if probe_ok co req m then ProbeSuccess 0 (probe_ms co m req)
      else ProbeFailure (probe_reason co req m) (probe_ms co m req))\<rparr>"
  by (auto simp: spawn_probe_def probe_ok_def probe_reason_def probe_ms_def execute_probe_with_params_def
      split: option.splits probe_run.splits sum.splits)

lemma collect_results_eq:
  "collect_results (map (spawn_probe co req) ms) acc =
     (case dropWhile (\<lambda>m. \<not> probe_ok co req m) ms of [] \<Rightarrow> None | w # _ \<Rightarrow> Some (w, probe_ms co w req),
      acc @ map (\<lambda>m. (m, probe_reason co req m, probe_ms co m req)) (takeWhile (\<lambda>m. \<not> probe_ok co req m) ms))"
  by (induction ms arbitrary: acc) (simp_all add: spawn_probe_eq)

text \<open>How a race over the methods ends, in the order their results come: the first success takes the slot
  if the listener can be bound, and every outcome up to it is recorded; with no success all failures
  are recorded and the slot is left alone.\<close>

definition race_end ::
  "coord_env \<Rightarrow> NetworkFingerprint \<Rightarrow> ProbeRequest \<Rightarrow> MethodId list \<Rightarrow> VeilCoordinator \<Rightarrow>
     (CoordinatorError + unit) \<times> VeilState \<times> VeilCoordinator \<Rightarrow> bool" where
  "race_end env fp req order co res \<longleftrightarrow>
     (let lost = map (\<lambda>m. (m, Failure (probe_reason co req m))) (takeWhile (\<lambda>m. \<not> probe_ok co req m) order);
          (r, state, co') = res
      in case find (probe_ok co req) order of
           None \<Rightarrow> r = Inr () \<and> (\<exists>until. state = Cooldown until) \<and> same_session co co'
                 \<and> recorded_as env fp lost (co_scores co) (co_scores co')
         | Some w \<Rightarrow>
             (case en_bind env of
                Inl e \<Rightarrow> r = Inl (CoIo e) \<and> same_session co co' \<and> co_scores co' = co_scores co
              | Inr port \<Rightarrow> r = Inr () \<and> (\<exists>since n. state = Active w port since n)
                  \<and> recorded_as env fp ((w, Success (probe_ms co w req)) # lost) (co_scores co) (co_scores co')
                  \<and> active co' = Some \<lparr>session_id = next_session_id co + 1, session_port = port, session_method = w\<rparr>
                  \<and> told co' = told co @ (case active co of Some s \<Rightarrow> [session_id s] | None \<Rightarrow> [])
                  \<and> proxies co' = proxies co @ [(next_session_id co + 1, \<lparr>pp_method = w, pp_request = req\<rparr>)]
                  \<and> obfuscators co' = obfuscators co))"

lemma find_first: "find P xs = (case dropWhile (\<lambda>x. \<not> P x) xs of [] \<Rightarrow> None | w # _ \<Rightarrow> Some w)"
  by (induction xs) auto

lemma install_session_fields:
  "active (install_session port p co) = Some \<lparr>session_id = next_session_id co + 1, session_port = port, session_method = pp_method p\<rparr>"
  "told (install_session port p co) = told co @ (case active co of Some s \<Rightarrow> [session_id s] | None \<Rightarrow> [])"
  "proxies (install_session port p co) = proxies co @ [(next_session_id co + 1, p)]"
  "co_scores (install_session port p co) = co_scores co" "obfuscators (install_session port p co) = obfuscators co"
  by (simp_all add: install_session_def install_at_def take_and_shut_down_def Let_def split: option.splits)

lemma reduce_success:
  assumes "w \<in> set cs"
  shows "effect_records (snd (reduce (Probing cs att since) (ProbeSucceeded w port ms) L cfg now sys)) = [(w, Success ms)]"
    "fst (reduce (Probing cs att since) (ProbeSucceeded w port ms) L cfg now sys) = Active w port now 0"
  using assms by simp_all

text \<open>The winner: its success and the failures before it are recorded, then it is installed.\<close>

lemma winner_recorded:
  assumes "w \<in> set cs" and eff: "reduce_now env (Probing cs att since) (ProbeSucceeded w port ms) cache co = (new_state, es, co1)"
  shows "new_state = Active w port (en_now env (readings co)) 0"
    "same_session co (record_failures env fp fs (record_effects env fp es co1))"
    "recorded_as env fp ((w, Success ms) # map (\<lambda>(m, r, _). (m, Failure r)) fs) (co_scores co)
       (co_scores (record_failures env fp fs (record_effects env fp es co1)))"
proof -
  note r = reduce_success [OF assms(1), of att since port ms "cached_lookup cache" "co_config co"
      "en_now env (readings co)" "en_sys env (readings co)"]
  have e: "new_state = Active w port (en_now env (readings co)) 0" "effect_records es = [(w, Success ms)]"
      "co1 = co\<lparr>readings := readings co + 1\<rparr>"
    using eff r by (auto simp: reduce_now_eq)
  let ?co2 = "record_effects env fp es co1"
  have 1: "recorded_as env fp [(w, Success ms)] (co_scores co) (co_scores ?co2)" "same_session co ?co2"
    using record_effects_recorded [of env fp es co1] e(2,3) by (auto simp: same_session_def)
  note 2 = record_failures_recorded [of env fp fs ?co2]
  show "new_state = Active w port (en_now env (readings co)) 0" by (fact e(1))
  show "same_session co (record_failures env fp fs ?co2)" using 1(2) 2 same_session_trans by blast
  show "recorded_as env fp ((w, Success ms) # map (\<lambda>(m, r, _). (m, Failure r)) fs) (co_scores co)
      (co_scores (record_failures env fp fs ?co2))"
    using recorded_as_append [OF 1(1), of "map (\<lambda>(m, r, _). (m, Failure r)) fs"] 2 by simp
qed

lemma handle_all_failed_end:
  "handle_all_probes_failed env (Cooldown until) cache co = (Cooldown until, co)"
  by (simp add: handle_all_probes_failed_def)

lemma race_end_lost:
  assumes "find (probe_ok co req) order = None" "same_session co co'"
    and "recorded_as env fp (map (\<lambda>m. (m, Failure (probe_reason co req m))) order) (co_scores co) (co_scores co')"
  shows "race_end env fp req order co (Inr (), Cooldown until, co')"
proof -
  have "takeWhile (\<lambda>m. \<not> probe_ok co req m) order = order"
    using assms(1) by (simp add: find_None_iff)
  with assms show ?thesis unfolding race_end_def by (simp only: Let_def prod.case option.case) simp
qed

lemma race_end_won:
  assumes "find (probe_ok co req) order = Some w" "en_bind env = Inr port" "same_session co co'"
    and "recorded_as env fp ((w, Success (probe_ms co w req)) # map (\<lambda>m. (m, Failure (probe_reason co req m)))
      (takeWhile (\<lambda>m. \<not> probe_ok co req m) order)) (co_scores co) (co_scores co')"
  shows "race_end env fp req order co (Inr (), Active w port since n, install_session port \<lparr>pp_method = w, pp_request = req\<rparr> co')"
  using assms by (simp add: race_end_def install_session_fields same_session_def)

lemma note_failures_same [simp]:
  "same_session co (note_failures env req fs co)" "co_scores (note_failures env req fs co) = co_scores co"
  by (induction env req fs co rule: note_failures.induct) (simp_all add: same_session_def)

lemma parallel_race:
  assumes "cs \<noteq> []" "distinct cs" "mset (en_order env cs) = mset cs"
  shows "race_end env fp req (en_order env cs) co (run_parallel_probes env cs fp req (Probing cs att since) cache co)"
proof -
  let ?o = "en_order env cs"
  define lost where "lost = takeWhile (\<lambda>m. \<not> probe_ok co req m) ?o"
  define fs where "fs = map (\<lambda>m. (m, probe_reason co req m, probe_ms co m req)) lost"
  have so: "set ?o = set cs" "distinct ?o"
    using assms(2,3) mset_eq_setD mset_eq_imp_distinct_iff by blast+
  have fails: "map (\<lambda>(m, r, _). (m, Failure r)) fs = map (\<lambda>m. (m, Failure (probe_reason co req m))) lost"
    by (simp add: fs_def)
  have c: "collect_results (map (spawn_probe co req) ?o) [] =
      (map_option (\<lambda>w. (w, probe_ms co w req)) (find (probe_ok co req) ?o), fs)"
    by (cases "dropWhile (\<lambda>m. \<not> probe_ok co req m) ?o")
      (simp_all only: collect_results_eq find_first fs_def lost_def list.case option.map append_Nil)
  define co0 where "co0 = note_failures env req fs co"
  have co0: "same_session co co0" "co_scores co0 = co_scores co" unfolding co0_def by (simp_all add: note_failures_same)
  show ?thesis
  proof (cases "find (probe_ok co req) ?o")
    case None
    then have l: "lost = ?o" by (simp add: lost_def find_None_iff)
    have "distinct (map fst fs)" "set (map fst fs) = set cs" using so by (simp_all add: fs_def l comp_def)
    from fail_each_ends [OF this assms(1), of env fp cache att since co0] obtain until co'
      where f: "fail_each env fp cache fs (Probing cs att since) co0 = (Cooldown until, co')" "same_session co0 co'"
        "recorded_as env fp (map (\<lambda>m. (m, Failure (probe_reason co req m))) ?o) (co_scores co) (co_scores co')"
      unfolding fails l co0(2) by blast
    have "run_parallel_probes env cs fp req (Probing cs att since) cache co = (Inr (), Cooldown until, co')"
      using assms(1) None by (simp add: run_parallel_probes_def c co0_def [symmetric] f(1) handle_all_failed_end)
    then show ?thesis using race_end_lost [OF None same_session_trans [OF co0(1) f(2)] f(3)] by simp
  next
    case (Some w)
    then have w: "w \<in> set cs" using so(1) by (metis find_Some_iff nth_mem)
    show ?thesis
    proof (cases "en_bind env")
      case (Inl e)
      then show ?thesis using assms(1) Some co0 by (simp add: run_parallel_probes_def c race_end_def co0_def [symmetric])
    next
      case (Inr port)
      obtain new_state es co1 where r: "reduce_now env (Probing cs att since)
          (ProbeSucceeded w port (probe_ms co w req)) cache co0 = (new_state, es, co1)"
        by (metis prod_cases3)
      note win = winner_recorded(1) [OF w r] winner_recorded(2,3) [OF w r, of fp fs, unfolded fails co0(2)]
      have "run_parallel_probes env cs fp req (Probing cs att since) cache co =
          (Inr (), new_state, install_session port \<lparr>pp_method = w, pp_request = req\<rparr>
             (record_failures env fp fs (record_effects env fp es co1)))"
        using assms(1) Some Inr by (simp add: run_parallel_probes_def c co0_def [symmetric] r)
      then show ?thesis
        using race_end_won [OF Some Inr same_session_trans [OF co0(1) win(2)] win(3) [unfolded lost_def]] win(1) by simp
    qed
  qed
qed

lemma sequential_race:
  "race_end env fp req [m] co (run_sequential_probes env [m] fp req (Probing [m] att since) cache co)"
proof (cases "execute_probe_with_params co m req")
  case (Inl reason)
  then have n: "find (probe_ok co req) [m] = None" "probe_reason co req m = reason"
    by (simp_all add: probe_ok_def probe_reason_def)
  obtain state co' where h: "handle_probe_failure env m reason fp (Probing [m] att since) cache co = (state, co')"
    "same_session co co'" "recorded_as env fp [(m, Failure reason)] (co_scores co) (co_scores co')"
    "\<exists>until. state = Cooldown until"
    using handle_probe_failure_step [of m "[m]" env reason fp att since cache co] by (auto simp: Let_def)
  then show ?thesis
    using race_end_lost [OF n(1) h(2)] Inl by (auto simp: n(2) handle_all_failed_end)
next
  case (Inr u)
  then have s: "find (probe_ok co req) [m] = Some m" "takeWhile (\<lambda>m. \<not> probe_ok co req m) [m] = []"
    by (simp_all add: probe_ok_def)
  show ?thesis
  proof (cases "en_bind env")
    case (Inl e)
    then show ?thesis using Inr s by (simp add: handle_probe_success_def race_end_def)
  next
    case bound: (Inr port)
    obtain new_state es co1 where r: "reduce_now env (Probing [m] att since)
        (ProbeSucceeded m port (probe_ms co m req)) cache co = (new_state, es, co1)"
      by (metis prod_cases3)
    note win = winner_recorded(1) [OF _ r] winner_recorded(2,3) [OF _ r, of fp "[]"]
    have "recorded_as env fp ((m, Success (probe_ms co m req)) # map (\<lambda>m. (m, Failure (probe_reason co req m)))
        (takeWhile (\<lambda>m. \<not> probe_ok co req m) [m])) (co_scores co) (co_scores (record_effects env fp es co1))"
      unfolding s(2) using win(3) by simp
    then show ?thesis
      using race_end_won [OF s(1) bound] win(1,2) Inr bound by (simp add: handle_probe_success_def r)
  qed
qed

section \<open>A cycle from the start\<close>

lemma contains_registered:
  "contains (registered_methods co allowed) m \<longleftrightarrow> contains allowed m \<and> obfuscators co m \<noteq> None"
proof -
  have b: "bit (foldl (\<lambda>bits m. if obfuscators co m = None then bits OR method_bit m else bits) w ms) (discriminant m)
      \<longleftrightarrow> bit w (discriminant m) \<or> m \<in> set ms \<and> obfuscators co m = None" for w :: u32 and ms
  proof (induction ms arbitrary: w)
    case (Cons x ms)
    have "bit (w OR method_bit x) (discriminant m) \<longleftrightarrow> bit w (discriminant m) \<or> m = x"
      by (auto simp: bit_or_iff bit_method_bit)
    then show ?case unfolding foldl.simps Cons.IH by auto
  qed simp
  have "m \<in> set methods_all" by (cases m) (simp_all add: methods_all_def)
  then show ?thesis by (simp add: registered_methods_def contains_iff_bit from_bitmask_def b)
qed

lemma registered_empty:
  "iter_allowed (registered_methods co allowed) = [] \<longleftrightarrow> (\<forall>m. contains allowed m \<longrightarrow> obfuscators co m = None)"
proof -
  have "iter_allowed (registered_methods co allowed) = [] \<longleftrightarrow> (\<forall>m. \<not> contains (registered_methods co allowed) m)"
    using UNIV_MethodId by (auto simp: iter_allowed_def filter_empty_conv)
  then show ?thesis by (simp add: contains_registered)
qed

lemma select_nonempty: "iter_allowed allowed \<noteq> [] \<Longrightarrow> select_probe_candidates fp allowed scores cfg now \<noteq> []"
  by (auto simp: select_probe_candidates_def Let_def split: list.splits)

text \<open>Building the lookup never panics on a sound store, with or without faults of the database.\<close>

lemma cached_build_total:
  assumes "store_ok st"
  shows "\<exists>built st'. cached_build hs fp st = (Done built, st') \<and> pool st' = pool st"
proof -
  let ?rows = "filter (\<lambda>r. r_fingerprint r = hash_fp hs st (as_bytes fp)) (pool st)"
  have k: "keys_ok (pool st)" and ok: "\<forall>r\<in>set (pool st). row_ok r" using assms by (auto simp: store_ok_def)
  obtain es where "collect_rows ?rows = Done es" using collect_rows_ok [of ?rows] methods_distinct [OF k] ok by auto
  moreover obtain ok st' where q: "db_query st = (ok, st')" by fastforce
  moreover note db_query_simps(1) [OF q]
  ultimately show ?thesis
    by (cases ok) (auto simp: cached_build_def get_all_for_fingerprint_def exec_bind_def hash_fp_def)
qed

lemma race_effect:
  assumes "cs \<noteq> []" "distinct cs" "\<forall>ms. mset (en_order env ms) = mset ms"
  shows "race_end env fp req (en_order env cs) co
    (execute_effects env [StartProbes cs relay] fp req cache (Probing cs att since) co)"
proof -
  have e: "execute_effects env [eff] fp req cache state co = execute_effect_with_params env eff fp req cache state co"
    for eff state
    by (auto split: prod.splits sum.splits)
  show ?thesis
  proof (cases "length cs = 1")
    case True
    then obtain m where m: "cs = [m]" by (auto simp: length_Suc_conv)
    then have "en_order env cs = [m]" using assms(3) [rule_format, of cs] by simp
    then show ?thesis using sequential_race m by (simp only: e) (simp add: execute_effect_with_params_def del: run_sequential_probes.simps)
  next
    case False
    then show ?thesis
      using parallel_race [OF assms(1,2)] assms(3) by (simp only: e) (simp add: execute_effect_with_params_def)
  qed
qed

lemma start_races:
  assumes "store_ok (co_scores co)" "\<forall>ms. mset (en_order env ms) = mset ms"
    and some: "iter_allowed (registered_methods co allowed) \<noteq> []"
  shows "\<exists>order r state co'. order \<noteq> [] \<and> distinct order \<and> length order \<le> max 1 (top_k_probes (co_config co))
    \<and> (\<forall>m\<in>set order. contains allowed m \<and> obfuscators co m \<noteq> None)
    \<and> race_end env fp req order
        (co\<lparr>co_scores := snd (cached_build (en_hashes env) fp (co_scores co)), readings := readings co + 1\<rparr>) (r, state, co')
    \<and> start_session_with_params env fp allowed req co = session_result env (r, state, co')"
proof -
  let ?a = "registered_methods co allowed"
  obtain built st where b: "cached_build (en_hashes env) fp (co_scores co) = (Done built, st)"
    using cached_build_total [OF assms(1)] by blast
  define cache where "cache = (case built of Inr c \<Rightarrow> c | Inl _ \<Rightarrow> cached_empty fp)"
  let ?now = "en_now env (readings co)" let ?sys = "en_sys env (readings co)"
  define cs where "cs = select_probe_candidates fp ?a (cached_lookup cache) (co_config co) ?sys"
  have cs: "cs \<noteq> []" "distinct cs" "length cs \<le> max 1 (top_k_probes (co_config co))"
    "\<And>m. m \<in> set cs \<Longrightarrow> contains allowed m \<and> obfuscators co m \<noteq> None"
    using select_nonempty [OF some] select_sound(2,3) select_sound(1) [of _ fp ?a]
    unfolding cs_def contains_registered [symmetric] by blast+
  define co1 where "co1 = co\<lparr>co_scores := st, readings := readings co + 1\<rparr>"
  define att where "att = map_of (map (\<lambda>m. (m, ProbeAttempt ?now)) cs)"
  obtain r state co' where e: "execute_effects env [StartProbes cs (relay_addr req)] fp req cache (Probing cs att ?now) co1 =
      (r, state, co')"
    by (metis prod_cases3)
  have race: "race_end env fp req (en_order env cs) co1 (r, state, co')"
    using race_effect [OF cs(1,2) assms(2)] e by metis
  have start: "start_session_with_params env fp allowed req co = session_result env (r, state, co')"
    using some cs(1) unfolding e [symmetric] co1_def att_def cs_def cache_def
    by (simp add: start_session_with_params_def b reduce_now_def exec_bind_def Let_def)
  have m: "mset (en_order env cs) = mset cs" using assms(2) by blast
  then have "en_order env cs \<noteq> []" "distinct (en_order env cs)"
    using cs(1,2) mset_eq_imp_distinct_iff [OF m] by auto
  then show ?thesis
    using race start cs(3,4) mset_eq_length [OF m] mset_eq_setD [OF m]
    by (intro exI [of _ "en_order env cs"] exI [of _ r] exI [of _ state] exI [of _ co'])
      (simp add: b co1_def)
qed


definition demo_coord_env :: coord_env where
  "demo_coord_env = \<lparr>en_hashes = demo_hashes, en_sqlite = demo_sqlite, en_now = (\<lambda>n. n), en_sys = int, en_bind = Inr 4242,
     en_order = rev, en_elapsed = 90, en_debug = (\<lambda>_. ''error'')\<rparr>"

definition demo_request :: ProbeRequest where
  "demo_request = \<lparr>relay_addr = ''relay:443'', tls_sni = [], req_spki_hex = [], veil_front_ticket_b64 = [],
     auth_v3 = auth_v3_default\<rparr>"

definition demo_coordinator :: VeilCoordinator where
  "demo_coordinator = register VeilFront (\<lambda>_. FirstByte (Inr ()) 12) (coordinator_new config_default demo_store)"


text \<open>What every start attempt keeps.\<close>

lemma recorded_as_store_ok: "recorded_as env fp recs st st' \<Longrightarrow> store_ok st \<Longrightarrow> store_ok st'"
proof -
  have "store_ok (foldl (\<lambda>sc ((m, outcome), t). snd (record_outcome (en_hashes env) (en_sqlite env) t fp m outcome sc)) st xs)"
    if "store_ok st" for xs and st
    using that
  proof (induction xs arbitrary: st)
    case (Cons x xs)
    obtain m outcome t where x: "x = ((m, outcome), t)" by (metis prod.exhaust)
    obtain r sc where "record_outcome (en_hashes env) (en_sqlite env) t fp m outcome st = (r, sc)" by fastforce
    with record_outcome_inv [OF Cons.prems this] Cons.IH show ?case by (simp add: x)
  qed simp
  then show "recorded_as env fp recs st st' \<Longrightarrow> store_ok st \<Longrightarrow> store_ok st'" unfolding recorded_as_def by blast
qed

lemma start_session_keeps:
  assumes "store_ok (co_scores co)" "\<forall>ms. mset (en_order env ms) = mset ms"
  shows "\<exists>r co'. start_session_with_params env fp allowed req co = Done (r, co') \<and> store_ok (co_scores co')
    \<and> obfuscators co' = obfuscators co \<and> set (told co) \<subseteq> set (told co')
    \<and> (case r of
         Inr s \<Rightarrow> obfuscators co (sr_method s) \<noteq> None \<and> is_alive co' \<and> active_port co' = sr_port s
       | Inl e \<Rightarrow> active co' = active co)"
proof (cases "iter_allowed (registered_methods co allowed) = []")
  case True
  then show ?thesis using assms(1) by (simp add: start_session_with_params_def)
next
  case False
  define st where "st = snd (cached_build (en_hashes env) fp (co_scores co))"
  let ?co1 = "co\<lparr>co_scores := st, readings := readings co + 1\<rparr>"
  have st: "store_ok st" using cached_build_total [OF assms(1), of "en_hashes env" fp] assms(1) by (auto simp: st_def store_ok_def)
  obtain order r state co' where o: "\<forall>m\<in>set order. contains allowed m \<and> obfuscators co m \<noteq> None"
    and race: "race_end env fp req order ?co1 (r, state, co')"
    and start: "start_session_with_params env fp allowed req co = session_result env (r, state, co')"
    using start_races [OF assms False] unfolding st_def by blast
  show ?thesis
  proof (cases "find (probe_ok ?co1 req) order")
    case None
    then show ?thesis using race start st recorded_as_store_ok by (fastforce simp: race_end_def same_session_def session_result_def)
  next
    case (Some w)
    then have w: "obfuscators co w \<noteq> None" using o by (metis find_Some_iff nth_mem)
    show ?thesis
    proof (cases "en_bind env")
      case (Inl er)
      then show ?thesis using Some race start st by (fastforce simp: race_end_def same_session_def session_result_def)
    next
      case (Inr port)
      from race Some Inr have "store_ok (co_scores co')" using st recorded_as_store_ok by (fastforce simp: race_end_def)
      with race Some Inr start w show ?thesis by (auto simp: race_end_def is_alive_def active_port_def session_result_def)
    qed
  qed
qed

section \<open>The slot under concurrency\<close>

text \<open>Start attempts and stops run concurrently, and so do the proxy tasks.  What they do to the slot is one
  step each, because the slot's mutex is held for it: an attempt first takes the next session id,
  later swaps its session into the slot and starts its proxy; a stop empties the slot; a proxy loop
  ends, told or by a fatal accept error, and later clears the slot if it still holds its session.\<close>

record slot_world =
  sw_co :: VeilCoordinator
  allocated :: "u64 set"
  ended :: "u64 set"
  gone :: "u64 set"

definition proxy_ids :: "VeilCoordinator \<Rightarrow> u64 list" where
  "proxy_ids co = map fst (proxies co)"

inductive slot_step :: "slot_world \<Rightarrow> slot_world \<Rightarrow> bool" where
  alloc: "unat (next_session_id (sw_co w)) + 1 < 2 ^ 64 \<Longrightarrow>
    slot_step w (w\<lparr>sw_co := (sw_co w)\<lparr>next_session_id := next_session_id (sw_co w) + 1\<rparr>,
      allocated := insert (next_session_id (sw_co w) + 1) (allocated w)\<rparr>)"
| install: "i \<in> allocated w \<Longrightarrow>
    slot_step w (w\<lparr>sw_co := install_at i port params (sw_co w), allocated := allocated w - {i}\<rparr>)"
| stopping: "slot_step w (w\<lparr>sw_co := snd (stop (sw_co w))\<rparr>)"
| loop_ends: "i \<in> set (proxy_ids (sw_co w)) \<Longrightarrow> slot_step w (w\<lparr>ended := insert i (ended w)\<rparr>)"
| clear: "i \<in> ended w \<Longrightarrow> slot_step w (w\<lparr>sw_co := proxy_exit i (sw_co w), gone := insert i (gone w)\<rparr>)"

inductive_cases slot_stepE: "slot_step w w'"

text \<open>Installing a session in one go is taking the id and then the slot.\<close>

lemma install_session_steps:
  assumes "unat (next_session_id (sw_co w)) + 1 < 2 ^ 64" "next_session_id (sw_co w) + 1 \<notin> allocated w"
  shows "slot_step\<^sup>*\<^sup>* w (w\<lparr>sw_co := install_session port params (sw_co w)\<rparr>)"
proof -
  let ?i = "next_session_id (sw_co w) + 1"
  let ?w1 = "w\<lparr>sw_co := (sw_co w)\<lparr>next_session_id := ?i\<rparr>, allocated := insert ?i (allocated w)\<rparr>"
  have "slot_step w ?w1" by (rule alloc) (fact assms(1))
  moreover have "slot_step ?w1 (?w1\<lparr>sw_co := install_at ?i port params (sw_co ?w1), allocated := allocated ?w1 - {?i}\<rparr>)"
    by (rule install) simp
  moreover have "?w1\<lparr>sw_co := install_at ?i port params (sw_co ?w1), allocated := allocated ?w1 - {?i}\<rparr> =
      w\<lparr>sw_co := install_session port params (sw_co w)\<rparr>"
    using assms(2) by (simp add: install_session_def Let_def)
  ultimately show ?thesis by (metis rtranclp.simps)
qed

text \<open>Ids are used once; the slot holds a session that was never told to shut down and whose proxy has not
  left; and every proxy is in the slot, or was told, or has ended by itself.\<close>

definition slot_inv :: "slot_world \<Rightarrow> bool" where
  "slot_inv w \<longleftrightarrow>
     (let co = sw_co w; ids = proxy_ids co in
      distinct ids \<and> allocated w \<inter> set ids = {}
      \<and> (\<forall>i\<in>allocated w \<union> set ids. i \<le> next_session_id co)
      \<and> set (told co) \<union> gone w \<subseteq> set ids \<and> gone w \<subseteq> ended w \<and> ended w \<subseteq> set ids \<and> distinct (told co)
      \<and> (\<forall>s. active co = Some s \<longrightarrow> session_id s \<in> set ids \<and> session_id s \<notin> set (told co) \<union> gone w)
      \<and> (\<forall>i\<in>set ids. (\<exists>s. active co = Some s \<and> session_id s = i) \<or> i \<in> set (told co) \<or> i \<in> gone w))"


text \<open>What each operation does to the parts of the slot the invariant speaks of.\<close>

lemma take_and_shut_down_fields:
  "active (take_and_shut_down co) = None" "proxies (take_and_shut_down co) = proxies co"
  "next_session_id (take_and_shut_down co) = next_session_id co"
  "told (take_and_shut_down co) = told co @ (case active co of Some s \<Rightarrow> [session_id s] | None \<Rightarrow> [])"
  by (simp_all add: take_and_shut_down_def split: option.splits)

lemma install_at_fields:
  "active (install_at i port p co) = Some \<lparr>session_id = i, session_port = port, session_method = pp_method p\<rparr>"
  "proxy_ids (install_at i port p co) = proxy_ids co @ [i]"
  "next_session_id (install_at i port p co) = next_session_id co"
  "told (install_at i port p co) = told co @ (case active co of Some s \<Rightarrow> [session_id s] | None \<Rightarrow> [])"
  by (simp_all add: install_at_def proxy_ids_def take_and_shut_down_fields Let_def)

lemma proxy_exit_fields:
  "active (proxy_exit i co) = (case active co of Some s \<Rightarrow> if session_id s = i then None else Some s | None \<Rightarrow> None)"
  "proxies (proxy_exit i co) = proxies co" "next_session_id (proxy_exit i co) = next_session_id co"
  "told (proxy_exit i co) = told co"
  by (simp_all add: proxy_exit_def split: option.splits)

lemma fresh_id:
  fixes n :: u64
  assumes "unat n + 1 < 2 ^ 64"
  shows "i \<le> n \<Longrightarrow> i \<le> n + 1" "i \<le> n \<Longrightarrow> i \<noteq> n + 1"
proof -
  have "unat (n + 1) = unat n + 1" using assms by (simp add: unat_word_ariths)
  then show "i \<le> n \<Longrightarrow> i \<le> n + 1" "i \<le> n \<Longrightarrow> i \<noteq> n + 1" by (auto simp: word_le_nat_alt)
qed

lemma slot_inv_alloc:
  assumes "slot_inv w" "unat (next_session_id (sw_co w)) + 1 < 2 ^ 64"
  shows "slot_inv (w\<lparr>sw_co := (sw_co w)\<lparr>next_session_id := next_session_id (sw_co w) + 1\<rparr>,
    allocated := insert (next_session_id (sw_co w) + 1) (allocated w)\<rparr>)"
proof -
  note f = fresh_id [OF assms(2)]
  have "proxy_ids ((sw_co w)\<lparr>next_session_id := n\<rparr>) = proxy_ids (sw_co w)" for n by (simp add: proxy_ids_def)
  with assms(1) f show ?thesis unfolding slot_inv_def Let_def by (auto dest: f)
qed

lemma slot_inv_install:
  assumes "slot_inv w" "i \<in> allocated w"
  shows "slot_inv (w\<lparr>sw_co := install_at i port params (sw_co w), allocated := allocated w - {i}\<rparr>)"
  using assms unfolding slot_inv_def Let_def
  by (cases "active (sw_co w)") (auto simp: install_at_fields)

lemma slot_inv_stop: "slot_inv w \<Longrightarrow> slot_inv (w\<lparr>sw_co := snd (stop (sw_co w))\<rparr>)"
  unfolding slot_inv_def Let_def
  by (cases "active (sw_co w)") (auto simp: stop_def take_and_shut_down_fields proxy_ids_def)

lemma slot_inv_clear:
  assumes "slot_inv w" "i \<in> ended w"
  shows "slot_inv (w\<lparr>sw_co := proxy_exit i (sw_co w), gone := insert i (gone w)\<rparr>)"
  using assms unfolding slot_inv_def Let_def
  by (cases "active (sw_co w)") (auto simp: proxy_exit_fields proxy_ids_def split: if_splits)

lemma slot_inv_step: "slot_step w w' \<Longrightarrow> slot_inv w \<Longrightarrow> slot_inv w'"
proof (induction rule: slot_step.induct)
  case (loop_ends i w)
  then show ?case by (simp add: slot_inv_def Let_def) blast
qed (simp_all add: slot_inv_alloc slot_inv_install slot_inv_stop slot_inv_clear)

definition slot_start :: "VeilConfig \<Rightarrow> PersistentScores \<Rightarrow> slot_world" where
  "slot_start cfg sc = \<lparr>sw_co = coordinator_new cfg sc, allocated = {}, ended = {}, gone = {}\<rparr>"

lemma slot_reachable_inv: "slot_step\<^sup>*\<^sup>* (slot_start cfg sc) w \<Longrightarrow> slot_inv w"
proof (induction rule: rtranclp_induct)
  case base
  show ?case by (simp add: slot_inv_def slot_start_def coordinator_new_def proxy_ids_def)
next
  case (step w w')
  then show ?case by (metis slot_inv_step)
qed

text \<open>(C5) However starts, stops and ending proxies interleave, no proxy is ever lost: one that serves and was
  not told to shut down is the one in the slot, so at most one such proxy exists and a stop reaches
  it; after a stop no session is reported and every proxy was told to shut down or has ended; and no
  session is told twice.\<close>

theorem session_slot_sound:
  assumes "slot_step\<^sup>*\<^sup>* (slot_start cfg sc) w"
  shows "(\<forall>i\<in>set (proxy_ids (sw_co w)). i \<notin> set (told (sw_co w)) \<and> i \<notin> ended w \<longrightarrow>
       is_alive (sw_co w) \<and> session_id (the (active (sw_co w))) = i)
    \<and> distinct (told (sw_co w))
    \<and> \<not> is_alive (snd (stop (sw_co w)))
    \<and> (\<forall>i\<in>set (proxy_ids (sw_co w)). i \<in> set (told (snd (stop (sw_co w)))) \<or> i \<in> ended w)"
proof -
  have inv: "slot_inv w" using slot_reachable_inv [OF assms] .
  then show ?thesis unfolding slot_inv_def Let_def
    by (cases "active (sw_co w)") (auto simp: stop_def take_and_shut_down_fields is_alive_def)
qed


theorem session_slot_sound_witness:
  "(let co = install_session 4242 \<lparr>pp_method = VeilFront, pp_request = demo_request\<rparr> (coordinator_new config_default demo_store)
    in 1 \<in> set (told (snd (stop co))) \<and> \<not> is_alive (snd (stop co)))"
proof -
  let ?p = "\<lparr>pp_method = VeilFront, pp_request = demo_request\<rparr>"
  let ?w = "slot_start config_default demo_store"
  have "slot_step\<^sup>*\<^sup>* ?w (?w\<lparr>sw_co := install_session 4242 ?p (sw_co ?w)\<rparr>)"
    by (rule install_session_steps) (simp_all add: slot_start_def coordinator_new_def)
  from session_slot_sound [OF this] show ?thesis
    by (simp add: slot_start_def proxy_ids_def install_session_fields coordinator_new_def)
qed

section \<open>The accept loop\<close>

definition fatal :: "bool \<Rightarrow> 'conn proxy_event \<Rightarrow> bool" where
  "fatal linux ev \<longleftrightarrow> (case ev of
     ShutdownSignal \<Rightarrow> True
   | Accepted _ \<Rightarrow> False
   | AcceptFails kind raw \<Rightarrow> accept_retry_delay linux kind raw = None)"

text \<open>The loop serves every connection up to the shutdown signal or the first error that means the listener
  is gone, and ends exactly there; running out of descriptors or memory pauses it for 100 ms each
  time and no other error pauses it.\<close>

lemma proxy_loop_serves:
  "run_proxy_loop linux evs =
     (List.map_filter (\<lambda>ev. case ev of Accepted c \<Rightarrow> Some c | _ \<Rightarrow> None) (takeWhile (\<lambda>ev. \<not> fatal linux ev) evs),
      List.map_filter (\<lambda>ev. case ev of
          AcceptFails kind raw \<Rightarrow> (if accept_retry_delay linux kind raw = Some 0 then None else accept_retry_delay linux kind raw)
        | _ \<Rightarrow> None) (takeWhile (\<lambda>ev. \<not> fatal linux ev) evs),
      list_ex (fatal linux) evs)"
proof (induction linux evs rule: run_proxy_loop.induct)
  case (4 linux kind raw evs)
  then show ?case by (cases "accept_retry_delay linux kind raw") (auto simp: fatal_def List.map_filter_simps)
qed (simp_all add: fatal_def List.map_filter_simps)

lemma accept_retry_delays: "accept_retry_delay linux kind raw = Some d \<Longrightarrow> d = 0 \<or> d = from_millis 100"
  by (auto simp: accept_retry_delay_def split: if_splits)


section \<open>The failure text\<close>

text \<open>The path for a single method leaves the failure text alone.\<close>

lemma sink_simps [simp]:
  "sink (record_score env fp m outcome co) = sink co" "sink (take_and_shut_down co) = sink co"
  "sink (install_session port p co) = sink co"
  by (simp_all add: record_score_def take_and_shut_down_def install_session_def install_at_def Let_def case_prod_beta
      split: option.splits)

lemma record_effects_sink [simp]: "sink (record_effects env fp es co) = sink co"
  by (induction env fp es co rule: record_effects.induct) simp_all

lemma handle_sink:
  "sink (snd (handle_probe_failure env m reason fp state cache co)) = sink co"
  "sink (snd (handle_all_probes_failed env state cache co)) = sink co"
  "sink (snd (snd (handle_probe_success env m ms fp req state cache co))) = sink co"
  by (simp_all add: handle_probe_failure_def handle_all_probes_failed_def handle_probe_success_def reduce_now_eq
      split: VeilState.splits sum.splits)

lemma sequential_sink: "sink (snd (snd (run_sequential_probes env ms fp req state cache co))) = sink co"
proof (induction ms arbitrary: state co)
  case Nil
  show ?case using handle_sink(2) [of env state cache co] by (simp add: case_prod_beta)
next
  case (Cons m ms)
  show ?case
  proof (cases "execute_probe_with_params co m req")
    case (Inl reason)
    obtain st co1 where h: "handle_probe_failure env m reason fp state cache co = (st, co1)" by fastforce
    then have "sink co1 = sink co" using handle_sink(1) [of env m reason fp state cache co] by simp
    then show ?thesis using Cons.IH [of st co1] handle_sink(2) [of env st cache co1] Inl h
      by (auto simp: case_prod_beta split: VeilState.splits)
  next
    case (Inr u)
    then show ?thesis using handle_sink(3) by simp
  qed
qed

lemma start_keeps_sink:
  assumes one: "\<And>m. contains allowed m \<Longrightarrow> obfuscators co m \<noteq> None \<Longrightarrow> m = M"
    and start: "start_session_with_params env fp allowed req co = Done (r, co')"
  shows "sink co' = sink co"
proof (cases "iter_allowed (registered_methods co allowed) = []")
  case True
  then show ?thesis using start by (simp add: start_session_with_params_def)
next
  case False
  let ?a = "registered_methods co allowed"
  obtain built st where b: "cached_build (en_hashes env) fp (co_scores co) = (built, st)" by fastforce
  with False start obtain c where c: "built = Done c"
    by (cases built) (auto simp: start_session_with_params_def)
  define cache where "cache = (case c of Inr c \<Rightarrow> c | Inl _ \<Rightarrow> cached_empty fp)"
  define cs where "cs = select_probe_candidates fp ?a (cached_lookup cache) (co_config co) (en_sys env (readings co))"
  have "cs \<noteq> []" "distinct cs" "set cs \<subseteq> {M}"
    using select_nonempty [OF False] select_sound(2) select_sound(1) [of _ fp ?a] one
    unfolding cs_def contains_registered by blast+
  then have m: "cs = [M]" by (cases cs; cases "tl cs") auto
  define co1 where "co1 = co\<lparr>co_scores := st, readings := readings co + 1\<rparr>"
  obtain r1 s1 co2 where e: "run_sequential_probes env [M] fp req (Probing [M] [M \<mapsto> ProbeAttempt (en_now env (readings co))]
      (en_now env (readings co))) cache co1 = (r1, s1, co2)"
    by (metis prod_cases3)
  have "co' = co2"
    using start False e m unfolding cs_def cache_def co1_def
    by (simp add: start_session_with_params_def session_result_def b c reduce_now_def exec_bind_def Let_def
        execute_effect_with_params_def del: run_sequential_probes.simps split: sum.splits VeilState.splits)
  moreover have "sink co2 = sink co1" using sequential_sink [of env "[M]" fp req _ cache co1] e by (metis snd_conv)
  ultimately show ?thesis by (simp add: co1_def)
qed

end
