(* ===== verification/Ffi.thy ===== *)
theory Ffi
  imports Coordinator
begin

text \<open>The functions the mobile apps call (\<^verbatim>\<open>src/src/ffi.rs\<close>) and the process-wide failure text
  (\<^verbatim>\<open>src/src/veil/diag.rs\<close>).

  A C string is absent (NULL) or the bytes before its terminating zero; a pointer with a length is
  absent or the bytes it points to.  Reading beyond what a pointer promises is outside the model, as
  it is outside the contract of the functions.  The runtime and the mutex around a start are not
  modelled: the mutex makes starts follow one another.  The failure text is one variable; the
  coordinator works on it through its own field while it runs a cycle.\<close>

section \<open>Texts from C\<close>

type_synonym c_string = "bytes option"

definition utf8_text :: "bytes \<Rightarrow> string" where
  "utf8_text b = map (\<lambda>x. char_of (unat x)) b"

definition to_str :: "c_string \<Rightarrow> string option" where
  "to_str p = Option.bind p (\<lambda>b. if utf8_valid b then Some (utf8_text b) else None)"

definition to_str_or_empty :: "c_string \<Rightarrow> string" where
  "to_str_or_empty p = (case to_str p of Some s \<Rightarrow> s | None \<Rightarrow> [])"

section \<open>Requests and results\<close>

record VeilStartRequest =
  rq_relay_addr :: c_string
  rq_bundle :: c_string
  rq_tls_sni :: c_string
  rq_spki_hex :: c_string
  rq_host_header :: c_string
  rq_wt_base_path :: c_string
  rq_network_fingerprint :: "bytes option"
  rq_allowed_methods :: u32
  rq_scores_path :: c_string
  rq_veil_front_ticket_b64 :: c_string
  rq_veil_capability_v2_b64 :: c_string
  rq_veil_sk_hex :: c_string
  rq_scoring_key :: "bytes option"

record VeilStartResult =
  vs_port :: u16
  vs_method :: byte
  vs_latency_ms :: u32

record StartArgs =
  sa_request :: ProbeRequest
  sa_fingerprint :: NetworkFingerprint
  sa_allowed_methods :: MethodSet
  sa_scoring_key :: "bytes option"

definition read_start_request :: "VeilStartRequest \<Rightarrow> string + StartArgs" where
  "read_start_request req =
     (case to_str (rq_relay_addr req) of
        None \<Rightarrow> Inl ''relay_addr is NULL or not UTF-8''
      | Some addr \<Rightarrow>
          (case to_str (rq_spki_hex req) of
             None \<Rightarrow> Inl ''spki_hex is NULL or not UTF-8''
           | Some spki \<Rightarrow>
               (case parse_spki_pin spki of
                  Inl e \<Rightarrow> Inl e
                | Inr _ \<Rightarrow>
                    Inr \<lparr>sa_request = \<lparr>relay_addr = addr, tls_sni = to_str_or_empty (rq_tls_sni req), req_spki_hex = spki,
                           veil_front_ticket_b64 = to_str_or_empty (rq_veil_front_ticket_b64 req),
                           auth_v3 = \<lparr>auth_capability_v2_b64 = to_str_or_empty (rq_veil_capability_v2_b64 req),
                                      veil_sk_hex = to_str_or_empty (rq_veil_sk_hex req)\<rparr>\<rparr>,
                         sa_fingerprint = (case rq_network_fingerprint req of
                             Some b \<Rightarrow> if b \<noteq> [] then NetworkFingerprint b else fingerprint_default
                           | None \<Rightarrow> fingerprint_default),
                         sa_allowed_methods = from_bitmask (rq_allowed_methods req),
                         sa_scoring_key = (case rq_scoring_key req of
                             Some k \<Rightarrow> if length k = 32 then Some k else None
                           | None \<Rightarrow> None)\<rparr>)))"

section \<open>Process-wide state\<close>

record ffi_state =
  ff_coordinator :: "VeilCoordinator option"
  ff_error :: string

definition diag_record :: "string \<Rightarrow> ffi_state \<Rightarrow> ffi_state" where
  "diag_record s st = st\<lparr>ff_error := s\<rparr>"

definition diag_clear :: "ffi_state \<Rightarrow> ffi_state" where
  "diag_clear st = st\<lparr>ff_error := []\<rparr>"

definition diag_last :: "ffi_state \<Rightarrow> string" where
  "diag_last st = ff_error st"

text \<open>A panic becomes the fallback value; the state is what the body had reached.\<close>

definition ffi_guard :: "'a \<Rightarrow> 'a exec \<times> ffi_state \<Rightarrow> 'a \<times> ffi_state" where
  "ffi_guard fallback body =
     (case body of
        (Done v, st) \<Rightarrow> (v, st)
      | (Panic, st) \<Rightarrow> (fallback, diag_record ''internal error (panic)'' st))"

section \<open>The veil-front method\<close>

text \<open>What the network gives the probe of a request, whether the probe ends within its time limit, and how
  long it takes.\<close>

record probe_net =
  pn_env :: client_env
  pn_dial :: "ProbeRequest \<Rightarrow> client_dial"
  pn_reads :: "ProbeRequest \<Rightarrow> gate_read list"
  pn_in_time :: bool
  pn_ms :: u32

definition veil_front_obfuscator :: "probe_net \<Rightarrow> obfuscator" where
  "veil_front_obfuscator n req =
     (case probe_veil_front (pn_env n) (pn_dial n req) (pn_reads n req) req of
        Done (r, _) \<Rightarrow> if pn_in_time n then FirstByte (first_byte False r) (pn_ms n) else NoFirstByte (pn_ms n)
      | Panic \<Rightarrow> NoFirstByte (pn_ms n))"

section \<open>Starting\<close>

record ffi_env =
  fe_coord :: coord_env
  fe_net :: probe_net
  fe_file :: "string \<Rightarrow> bytes option"
  fe_removed :: bool
  fe_io_text :: "io_error \<Rightarrow> string"

fun scoring_error_text :: "ScoringError \<Rightarrow> string" where
  "scoring_error_text (DbError e) = ''database error: '' @ e"

fun coordinator_error_text :: "(io_error \<Rightarrow> string) \<Rightarrow> CoordinatorError \<Rightarrow> string" where
  "coordinator_error_text io (CoIo e) = ''I/O error: '' @ io e"
| "coordinator_error_text io (CoScoring e) = ''scoring error: '' @ e"
| "coordinator_error_text io CoStopped = ''session was stopped''"
| "coordinator_error_text io CoAllProbesFailed = ''all probes failed''"
| "coordinator_error_text io CoNoMethods = ''no obfuscation method is both allowed and registered''"

definition open_request_scores :: "ffi_env \<Rightarrow> VeilStartRequest \<Rightarrow> StartArgs \<Rightarrow> string + PersistentScores" where
  "open_request_scores env req args =
     (let opened = (\<lambda>what path key.
            case open_scores (en_sqlite (fe_coord env)) path (fe_file env path) (fe_removed env) 50 key of
              Inl e \<Rightarrow> Inl (what @ scoring_error_text e)
            | Inr scores \<Rightarrow> Inr scores)
      in case rq_scores_path req of
           None \<Rightarrow> opened ''scores open (memory) failed: '' '':memory:'' None
         | Some p \<Rightarrow>
             (let path = to_str_or_empty (Some p) in
              if path \<noteq> [] then opened ''scores open failed: '' path (sa_scoring_key args)
              else Inl ''scores_path empty''))"

text \<open>The coordinator of the process: the one there is, or a new one with veil-front as its only method.\<close>

definition build_coordinator :: "ffi_env \<Rightarrow> VeilStartRequest \<Rightarrow> StartArgs \<Rightarrow> ffi_state \<Rightarrow> string + VeilCoordinator" where
  "build_coordinator env req args st =
     (case ff_coordinator st of
        Some c \<Rightarrow> Inr c
      | None \<Rightarrow>
          (case open_request_scores env req args of
             Inl e \<Rightarrow> Inl e
           | Inr scores \<Rightarrow>
               Inr (register VeilFront (veil_front_obfuscator (fe_net env)) (coordinator_new config_default scores))))"

definition stop_existing :: "ffi_state \<Rightarrow> ffi_state" where
  "stop_existing st =
     (case ff_coordinator st of
        Some coord \<Rightarrow> st\<lparr>ff_coordinator := Some (snd (stop coord))\<rparr>
      | None \<Rightarrow> st)"

definition start_failed :: "string \<Rightarrow> ffi_state \<Rightarrow> (int \<times> VeilStartResult option) exec \<times> ffi_state" where
  "start_failed reason st =
     (Done (-1, None), if diag_last st = [] then diag_record (''veil_start: '' @ reason) st else st)"

definition veil_start_body ::
  "ffi_env \<Rightarrow> VeilStartRequest \<Rightarrow> ffi_state \<Rightarrow> (int \<times> VeilStartResult option) exec \<times> ffi_state" where
  "veil_start_body env req st =
     (let st = diag_clear st in
      case read_start_request req of
        Inl reason \<Rightarrow> (Done (-1, None), diag_record (''veil_start: '' @ reason) st)
      | Inr args \<Rightarrow>
          let st = stop_existing st in
          case build_coordinator env req args st of
            Inl reason \<Rightarrow> start_failed reason st
          | Inr coord \<Rightarrow>
              let st = st\<lparr>ff_coordinator := Some coord\<rparr> in
              (case start_session_with_params (fe_coord env) (sa_fingerprint args) (sa_allowed_methods args) (sa_request args)
                      (coord\<lparr>sink := diag_last st\<rparr>) of
                 Panic \<Rightarrow> (Panic, st)
               | Done (r, coord) \<Rightarrow>
                   let st = st\<lparr>ff_coordinator := Some coord, ff_error := sink coord\<rparr> in
                   (case r of
                      Inr s \<Rightarrow>
                        (Done (0, Some \<lparr>vs_port = sr_port s, vs_method = of_nat (discriminant (sr_method s)),
                                        vs_latency_ms = sr_latency_ms s\<rparr>), st)
                    | Inl e \<Rightarrow> start_failed (''start_session: '' @ coordinator_error_text (fe_io_text env) e) st)))"

text \<open>The result structure is what would be written through the out pointer.\<close>

definition veil_start :: "ffi_env \<Rightarrow> VeilStartRequest \<Rightarrow> ffi_state \<Rightarrow> (int \<times> VeilStartResult option) \<times> ffi_state" where
  "veil_start env req st = ffi_guard (-1, None) (veil_start_body env req st)"

section \<open>The other calls\<close>

text \<open>The full length, and what is written to the buffer of the given capacity, if there is one.\<close>

definition veil_last_error :: "nat option \<Rightarrow> ffi_state \<Rightarrow> nat \<times> bytes option" where
  "veil_last_error buf st =
     (let bs = ascii (diag_last st) in
      case buf of
        None \<Rightarrow> (length bs, None)
      | Some cap \<Rightarrow>
          if cap = 0 then (length bs, None)
          else (let n = min (length bs) (cap - 1) in (length bs, Some (take n bs @ [0]))))"

definition veil_stop :: "ffi_state \<Rightarrow> int \<times> ffi_state" where
  "veil_stop st =
     (case ff_coordinator st of
        Some coord \<Rightarrow>
          (let (stopped, coord) = stop coord in (if stopped then 0 else -1, st\<lparr>ff_coordinator := Some coord\<rparr>))
      | None \<Rightarrow> (-1, st))"

definition veil_is_alive :: "ffi_state \<Rightarrow> int" where
  "veil_is_alive st =
     (case ff_coordinator st of Some coord \<Rightarrow> if is_alive coord then 1 else 0 | None \<Rightarrow> 0)"

definition veil_port :: "ffi_state \<Rightarrow> u16" where
  "veil_port st = (case ff_coordinator st of Some coord \<Rightarrow> active_port coord | None \<Rightarrow> 0)"

text \<open>Adopting two descriptors for one ferry: the return value, the descriptors closed on return, and the
  arguments of the ferry that owns both from then on.\<close>

record fd_out =
  fd_ret :: int
  fd_closed :: "int list"
  fd_ferry :: "(int \<times> int \<times> bytes \<times> string \<times> VeilFrontAuthV3) option"

definition veil_front_ferry_fd ::
  "int \<Rightarrow> int \<Rightarrow> bytes option \<Rightarrow> c_string \<Rightarrow> c_string \<Rightarrow> c_string \<Rightarrow> bool \<Rightarrow> bool \<Rightarrow> fd_out" where
  "veil_front_ferry_fd local_fd relay_fd exporter cap_b64 sk_hex ticket_b64 nonblocking_ok registered_ok =
     (if local_fd < 0 \<or> relay_fd < 0
      then \<lparr>fd_ret = -1, fd_closed = filter (\<lambda>fd. 0 \<le> fd) [local_fd, relay_fd], fd_ferry = None\<rparr>
      else case exporter of
        None \<Rightarrow> \<lparr>fd_ret = -1, fd_closed = [local_fd, relay_fd], fd_ferry = None\<rparr>
      | Some e \<Rightarrow>
          if length e \<noteq> EXPORTER_LEN \<or> \<not> nonblocking_ok \<or> \<not> registered_ok
          then \<lparr>fd_ret = -1, fd_closed = [local_fd, relay_fd], fd_ferry = None\<rparr>
          else \<lparr>fd_ret = 0, fd_closed = [],
                fd_ferry = Some (local_fd, relay_fd, e, to_str_or_empty ticket_b64,
                  \<lparr>auth_capability_v2_b64 = to_str_or_empty cap_b64, veil_sk_hex = to_str_or_empty sk_hex\<rparr>)\<rparr>)"

section \<open>What the host can rely on\<close>

definition tables_ok :: "sqlite \<Rightarrow> bool" where
  "tables_ok sq \<longleftrightarrow> (\<forall>f rows. sq_open sq f = Inr rows \<longrightarrow> keys_ok rows \<and> (\<forall>r\<in>set rows. row_ok r))"

text \<open>The coordinator of the process has a sound store and veil-front as its only method.\<close>

definition ffi_inv :: "ffi_state \<Rightarrow> bool" where
  "ffi_inv st \<longleftrightarrow> (case ff_coordinator st of
     None \<Rightarrow> True
   | Some co \<Rightarrow> store_ok (co_scores co) \<and> (\<forall>m. obfuscators co m \<noteq> None \<longleftrightarrow> m = VeilFront))"

lemma ffi_inv_init: "ffi_inv \<lparr>ff_coordinator = None, ff_error = e\<rparr>"
  by (simp add: ffi_inv_def)

lemma open_request_scores_ok:
  assumes "tables_ok (en_sqlite (fe_coord env))" "open_request_scores env req args = Inr sc"
  shows "store_ok sc"
  using assms by (auto simp: open_request_scores_def open_scores_def open_file_def tables_ok_def store_ok_def Let_def
      split: option.splits sum.splits if_splits)

lemma build_coordinator_ok:
  assumes "tables_ok (en_sqlite (fe_coord env))" "ffi_inv st" "build_coordinator env req args st = Inr co"
  shows "store_ok (co_scores co)" "\<And>m. obfuscators co m \<noteq> None \<longleftrightarrow> m = VeilFront"
    "ff_coordinator st = None \<Longrightarrow> active co = None" "ff_coordinator st = Some c \<Longrightarrow> co = c"
  using assms open_request_scores_ok [OF assms(1)]
  by (auto simp: build_coordinator_def ffi_inv_def register_def coordinator_new_def split: option.splits sum.splits if_splits)

lemma ffi_inv_stop: "ffi_inv st \<Longrightarrow> ffi_inv (stop_existing st)"
  by (auto simp: ffi_inv_def stop_existing_def stop_def take_and_shut_down_def split: option.splits)

lemma stop_existing_active: "ff_coordinator (stop_existing st) = Some co \<Longrightarrow> active co = None"
  by (auto simp: stop_existing_def stop_def take_and_shut_down_fields split: option.splits)

text \<open>The session cycle of a start call: never a panic, and the failure text stays empty.\<close>

lemma start_call:
  assumes "store_ok (co_scores co)" "\<And>m. obfuscators co m \<noteq> None \<longleftrightarrow> m = VeilFront" "active co = None"
    and "\<forall>ms. mset (en_order env ms) = mset ms"
  shows "\<exists>r co'. start_session_with_params env fp allowed req (co\<lparr>sink := []\<rparr>) = Done (r, co')
    \<and> store_ok (co_scores co') \<and> (\<forall>m. obfuscators co' m \<noteq> None \<longleftrightarrow> m = VeilFront) \<and> sink co' = [] \<and> set (told co) \<subseteq> set (told co')
    \<and> (case r of
         Inr s \<Rightarrow> sr_method s = VeilFront \<and> is_alive co' \<and> active_port co' = sr_port s
       | Inl e \<Rightarrow> \<not> is_alive co')"
proof -
  let ?co = "co\<lparr>sink := []\<rparr>"
  have s: "store_ok (co_scores ?co)" using assms(1) by simp
  obtain r co' where r: "start_session_with_params env fp allowed req ?co = Done (r, co')" "store_ok (co_scores co')"
    "obfuscators co' = obfuscators ?co" "set (told ?co) \<subseteq> set (told co')"
    "case r of Inr s \<Rightarrow> obfuscators ?co (sr_method s) \<noteq> None \<and> is_alive co' \<and> active_port co' = sr_port s
     | Inl e \<Rightarrow> active co' = active ?co"
    using start_session_keeps [OF s assms(4)] by blast
  have "sink co' = sink ?co"
    by (rule start_keeps_sink [where M = VeilFront, OF _ r(1)]) (use assms(2) in simp)
  then show ?thesis using r assms(2,3) by (intro exI [of _ r] exI [of _ co']) (auto simp: is_alive_def split: sum.splits)
qed

text \<open>The state a start call works on once the request was read: the old session, if any, was told to stop.\<close>

lemma start_call_state:
  assumes "ffi_inv st"
  defines "st1 \<equiv> stop_existing (diag_clear st)"
  shows "ffi_inv st1" "ff_error st1 = []" "ff_coordinator st1 = None \<longleftrightarrow> ff_coordinator st = None"
    "\<And>co s c. ff_coordinator st = Some co \<Longrightarrow> active co = Some s \<Longrightarrow> ff_coordinator st1 = Some c \<Longrightarrow> session_id s \<in> set (told c)"
proof -
  show "ffi_inv st1" using assms ffi_inv_stop [of "diag_clear st"] by (simp add: ffi_inv_def diag_clear_def)
qed (auto simp: st1_def stop_existing_def diag_clear_def stop_def take_and_shut_down_fields split: option.splits)

text \<open>What the call returns and leaves behind, given how the session cycle ended.\<close>

lemma veil_start_cycle:
  assumes "read_start_request req = Inr args" "build_coordinator env req args (stop_existing (diag_clear st)) = Inr co"
    and "start_session_with_params (fe_coord env) (sa_fingerprint args) (sa_allowed_methods args) (sa_request args)
      (co\<lparr>sink := []\<rparr>) = Done (r, co')" "sink co' = []" "ff_error (stop_existing (diag_clear st)) = []"
  shows "veil_start env req st =
    ((case r of
        Inr s \<Rightarrow> (0, Some \<lparr>vs_port = sr_port s, vs_method = of_nat (discriminant (sr_method s)), vs_latency_ms = sr_latency_ms s\<rparr>)
      | Inl er \<Rightarrow> (-1, None)),
     (stop_existing (diag_clear st))\<lparr>ff_coordinator := Some co', ff_error := (case r of
        Inr s \<Rightarrow> [] | Inl er \<Rightarrow> ''veil_start: '' @ ''start_session: '' @ coordinator_error_text (fe_io_text env) er)\<rparr>)"
  using assms
  by (auto simp: veil_start_def veil_start_body_def ffi_guard_def start_failed_def diag_record_def diag_last_def Let_def
      split: sum.splits)


text \<open>A request with a pin of 32 zero bytes, in a process with a running session, for the example.\<close>

definition demo_start_request :: VeilStartRequest where
  "demo_start_request = \<lparr>rq_relay_addr = Some [114], rq_bundle = None, rq_tls_sni = None, rq_spki_hex = Some (replicate 64 48),
     rq_host_header = None, rq_wt_base_path = None, rq_network_fingerprint = None, rq_allowed_methods = 0,
     rq_scores_path = None, rq_veil_front_ticket_b64 = None, rq_veil_capability_v2_b64 = None, rq_veil_sk_hex = None,
     rq_scoring_key = None\<rparr>"

definition demo_running :: ffi_state where
  "demo_running = \<lparr>ff_coordinator = Some (install_session 4242 \<lparr>pp_method = VeilFront, pp_request = demo_request\<rparr> demo_coordinator),
     ff_error = []\<rparr>"

lemma char_zero: "char_of (48 :: nat) = CHR ''0''"
  by code_simp

lemma hex_text_zeros: "hex_text (replicate n 0) = replicate (2 * n) (CHR ''0'')"
  by (induction n) (simp_all add: hex_text_def nibble_def char_zero)

lemma demo_request_read: "\<exists>args. read_start_request demo_start_request = Inr args"
proof -
  have u: "utf8_valid (replicate n 48)" for n by (induction n) simp_all
  have "to_ascii_lowercase (replicate 64 (CHR ''0'')) = replicate 64 (CHR ''0'')" by (simp add: to_ascii_lowercase_def)
  with hex_text_zeros [of 32] have "parse_spki_pin (replicate 64 (CHR ''0'')) = Inr (replicate 32 0)" by (simp add: parse_spki_pin_iff)
  then show ?thesis using u [of 64]
    by (simp add: read_start_request_def demo_start_request_def to_str_def utf8_text_def char_zero)
qed

definition demo_net :: probe_net where
  "demo_net = \<lparr>pn_env = \<lparr>ce_tls = demo_tls, ce_hook = None, ce_crypto = demo_crypto,
       ce_text = \<lparr>base64_decode = (\<lambda>_. None), hex_decode = (\<lambda>_. None)\<rparr>, ce_clock = Some 15\<rparr>,
     pn_dial = (\<lambda>_. \<lparr>cd_connect = None, cd_nodelay = Inr (), cd_handshake = (\<lambda>_ _. Inr ()), cd_exporter = Inr [],
       cd_took = 0, cd_stream = demo_writer\<rparr>),
     pn_reads = (\<lambda>_. []), pn_in_time = True, pn_ms = 5000\<rparr>"

definition demo_ffi_env :: ffi_env where
  "demo_ffi_env = \<lparr>fe_coord = demo_coord_env, fe_net = demo_net, fe_file = (\<lambda>_. None), fe_removed = True, fe_io_text = (\<lambda>_. [])\<rparr>"


section \<open>Buffers and descriptors\<close>

text \<open>The failure text fits the buffer: at most its capacity, ended by a zero, a beginning of the text and all of
  it when the returned length is below the capacity.\<close>

lemma veil_last_error_fits:
  assumes "0 < cap"
  shows "\<exists>n. veil_last_error (Some cap) st = (length (diag_last st), Some (take n (ascii (diag_last st)) @ [0]))
    \<and> n + 1 \<le> cap \<and> (length (diag_last st) < cap \<longrightarrow> take n (ascii (diag_last st)) = ascii (diag_last st))"
  using assms
  by (intro exI [of _ "min (length (diag_last st)) (cap - 1)"]) (auto simp: veil_last_error_def Let_def ascii_def min_def)

text \<open>Each descriptor the host hands over has one owner afterwards: the call closed it, or the ferry has it.\<close>

lemma ferry_fd_owns:
  "\<forall>fd\<in>{local_fd, relay_fd}. 0 \<le> fd \<longrightarrow>
     (case veil_front_ferry_fd local_fd relay_fd e cb sk tk nb rg of out \<Rightarrow>
        (fd \<in> set (fd_closed out)) \<noteq> (\<exists>l r x. fd_ferry out = Some (l, r, x) \<and> fd \<in> {l, r}))"
  "fd_ret (veil_front_ferry_fd local_fd relay_fd e cb sk tk nb rg) = 0 \<longleftrightarrow>
     fd_ferry (veil_front_ferry_fd local_fd relay_fd e cb sk tk nb rg) \<noteq> None"
  by (auto simp: veil_front_ferry_fd_def split: option.splits)

text \<open>Stopping reports whether there was a session, and none is left.\<close>

lemma veil_stop_reports:
  "veil_stop st = (ret, st') \<Longrightarrow> (ret = 0 \<longleftrightarrow> veil_is_alive st = 1) \<and> veil_is_alive st' = 0 \<and> veil_port st' = 0"
  by (auto simp: veil_stop_def veil_is_alive_def veil_port_def active_port_def stop_def is_alive_def take_and_shut_down_fields
      split: option.splits if_splits)

end
