(* ===== verification/Relay.thy ===== *)
theory Relay
  imports Chain Admission
begin

text \<open>Handling of one relay connection: the cover site (\<^verbatim>\<open>site.rs\<close>), the backend dial and the dispatch
  of the gate's decision (\<^verbatim>\<open>main.rs\<close>, both under \<^verbatim>\<open>src/crates/construct-veil-relay/src\<close>).

  What the network answers is the record \<^verbatim>\<open>relay_env\<close>.  \<^verbatim>\<open>tokio::io::copy_bidirectional\<close> is library
  code: its outcome is part of that record.  The far side of a connection is one writer, and the
  result says whether it belongs to a backend, an upstream relay, the cover site, or was never
  opened.\<close>

section \<open>Cover site\<close>

definition forward_to_site ::
  "io_error + unit \<Rightarrow> io_error + unit \<Rightarrow> (io_error + unit) option \<Rightarrow> bytes \<Rightarrow> writer \<Rightarrow>
     (io_error + unit) option \<times> writer" where
  "forward_to_site connect nodelay copied first_bytes site_conn =
     (case connect of
        Inl e \<Rightarrow> (Some (Inl e), site_conn)
      | Inr _ \<Rightarrow>
          (case nodelay of
             Inl e \<Rightarrow> (Some (Inl e), site_conn)
           | Inr _ \<Rightarrow>
               (case (if first_bytes \<noteq> [] then write_op (Write first_bytes) site_conn else (Inr (), site_conn)) of
                  (Inl e, site_conn) \<Rightarrow> (Some (Inl e), site_conn)
                | (Inr _, site_conn) \<Rightarrow>
                    (case copied of
                       None \<Rightarrow> (None, site_conn)
                     | Some (Inr _) \<Rightarrow> (Some (Inr ()), site_conn)
                     | Some (Inl e) \<Rightarrow>
                         if io_error_kind e = ConnectionReset \<or> io_error_kind e = BrokenPipe
                         then (Some (Inr ()), site_conn)
                         else (Some (Inl e), site_conn)))))"

definition crlf :: string where "crlf = [CHR 0x0D, CHR 0x0A]"
definition lf :: string where "lf = [CHR 0x0A]"

definition builtin_body :: string where
  "builtin_body =
     ''<!DOCTYPE html>'' @ lf @
     ''<html><head><title>Public Transit Live</title></head>'' @ lf @
     ''<body>'' @ lf @
     ''<h1>Transit Status Dashboard</h1>'' @ lf @
     ''<p>Real-time sensor feeds. Connection is active.</p>'' @ lf @
     ''<div id='' @ [CHR 0x22] @ ''feed'' @ [CHR 0x22] @ ''>Waiting for SSE stream...</div>'' @ lf @
     ''</body></html>'' @ lf"

definition builtin_response :: string where
  "builtin_response =
     ''HTTP/1.1 200 OK'' @ crlf @
     ''Content-Type: text/html; charset=utf-8'' @ crlf @
     ''Content-Length: 184'' @ crlf @
     ''Connection: keep-alive'' @ crlf @
     crlf @ builtin_body"

definition serve_builtin_site :: "bytes \<Rightarrow> writer \<Rightarrow> (io_error + unit) \<times> writer" where
  "serve_builtin_site first_bytes stream = write_op (Write (ascii builtin_response)) stream"

section \<open>Backend\<close>

datatype BackendDialer = DialPlain | DialTls string

datatype BackendConn = ConnPlain | ConnTls

record relay_env =
  re_chain :: "ChainConfig option"
  re_dialer :: BackendDialer
  re_dial_late :: bool
  re_dial_env :: dial_env
  re_b64 :: "string \<Rightarrow> bytes option"
  re_connect :: "io_error + unit"
  re_nodelay :: "io_error + unit"
  re_tls :: "io_error + unit"
  re_site_copy :: "(io_error + unit) option"
  re_far_rd :: "(nat \<times> timed_event) list"
  re_up_first :: bool

definition open_backend :: "relay_env \<Rightarrow> io_error + BackendConn" where
  "open_backend env =
     (if re_dial_late env then Inl (IoError KTimedOut [])
      else case re_connect env of
        Inl e \<Rightarrow> Inl e
      | Inr _ \<Rightarrow>
          (case re_nodelay env of
             Inl e \<Rightarrow> Inl e
           | Inr _ \<Rightarrow>
               (case re_dialer env of
                  DialPlain \<Rightarrow> Inr ConnPlain
                | DialTls server_name \<Rightarrow>
                    (case re_tls env of Inl e \<Rightarrow> Inl e | Inr _ \<Rightarrow> Inr ConnTls))))"

section \<open>Dispatch\<close>

datatype conn_error = EChain ChainError | EIo io_error

datatype far_side = FarNone | FarBackend | FarUpstream | FarSite

record conn_out =
  co_result :: "(conn_error + unit) option"
  co_client :: writer
  co_far :: writer
  co_side :: far_side

text \<open>The client stream after the gate, as the forwarding loops read it: without a timer.\<close>

fun to_reads :: "gate_stream_in \<Rightarrow> read_event list" where
  "to_reads [] = []"
| "to_reads (ReadData d # rs) = RData d # to_reads rs"
| "to_reads (ReadErr e # rs) = RFail e # to_reads rs"
| "to_reads (TimedOut # rs) = to_reads rs"

definition of_run :: "far_side \<Rightarrow> tunnel_run \<Rightarrow> conn_out" where
  "of_run side run =
     \<lparr>co_result = map_option (\<lambda>r. case r of Inl e \<Rightarrow> Inl (EIo e) | Inr u \<Rightarrow> Inr u) (tr_result run),
      co_client = tr_client run, co_far = tr_backend run, co_side = side\<rparr>"

definition dispatch_gate_result ::
  "crypto \<Rightarrow> 's rng \<Rightarrow> 's \<Rightarrow> relay_env \<Rightarrow> GateResult \<Rightarrow> writer \<Rightarrow> writer \<Rightarrow> conn_out exec" where
  "dispatch_gate_result cr g s env result client_wr far_wr =
     (case result of
        Tunnel stream leftover \<Rightarrow>
          (case re_chain env of
             Some cfg \<Rightarrow>
               exec_bind (dial_upstream_within (re_dial_late env) cr (re_b64 env) cfg (re_dial_env env) far_wr)
                 (\<lambda>dialed. case dialed of
                    Inl e \<Rightarrow> Done \<lparr>co_result = Some (Inl (EChain e)), co_client = client_wr,
                                  co_far = far_wr, co_side = FarUpstream\<rparr>
                  | Inr upstream \<Rightarrow>
                      Done (of_run FarUpstream (forward_chain g s (re_up_first env) (to_reads stream)
                        leftover (re_far_rd env) client_wr upstream)))
           | None \<Rightarrow>
               (case open_backend env of
                  Inl e \<Rightarrow> Done \<lparr>co_result = Some (Inl (EIo e)), co_client = client_wr,
                                co_far = far_wr, co_side = FarBackend\<rparr>
                | Inr ConnPlain \<Rightarrow>
                    Done (of_run FarBackend (forward_tunnel g s (re_up_first env) (to_reads stream)
                      leftover (re_far_rd env) client_wr far_wr))
                | Inr ConnTls \<Rightarrow>
                    Done (of_run FarBackend (forward_tunnel g s (re_up_first env) (to_reads stream)
                      leftover (re_far_rd env) client_wr far_wr))))
      | Site stream first_bytes \<Rightarrow>
          if first_bytes = []
          then Done \<lparr>co_result = Some (Inr ()), co_client = client_wr, co_far = far_wr, co_side = FarNone\<rparr>
          else
            (case forward_to_site (re_connect env) (re_nodelay env) (re_site_copy env) first_bytes far_wr of
               (r, site_conn) \<Rightarrow>
                 Done \<lparr>co_result = map_option (\<lambda>_. Inr ()) r, co_client = client_wr,
                       co_far = site_conn, co_side = FarSite\<rparr>))"

definition handle_with_gate ::
  "crypto \<Rightarrow> 's rng \<Rightarrow> 's \<Rightarrow> relay_env \<Rightarrow> writer \<Rightarrow> writer \<Rightarrow>
     ((io_error + GateResult) \<times> GateStats) exec \<Rightarrow> (conn_out \<times> GateStats) exec" where
  "handle_with_gate cr g s env client_wr far_wr gated =
     exec_bind gated (\<lambda>(r, st).
       case r of
         Inl e \<Rightarrow> Done (\<lparr>co_result = Some (Inr ()), co_client = client_wr, co_far = far_wr,
                        co_side = FarNone\<rparr>, st)
       | Inr result \<Rightarrow>
           exec_bind (dispatch_gate_result cr g s env result client_wr far_wr) (\<lambda>out. Done (out, st)))"

definition handle_connection ::
  "crypto \<Rightarrow> 's rng \<Rightarrow> 's \<Rightarrow> relay_env \<Rightarrow> bytes option \<Rightarrow> bytes \<Rightarrow> bytes \<Rightarrow> (nat \<Rightarrow> u64 option) \<Rightarrow>
     gate_stream_in \<Rightarrow> writer \<Rightarrow> writer \<Rightarrow> GateStats \<Rightarrow> (conn_out \<times> GateStats) exec" where
  "handle_connection cr g s env exporter issuer_pubkey relay_scope clock stream client_wr far_wr st =
     handle_with_gate cr g s env client_wr far_wr
       (gate_with_exporter cr exporter issuer_pubkey relay_scope clock stream st)"

definition handle_external_stream ::
  "crypto \<Rightarrow> 's rng \<Rightarrow> 's \<Rightarrow> relay_env \<Rightarrow> bytes \<Rightarrow> bytes \<Rightarrow> bytes \<Rightarrow> (nat \<Rightarrow> u64 option) \<Rightarrow>
     gate_stream_in \<Rightarrow> writer \<Rightarrow> writer \<Rightarrow> GateStats \<Rightarrow> (conn_out \<times> GateStats) exec" where
  "handle_external_stream cr g s env exporter issuer_pubkey relay_scope clock stream client_wr far_wr st =
     handle_with_gate cr g s env client_wr far_wr
       (gate_stream cr exporter issuer_pubkey relay_scope clock stream st)"

section \<open>Facts\<close>

text \<open>A capability that was decoded can always be encoded again, so the dial never panics.\<close>

lemma dial_total: "dial_upstream_within late cr b64 cfg env w \<noteq> Panic"
proof -
  have enc: "v3_encode_payload (v3_from_capability cr c sk e) \<noteq> Panic" if "cap2_wf c" for c sk e
    using that by (simp add: v3_encode_payload_def v3_from_capability_def cap2_encode_Done)
  have wf: "cap2_decode_slice raw = Done (Some c) \<Longrightarrow> cap2_wf c" for raw c
    using v3.dec_canonical by (fastforce simp: cap2_decode_slice_def exec_bind_eq_Done)
  have tot: "cap2_decode_slice raw \<noteq> Panic" for raw
    using v3.dec_total [of raw] by (cases "cap2_decode raw") (auto simp: cap2_decode_slice_def)
  show ?thesis
  proof (cases "late \<or> b64 (capability_v2_b64 cfg) = None")
    case True
    then show ?thesis by (auto simp: dial_upstream_within_def dial_upstream_unbounded_def)
  next
    case False
    then obtain raw where raw: "b64 (capability_v2_b64 cfg) = Some raw" by auto
    obtain oc where oc: "cap2_decode_slice raw = Done oc"
      using tot [of raw] by (cases "cap2_decode_slice raw") auto
    show ?thesis
    proof (cases oc)
      case None
      then show ?thesis using False raw oc
        by (simp add: dial_upstream_within_def dial_upstream_unbounded_def)
    next
      case (Some c)
      then have "cap2_wf c" using wf oc by blast
      then show ?thesis using False raw oc Some
        by (auto simp: dial_upstream_within_def dial_upstream_unbounded_def v3_encode_payload_def
            v3_from_capability_def cap2_encode_Done split: option.splits sum.splits prod.splits)
    qed
  qed
qed

lemma dispatch_total: "dispatch_gate_result cr g s env result cw fw \<noteq> Panic"
proof (cases result)
  case (Tunnel stream leftover)
  then show ?thesis
    using dial_total [of "re_dial_late env" cr "re_b64 env" _ "re_dial_env env" fw]
    by (auto simp: dispatch_gate_result_def exec_bind_def split: option.splits sum.splits exec.splits
        BackendConn.splits)
next
  case (Site stream first_bytes)
  then show ?thesis by (simp add: dispatch_gate_result_def split: prod.splits)
qed

lemma dispatch_tunnel_side:
  "dispatch_gate_result cr g s env (Tunnel stream leftover) cw fw = Done out \<Longrightarrow>
   co_side out \<in> {FarBackend, FarUpstream}"
  by (auto simp: dispatch_gate_result_def exec_bind_def of_run_def
      split: option.splits sum.splits exec.splits BackendConn.splits)

lemma forward_to_site_written:
  assumes "forward_to_site connect nodelay copied first_bytes w = (r, w')"
  shows "\<exists>ds. written (acts w') = written (acts w) @ ds \<and> prefix ds first_bytes
    \<and> (faultless w \<and> connect = Inr () \<and> nodelay = Inr () \<longrightarrow> ds = first_bytes)"
proof (cases "connect = Inr () \<and> nodelay = Inr () \<and> first_bytes \<noteq> []")
  case False
  then have "w' = w" using assms
    by (auto simp: forward_to_site_def split: sum.splits option.splits if_splits)
  with False show ?thesis by (intro exI [of _ "[]"]) auto
next
  case True
  obtain x w1 where x: "write_op (Write first_bytes) w = (x, w1)" by fastforce
  have "w' = w1" using assms True x
    by (auto simp: forward_to_site_def split: sum.splits option.splits if_splits)
  with write_op_prefix [OF x] x write_op_ok [of w "Write first_bytes"] show ?thesis by auto
qed

lemma dispatch_site:
  assumes "dispatch_gate_result cr g s env (Site stream first_bytes) cw fw = Done out"
  shows "co_side out \<in> {FarNone, FarSite}" "co_client out = cw" "co_result out \<noteq> Some (Inl er)"
    "\<exists>ds. written (acts (co_far out)) = written (acts fw) @ ds \<and> prefix ds first_bytes
      \<and> (faultless fw \<and> re_connect env = Inr () \<and> re_nodelay env = Inr () \<longrightarrow> ds = first_bytes)"
proof -
  obtain r w where f: "forward_to_site (re_connect env) (re_nodelay env) (re_site_copy env) first_bytes fw = (r, w)"
    by fastforce
  show "co_side out \<in> {FarNone, FarSite}" "co_client out = cw" "co_result out \<noteq> Some (Inl er)"
    using assms f by (auto simp: dispatch_gate_result_def split: if_splits)
  have "co_far out = (if first_bytes = [] then fw else w)"
    using assms f by (auto simp: dispatch_gate_result_def split: if_splits)
  then show "\<exists>ds. written (acts (co_far out)) = written (acts fw) @ ds \<and> prefix ds first_bytes
      \<and> (faultless fw \<and> re_connect env = Inr () \<and> re_nodelay env = Inr () \<longrightarrow> ds = first_bytes)"
    using forward_to_site_written [OF f] by auto
qed

section \<open>Properties\<close>

text \<open>A plain backend that closes at once, for the examples.\<close>

definition demo_env :: relay_env where
  "demo_env = \<lparr>re_chain = None, re_dialer = DialPlain, re_dial_late = False,
     re_dial_env = \<lparr>de_connect = None, de_nodelay = Inr (), de_connector = Inr (), de_handshake = Inr (),
       de_exporter = Inr []\<rparr>,
     re_b64 = (\<lambda>_. None), re_connect = Inr (), re_nodelay = Inr (), re_tls = Inr (),
     re_site_copy = Some (Inr ()), re_far_rd = [(0, Arrives (RData []))], re_up_first = True\<rparr>"



text \<open>The built-in cover page announces a length that is not its own: the response says 184 bytes,
  the page has 226.\<close>

theorem builtin_site_content_length_wrong:
  "(\<exists>headers. builtin_response = headers @ ''Content-Length: 184'' @ crlf @ ''Connection: keep-alive'' @ crlf
      @ crlf @ builtin_body)
   \<and> length builtin_body = 226"
  by (simp add: builtin_response_def builtin_body_def lf_def) 

end
