(* ===== verification/Config_Link.thy ===== *)
theory Config_Link
  imports Tls Capability
begin

text \<open>The issuing tool (\<^verbatim>\<open>src/crates/construct-veil-relay/src/bin/make_config_link.rs\<close>): it signs a fresh bearer
  capability and wraps it in a signed configuration link.

  Texts are their UTF-8 bytes.  The command line is the record \<^verbatim>\<open>Args\<close>; files, the environment, the clock,
  the random bytes and the base64 and QR encoders are the record \<^verbatim>\<open>link_env\<close>.  Arithmetic on 64-bit numbers
  wraps, as in a release build.  What is printed besides the link and the public key is left out.\<close>

section \<open>Arguments\<close>

record Args =
  signing_key_file :: "string option"
  signing_key :: "string option"
  arg_relay :: string
  arg_sni :: "string option"
  arg_spki :: string
  arg_days :: u64
  arg_suite_id :: byte
  arg_scope :: string
  qr_svg :: "string option"

record link_env =
  le_read_file :: "string \<Rightarrow> string + string"
  le_env_key :: "string option"
  le_crypto :: crypto
  le_seed_ok :: "bytes \<Rightarrow> bool"
  le_ticket_id :: bytes
  le_key_bytes :: bytes
  le_now :: "u64 option"
  le_base64 :: "bytes \<Rightarrow> string"
  le_base64url :: "bytes \<Rightarrow> string"

section \<open>The signing key\<close>

text \<open>The white space of \<^verbatim>\<open>str::trim\<close>, as UTF-8.\<close>

definition white_space :: "string list" where
  "white_space = map (map char_of)
     ([[9], [10], [11], [12], [13], [32 :: nat], [0xC2, 0x85], [0xC2, 0xA0], [0xE1, 0x9A, 0x80]]
      @ map (\<lambda>n. [0xE2, 0x80, 0x80 + n]) [0..<11]
      @ [[0xE2, 0x80, 0xA8], [0xE2, 0x80, 0xA9], [0xE2, 0x80, 0xAF], [0xE2, 0x81, 0x9F], [0xE3, 0x80, 0x80]])"

function strip :: "string list \<Rightarrow> string \<Rightarrow> string" where
  "strip ws s =
     (case find (\<lambda>w. w \<noteq> [] \<and> prefix w s) ws of
        Some w \<Rightarrow> strip ws (drop (length w) s)
      | None \<Rightarrow> s)"
  by pat_completeness auto

termination strip
proof (relation "measure (length \<circ> snd)")
  fix ws s w assume "find (\<lambda>w. w \<noteq> [] \<and> prefix w s) ws = Some w"
  then have "w \<noteq> []" "prefix w s" by (auto simp: find_Some_iff)
  then show "((ws, drop (length w) s), (ws, s)) \<in> measure (length \<circ> snd)"
    by (auto dest: prefix_length_le simp: length_greater_0_conv [symmetric] simp del: length_greater_0_conv)
qed simp

declare strip.simps [simp del]

definition trim :: "string \<Rightarrow> string" where
  "trim s = rev (strip (map rev white_space) (rev (strip white_space s)))"

definition resolve_signing_key ::
  "(string \<Rightarrow> string + string) \<Rightarrow> string option \<Rightarrow> string option \<Rightarrow> string option \<Rightarrow> string + string" where
  "resolve_signing_key read_file path env argv =
     (case path of
        Some p \<Rightarrow>
          (case read_file p of
             Inr s \<Rightarrow> Inr (trim s)
           | Inl e \<Rightarrow> Inl (''reading --signing-key-file: '' @ e))
      | None \<Rightarrow>
          (case (case env of Some k \<Rightarrow> if trim k = [] then None else Some k | None \<Rightarrow> None) of
             Some key \<Rightarrow> Inr (trim key)
           | None \<Rightarrow>
               (case argv of
                  Some key \<Rightarrow> Inr (trim key)
                | None \<Rightarrow> Inl ''no signing key: pass --signing-key-file PATH or set VEIL_SIGNING_KEY'')))"

text \<open>\<^verbatim>\<open>u8::from_str_radix\<close> on two characters, which accepts a plus sign before a digit, and the decoding by
  slices of two bytes, which panics when a slice would cut a character.\<close>

definition from_str_radix_16 :: "char \<Rightarrow> char \<Rightarrow> byte option" where
  "from_str_radix_16 a b =
     (case (to_digit16 a, to_digit16 b) of
        (Some hi, Some lo) \<Rightarrow> Some (of_nat (hi * 16 + lo))
      | (None, Some lo) \<Rightarrow> if a = CHR ''+'' then Some (of_nat lo) else None
      | _ \<Rightarrow> None)"

definition inside_char :: "char \<Rightarrow> bool" where
  "inside_char c \<longleftrightarrow> 0x80 \<le> (of_char c :: nat) \<and> (of_char c :: nat) < 0xC0"

fun hex_slices :: "string \<Rightarrow> bytes option exec" where
  "hex_slices (a # b # s) =
     (if s \<noteq> [] \<and> inside_char (hd s) then Panic
      else case from_str_radix_16 a b of
        None \<Rightarrow> Done None
      | Some x \<Rightarrow> exec_bind (hex_slices s) (\<lambda>r. Done (map_option (\<lambda>xs. x # xs) r)))"
| "hex_slices _ = Done (Some [])"

definition link_hex_decode :: "string \<Rightarrow> bytes option exec" where
  "link_hex_decode s = (if odd (length s) then Done None else hex_slices s)"

section \<open>Canonical JSON\<close>

text \<open>What \<^verbatim>\<open>serde_json\<close> writes for a text, a number and a map in key order, without spaces.\<close>

definition backslash :: char where "backslash = CHR 0x5C"
definition quote :: char where "quote = CHR 0x22"

definition escape_char :: "char \<Rightarrow> string" where
  "escape_char c =
     (let n = of_char c :: nat in
      if n = 0x22 then [backslash, quote]
      else if n = 0x5C then [backslash, backslash]
      else if n = 0x08 then [backslash, CHR ''b'']
      else if n = 0x0C then [backslash, CHR ''f'']
      else if n = 0x0A then [backslash, CHR ''n'']
      else if n = 0x0D then [backslash, CHR ''r'']
      else if n = 0x09 then [backslash, CHR ''t'']
      else if n < 0x20 then [backslash, CHR ''u'', CHR ''0'', CHR ''0'', nibble (n div 16), nibble (n mod 16)]
      else [c])"

definition json_string :: "string \<Rightarrow> string" where
  "json_string s = quote # concat (map escape_char s) @ [quote]"

text \<open>Decimal digits of a number.\<close>

fun digits :: "nat \<Rightarrow> string" where
  "digits n = (if n < 10 then [] else digits (n div 10)) @ [nibble (n mod 10)]"

declare digits.simps [simp del]

definition json_int :: "int \<Rightarrow> string" where
  "json_int i = (if i < 0 then CHR ''-'' # digits (nat (- i)) else digits (nat i))"

datatype json_value = JString string | JNumber int

fun json_text :: "json_value \<Rightarrow> string" where
  "json_text (JString s) = json_string s"
| "json_text (JNumber i) = json_int i"

fun json_members :: "(string \<times> json_value) list \<Rightarrow> string" where
  "json_members [] = []"
| "json_members [(k, v)] = json_string k @ '':'' @ json_text v"
| "json_members ((k, v) # kvs) = json_string k @ '':'' @ json_text v @ '','' @ json_members kvs"

definition json_object :: "(string \<times> json_value) list \<Rightarrow> string" where
  "json_object kvs = ''{'' @ json_members kvs @ ''}''"

text \<open>Keys compare by their bytes; inserting keeps a map in key order and replaces the value of a present key.\<close>

fun str_less :: "string \<Rightarrow> string \<Rightarrow> bool" where
  "str_less s [] = False"
| "str_less [] (b # t) = True"
| "str_less (a # s) (b # t) = ((of_char a :: nat) < of_char b \<or> a = b \<and> str_less s t)"

fun btree_insert :: "string \<Rightarrow> 'v \<Rightarrow> (string \<times> 'v) list \<Rightarrow> (string \<times> 'v) list" where
  "btree_insert k v [] = [(k, v)]"
| "btree_insert k v ((k', v') # kvs) =
     (if k = k' then (k, v) # kvs
      else if str_less k k' then (k, v) # (k', v') # kvs
      else (k', v') # btree_insert k v kvs)"

section \<open>The link\<close>

record link_out =
  lo_link :: string
  lo_pub_hex :: string
  lo_capability :: string
  lo_fields :: "(string \<times> json_value) list"
  lo_signature :: bytes
  lo_not_before :: u64
  lo_exp :: u64

text \<open>The host part of the relay address: what precedes its last colon.\<close>

definition host_part :: "string \<Rightarrow> string" where
  "host_part addr = (case dropWhile (\<lambda>c. c \<noteq> CHR '':'') (rev addr) of [] \<Rightarrow> addr | _ # r \<Rightarrow> rev r)"

definition link_fields :: "string \<Rightarrow> string \<Rightarrow> string \<Rightarrow> string \<Rightarrow> u64 \<Rightarrow> (string \<times> json_value) list" where
  "link_fields addr name pin cap_b64 e =
     btree_insert ''exp'' (JNumber (sint e))
       (btree_insert ''capability'' (JString cap_b64)
         (btree_insert ''spki'' (JString pin)
           (btree_insert ''sni'' (JString name)
             (btree_insert ''relay'' (JString addr) []))))"

fun capability_error_text :: "CapabilityError \<Rightarrow> string" where
  "capability_error_text (ScopeTooLong n) = ''capability scope is '' @ digits n @ '' bytes; at most 255 fit the wire format''"

text \<open>Issuing with the decoded seed.\<close>

definition issue_link :: "link_env \<Rightarrow> Args \<Rightarrow> bytes \<Rightarrow> u64 \<Rightarrow> (string + link_out) exec" where
  "issue_link env args seed now =
     (let e = now + arg_days args * 24 * 60 * 60;
          t = \<lparr>ticket_id = le_ticket_id env, auth_key = le_key_bytes env, not_before = now, not_after = e,
               suite_id = arg_suite_id args\<rparr>
      in case cap_sign (le_crypto env) t (ascii (arg_scope args)) seed of
           Inl er \<Rightarrow> Done (Inl (capability_error_text er))
         | Inr cap \<Rightarrow>
             exec_bind (cap_encode cap) (\<lambda>blob.
               let cap_b64 = le_base64 env blob;
                   name = (case arg_sni args of Some n \<Rightarrow> n | None \<Rightarrow> host_part (arg_relay args));
                   fields = link_fields (arg_relay args) name (arg_spki args) cap_b64 e;
                   sig = sk_sign (le_crypto env) seed (ascii (json_object fields));
                   full = btree_insert ''signature'' (JString (''ed25519:'' @ le_base64url env sig)) fields
               in Done (Inr
                 \<lparr>lo_link = ''konstruct://veil-config?d='' @ le_base64url env (ascii (json_object full)),
                  lo_pub_hex = hex_text (verifying_key (le_crypto env) seed),
                  lo_capability = cap_b64, lo_fields = full, lo_signature = sig, lo_not_before = now, lo_exp = e\<rparr>)))"

definition make_link :: "link_env \<Rightarrow> Args \<Rightarrow> (string + link_out) exec" where
  "make_link env args =
     (case resolve_signing_key (le_read_file env) (signing_key_file args) (le_env_key env) (signing_key args) of
        Inl e \<Rightarrow> Done (Inl e)
      | Inr key \<Rightarrow>
          exec_bind (link_hex_decode key) (\<lambda>decoded.
          case decoded of
            None \<Rightarrow> Done (Inl ''signing key must be hex'')
          | Some seed \<Rightarrow>
              if length seed \<noteq> 32
              then Done (Inl (''--signing-key must be 32 bytes (64 hex chars), got '' @ digits (length seed)))
              else if \<not> le_seed_ok env seed then Done (Inl ''invalid Ed25519 seed'')
              else case le_now env of
                None \<Rightarrow> Done (Inl ''second time provided was later than self'')
              | Some now \<Rightarrow> issue_link env args seed now))"

section \<open>The QR file\<close>

text \<open>Files with their permission bits.  Removing the old file may fail, which is ignored; creating fails when
  a file is there or the directory refuses it; the write may stop after some bytes.\<close>

type_synonym files = "string \<rightharpoonup> nat \<times> bytes"

record file_io =
  io_removable :: bool
  io_creatable :: bool
  io_room :: nat

text \<open>A new file only its owner can read, with the given contents.\<close>

definition create_private :: "file_io \<Rightarrow> string \<Rightarrow> bytes \<Rightarrow> files \<Rightarrow> (string + unit) \<times> files" where
  "create_private io path contents fs =
     (if fs path \<noteq> None then (Inl ''file exists'', fs)
      else if \<not> io_creatable io then (Inl ''cannot create'', fs)
      else if io_room io < length contents then (Inl ''write failed'', fs(path \<mapsto> (6 * 64, take (io_room io) contents)))
      else (Inr (), fs(path \<mapsto> (6 * 64, contents))))"

definition write_private :: "file_io \<Rightarrow> string \<Rightarrow> bytes \<Rightarrow> files \<Rightarrow> (string + unit) \<times> files" where
  "write_private io path contents fs =
     create_private io path contents (if io_removable io then fs(path := None) else fs)"

text \<open>The whole run.  \<open>qr\<close> renders the link as an SVG image, or fails; the result holds what the program
  returned, what it printed on its standard output, and the files.\<close>

definition config_link_main ::
  "link_env \<Rightarrow> (string \<Rightarrow> bytes option) \<Rightarrow> file_io \<Rightarrow> Args \<Rightarrow> files \<Rightarrow> ((string + unit) \<times> string \<times> files) exec" where
  "config_link_main env qr io args fs =
     exec_bind (make_link env args) (\<lambda>made.
       case made of
         Inl e \<Rightarrow> Done (Inl e, [], fs)
       | Inr out \<Rightarrow>
           let (res, fs') =
             (case qr (lo_link out) of
                Some svg \<Rightarrow>
                  (case qr_svg args of
                     Some path \<Rightarrow> write_private io path svg fs
                   | None \<Rightarrow> (Inr (), fs))
              | None \<Rightarrow> (Inr (), fs))
           in Done (res, lo_link out @ [CHR 0x0A], fs'))"

section \<open>Key decoding\<close>

text \<open>Trimming leaves text alone that neither starts nor ends like white space.\<close>

lemma strip_none: "s = [] \<or> hd s \<notin> hd ` set ws \<Longrightarrow> strip ws s = s"
proof -
  assume "s = [] \<or> hd s \<notin> hd ` set ws"
  then have "find (\<lambda>w. w \<noteq> [] \<and> prefix w s) ws = None"
    by (auto simp: find_None_iff prefix_def image_iff)
  then show ?thesis by (simp add: strip.simps [of ws s])
qed

lemma trim_none:
  assumes "s = [] \<or> hd s \<notin> hd ` set white_space \<and> last s \<notin> last ` set white_space"
  shows "trim s = s"
proof -
  have "strip white_space s = s" using assms by (intro strip_none) auto
  moreover have "hd ` set (map rev white_space) = last ` set white_space" by (simp add: image_image hd_rev)
  then have "strip (map rev white_space) (rev s) = rev s" using assms by (intro strip_none) (auto simp: hd_rev)
  ultimately show ?thesis by (simp add: trim_def)
qed

lemma trim_visible:
  assumes "\<forall>c \<in> set s. 33 \<le> (of_char c :: nat) \<and> (of_char c :: nat) < 128"
  shows "trim s = s"
proof (cases "s = []")
  case False
  have "\<forall>n \<in> of_char ` hd ` set white_space \<union> of_char ` last ` set white_space. n < (33 :: nat) \<or> 128 \<le> n"
    by (auto simp: white_space_def)
  then have "\<forall>c \<in> hd ` set white_space \<union> last ` set white_space. (of_char c :: nat) < 33 \<or> 128 \<le> (of_char c :: nat)"
    by blast
  then have "c \<notin> hd ` set white_space" "c \<notin> last ` set white_space" if "c \<in> set s" for c
    using assms that by (meson UnI1 UnI2 leD)+
  then show ?thesis using False by (intro trim_none) simp
qed (simp add: trim_none)

lemma hex_text_chars: "c \<in> set (hex_text b) \<Longrightarrow> of_char c \<in> {48..57} \<union> {97..102 :: nat}"
proof -
  assume "c \<in> set (hex_text b)"
  then obtain n where "c = nibble n" "n < 16"
    using unat_byte_less by (auto simp: hex_text_def less_mult_imp_div_less)
  then show ?thesis by (auto simp: nibble_def)
qed

lemma trim_hex_text [simp]: "trim (hex_text b) = hex_text b"
  by (rule trim_visible) (use hex_text_chars in fastforce)

lemma length_hex_text: "length (hex_text b) = 2 * length b"
  by (induction b) (simp_all add: hex_text_def)

lemma decode_hex_text [simp]: "decode_hex (hex_text b) = Some b"
  by (simp add: decode_hex_iff)

text \<open>On plain text without a plus sign the decoder agrees with the one the client uses for pins.\<close>

lemma hex_slices_pairs:
  "list_all (\<lambda>c. of_char c < (128 :: nat)) s \<Longrightarrow> CHR ''+'' \<notin> set s \<Longrightarrow> hex_slices s = Done (hex_pairs s)"
proof (induction s rule: induct_list012)
  case (3 a b s)
  have "\<not> (s \<noteq> [] \<and> inside_char (hd s))" using 3(3) by (cases s) (auto simp: inside_char_def)
  moreover have "a \<noteq> CHR ''+''" using 3(4) by auto
  ultimately show ?case using 3
    by (cases "to_digit16 a"; cases "to_digit16 b") (auto simp: from_str_radix_16_def)
qed simp_all

lemma link_hex_decode_eq:
  "list_all (\<lambda>c. of_char c < (128 :: nat)) s \<Longrightarrow> CHR ''+'' \<notin> set s \<Longrightarrow> link_hex_decode s = Done (decode_hex s)"
  by (simp add: link_hex_decode_def decode_hex_def hex_slices_pairs)

lemma link_hex_decode_text: "link_hex_decode (hex_text b) = Done (Some b)"
proof -
  have "list_all (\<lambda>c. of_char c < (128 :: nat)) (hex_text b)" unfolding list_all_iff using hex_text_chars by fastforce
  moreover have "CHR ''+'' \<notin> set (hex_text b)" using hex_text_chars [of "CHR ''+''" b] by auto
  ultimately show ?thesis by (simp add: link_hex_decode_eq)
qed

text \<open>Elsewhere they differ: a plus sign is taken for a digit, and text with a wider character at the wrong
  place ends the tool by a panic instead of the error for keys that are not hex.\<close>

lemma link_hex_decode_differs:
  "link_hex_decode ''+5'' = Done (Some [5]) \<and> decode_hex ''+5'' = None"
  "link_hex_decode [CHR ''a'', CHR 0xE2, CHR 0x82, CHR 0xAC] = Panic"
  by code_simp+

section \<open>Canonical text is unambiguous\<close>

lemma nibble_inject: "m < 16 \<Longrightarrow> n < 16 \<Longrightarrow> nibble m = nibble n \<longleftrightarrow> m = n"
  by (auto simp: nibble_def dest!: arg_cong [where f = "of_char :: char \<Rightarrow> nat"] split: if_splits)

lemma escape_char_cases:
  obtains "escape_char c = [c]" "c \<noteq> backslash" "c \<noteq> quote"
  | x where "escape_char c = [backslash, x]" "x \<noteq> CHR ''u''"
      "x = quote \<and> (of_char c :: nat) = 0x22 \<or> x = backslash \<and> (of_char c :: nat) = 0x5C \<or> x = CHR ''b'' \<and> (of_char c :: nat) = 8
       \<or> x = CHR ''f'' \<and> (of_char c :: nat) = 12 \<or> x = CHR ''n'' \<and> (of_char c :: nat) = 10
       \<or> x = CHR ''r'' \<and> (of_char c :: nat) = 13 \<or> x = CHR ''t'' \<and> (of_char c :: nat) = 9"
  | "escape_char c = [backslash, CHR ''u'', CHR ''0'', CHR ''0'', nibble (of_char c div 16), nibble (of_char c mod 16)]"
      "(of_char c :: nat) < 0x20"
proof -
  let ?n = "of_char c :: nat"
  consider "?n = 0x22" | "?n = 0x5C" | "?n = 8" | "?n = 12" | "?n = 10" | "?n = 13" | "?n = 9"
    | "?n < 0x20" "?n \<notin> {8, 9, 10, 12, 13}" | "0x20 \<le> ?n" "?n \<noteq> 0x22" "?n \<noteq> 0x5C"
    by force
  then show thesis
  proof cases
    case 1 then show thesis by (intro that(2) [of quote]) (simp_all add: escape_char_def quote_def)
  next
    case 2 then show thesis by (intro that(2) [of backslash]) (simp_all add: escape_char_def backslash_def)
  next
    case 3 then show thesis by (intro that(2) [of "CHR ''b''"]) (simp_all add: escape_char_def)
  next
    case 4 then show thesis by (intro that(2) [of "CHR ''f''"]) (simp_all add: escape_char_def)
  next
    case 5 then show thesis by (intro that(2) [of "CHR ''n''"]) (simp_all add: escape_char_def)
  next
    case 6 then show thesis by (intro that(2) [of "CHR ''r''"]) (simp_all add: escape_char_def)
  next
    case 7 then show thesis by (intro that(2) [of "CHR ''t''"]) (simp_all add: escape_char_def)
  next
    case 8 then show thesis by (intro that(3)) (simp_all add: escape_char_def Let_def)
  next
    case 9
    then have "c \<noteq> backslash" "c \<noteq> quote" by (auto simp: backslash_def quote_def)
    with 9 show thesis by (intro that(1)) (simp_all add: escape_char_def)
  qed
qed

lemma escape_char_cancel:
  assumes "escape_char c @ r = escape_char d @ s"
  shows "c = d \<and> r = s"
proof (cases c rule: escape_char_cases)
  case 1
  then show ?thesis using assms by (cases d rule: escape_char_cases) auto
next
  case (2 x)
  then show ?thesis using assms
    by (cases d rule: escape_char_cases) (auto simp: backslash_def quote_def dest!: arg_cong [where f = "char_of :: nat \<Rightarrow> char"])
next
  case 3
  then show ?thesis using assms
  proof (cases d rule: escape_char_cases)
    case d: 3
    have lt: "(of_char c :: nat) div 16 < 16" "(of_char d :: nat) div 16 < 16" using 3(2) d(2) by linarith+
    have "(of_char c :: nat) div 16 = of_char d div 16" "(of_char c :: nat) mod 16 = of_char d mod 16"
      using assms 3(1) d(1) lt by (simp_all add: nibble_inject)
    then have "(of_char c :: nat) = of_char d" by (metis div_mult_mod_eq)
    then show ?thesis using assms 3(1) d(1) by (simp add: of_char_eq_iff)
  qed auto
qed

lemma escape_char_not_quote: "\<not> prefix [quote] (escape_char c)" "escape_char c \<noteq> []"
  by (cases c rule: escape_char_cases; auto simp: backslash_def quote_def)+


lemma json_string_cancel: "json_string s @ r = json_string t @ r' \<Longrightarrow> s = t \<and> r = r'"
proof -
  have cancel: "concat (map escape_char s) @ quote # r = concat (map escape_char t) @ quote # r' \<Longrightarrow> s = t \<and> r = r'" for s t
  proof (induction s arbitrary: t)
    case Nil
    show ?case
    proof (cases t)
      case (Cons d t')
      with Nil have "escape_char d @ concat (map escape_char t') @ quote # r' = quote # r" by simp
      then have "prefix [quote] (escape_char d)" using escape_char_not_quote(2) [of d] by (cases "escape_char d") auto
      then show ?thesis using escape_char_not_quote(1) by blast
    qed (use Nil in simp)
  next
    case (Cons c s)
    show ?case
    proof (cases t)
      case Nil
      then show ?thesis using Cons.prems escape_char_not_quote [of c] by (auto simp: prefix_def append_eq_Cons_conv)
    next
      case t: (Cons d t')
      then have "escape_char c @ concat (map escape_char s) @ quote # r = escape_char d @ concat (map escape_char t') @ quote # r'"
        using Cons.prems by simp
      from escape_char_cancel [OF this] Cons.IH t show ?thesis by blast
    qed
  qed
  assume "json_string s @ r = json_string t @ r'"
  then have "concat (map escape_char s) @ quote # r = concat (map escape_char t) @ quote # r'" by (simp add: json_string_def)
  then show "s = t \<and> r = r'" by (rule cancel)
qed

lemma digits_not_Nil [simp]: "digits n \<noteq> []"
  by (simp add: digits.simps [of n])

lemma digits_inject: "digits m = digits n \<Longrightarrow> m = n"
proof (induction m arbitrary: n rule: less_induct)
  case (less m)
  from less.prems have "(if m < 10 then [] else digits (m div 10)) @ [nibble (m mod 10)] =
      (if n < 10 then [] else digits (n div 10)) @ [nibble (n mod 10)]"
    by (simp add: digits.simps [of m] digits.simps [of n])
  then have i: "(if m < 10 then [] else digits (m div 10)) = (if n < 10 then [] else digits (n div 10))"
    and l: "m mod 10 = n mod 10"
    by (auto simp: nibble_inject)
  show ?case
  proof (cases "m < 10")
    case True
    with i have "n < 10" using digits_not_Nil [of "n div 10"] by (metis)
    with True l show ?thesis by simp
  next
    case False
    with i have "\<not> n < 10" "digits (m div 10) = digits (n div 10)" using digits_not_Nil [of "m div 10"] by metis+
    with less.IH [of "m div 10" "n div 10"] False have "m div 10 = n div 10" by simp
    with l show ?thesis by (metis div_mult_mod_eq)
  qed
qed

lemma digits_chars: "c \<in> set (digits n) \<Longrightarrow> \<exists>d<10. c = nibble d"
proof (induction n rule: less_induct)
  case (less n)
  show ?case
  proof (cases "c = nibble (n mod 10)")
    case True
    then show ?thesis by (intro exI [of _ "n mod 10"]) simp
  next
    case False
    with less.prems have "\<not> n < 10" "c \<in> set (digits (n div 10))" by (simp_all add: digits.simps [of n] split: if_splits)
    with less.IH [of "n div 10"] show ?thesis by simp
  qed
qed

lemma digits_plain: "c \<in> set (digits n) \<Longrightarrow> 48 \<le> (of_char c :: nat)"
  using digits_chars [of c n] by (auto simp: nibble_def)

lemma json_int_inject: "json_int i = json_int j \<Longrightarrow> i = j"
proof -
  have minus: "CHR ''-'' # ds \<noteq> digits n" for ds n
  proof
    assume "CHR ''-'' # ds = digits n"
    then have "CHR ''-'' \<in> set (digits n)" by (metis list.set_intros(1))
    then show False using digits_plain [of "CHR ''-''" n] by simp
  qed
  assume "json_int i = json_int j"
  then show "i = j"
    using minus minus [symmetric] by (auto simp: json_int_def dest!: digits_inject split: if_splits)
qed

lemma json_int_comma: "CHR '','' \<notin> set (json_int i)"
  using digits_plain [of "CHR '',''"] by (auto simp: json_int_def)

lemma json_int_cancel: "json_int i @ CHR '','' # r = json_int j @ CHR '','' # r' \<Longrightarrow> i = j \<and> r = r'"
proof -
  assume "json_int i @ CHR '','' # r = json_int j @ CHR '','' # r'"
  then have "takeWhile (\<lambda>c. c \<noteq> CHR '','') (json_int i @ CHR '','' # r) = takeWhile (\<lambda>c. c \<noteq> CHR '','') (json_int j @ CHR '','' # r')"
    "dropWhile (\<lambda>c. c \<noteq> CHR '','') (json_int i @ CHR '','' # r) = dropWhile (\<lambda>c. c \<noteq> CHR '','') (json_int j @ CHR '','' # r')"
    by simp_all
  moreover have "takeWhile (\<lambda>c. c \<noteq> CHR '','') (json_int k @ CHR '','' # q) = json_int k"
    "dropWhile (\<lambda>c. c \<noteq> CHR '','') (json_int k @ CHR '','' # q) = CHR '','' # q" for k q
    using json_int_comma [of k] by (subst takeWhile_append2 dropWhile_append2; auto)+
  ultimately show "i = j \<and> r = r'" using json_int_inject by simp
qed

section \<open>The signed fields\<close>

lemma link_fields_eq:
  "link_fields addr name pin cap e =
     [(''capability'', JString cap), (''exp'', JNumber (sint e)), (''relay'', JString addr), (''sni'', JString name), (''spki'', JString pin)]"
  by (simp add: link_fields_def)

lemma signed_fields:
  "filter (\<lambda>(k, _). k \<noteq> ''signature'') (btree_insert ''signature'' v (link_fields addr name pin cap e)) =
     link_fields addr name pin cap e"
  by (simp add: link_fields_eq)

text \<open>No two configurations have the same signed text.\<close>

lemma link_text_inject:
  assumes "json_object (link_fields addr name pin cap e) = json_object (link_fields addr' name' pin' cap' e')"
  shows "addr = addr' \<and> name = name' \<and> pin = pin' \<and> cap = cap' \<and> e = e'"
proof -
  have t: "json_object (link_fields a n p c x) =
      (''{'' @ json_string ''capability'' @ '':'') @ json_string c @ ('','' @ json_string ''exp'' @ '':'') @ json_int (sint x)
      @ CHR '','' # (json_string ''relay'' @ '':'') @ json_string a @ ('','' @ json_string ''sni'' @ '':'') @ json_string n
      @ ('','' @ json_string ''spki'' @ '':'') @ json_string p @ ''}''" for a n p c and x :: u64
    by (simp add: json_object_def link_fields_eq)
  from assms have "json_string cap @ ('','' @ json_string ''exp'' @ '':'') @ json_int (sint e)
      @ CHR '','' # (json_string ''relay'' @ '':'') @ json_string addr @ ('','' @ json_string ''sni'' @ '':'') @ json_string name
      @ ('','' @ json_string ''spki'' @ '':'') @ json_string pin @ ''}'' =
    json_string cap' @ ('','' @ json_string ''exp'' @ '':'') @ json_int (sint e')
      @ CHR '','' # (json_string ''relay'' @ '':'') @ json_string addr' @ ('','' @ json_string ''sni'' @ '':'') @ json_string name'
      @ ('','' @ json_string ''spki'' @ '':'') @ json_string pin' @ ''}''"
    unfolding t by (simp only: same_append_eq)
  note 1 = json_string_cancel [OF this]
  note 2 = json_int_cancel [OF 1 [THEN conjunct2, unfolded same_append_eq]]
  note 3 = json_string_cancel [OF 2 [THEN conjunct2, unfolded same_append_eq]]
  note 4 = json_string_cancel [OF 3 [THEN conjunct2, unfolded same_append_eq]]
  note 5 = json_string_cancel [OF 4 [THEN conjunct2, unfolded same_append_eq]]
  show ?thesis using 1 2 3 4 5 by (simp add: signed_word_eqI)
qed


lemma issue_link_parts:
  assumes "issue_link env args seed now = Done (Inr out)"
  shows "\<exists>c blob name. lo_not_before out = now \<and> lo_exp out = now + arg_days args * 24 * 60 * 60
    \<and> cap_sign (le_crypto env) \<lparr>ticket_id = le_ticket_id env, auth_key = le_key_bytes env, not_before = now,
        not_after = lo_exp out, suite_id = arg_suite_id args\<rparr> (ascii (arg_scope args)) seed = Inr c
    \<and> cap_encode c = Done blob \<and> lo_capability out = le_base64 env blob
    \<and> lo_pub_hex out = hex_text (verifying_key (le_crypto env) seed)
    \<and> (\<exists>v. lo_fields out = btree_insert ''signature'' v
         (link_fields (arg_relay args) name (arg_spki args) (lo_capability out) (lo_exp out)))
    \<and> lo_signature out = sk_sign (le_crypto env) seed
         (ascii (json_object (link_fields (arg_relay args) name (arg_spki args) (lo_capability out) (lo_exp out))))"
proof -
  let ?e = "now + arg_days args * 24 * 60 * 60"
  let ?t = "\<lparr>ticket_id = le_ticket_id env, auth_key = le_key_bytes env, not_before = now, not_after = ?e, suite_id = arg_suite_id args\<rparr>"
  obtain c where c: "cap_sign (le_crypto env) ?t (ascii (arg_scope args)) seed = Inr c"
    using assms by (cases "cap_sign (le_crypto env) ?t (ascii (arg_scope args)) seed") (simp_all add: issue_link_def)
  obtain blob where b: "cap_encode c = Done blob"
    using assms c by (cases "cap_encode c") (simp_all add: issue_link_def)
  show ?thesis using assms c b unfolding issue_link_def Let_def
    by (intro exI [of _ c] exI [of _ blob] exI) auto
qed

lemma issue_link_succeeds:
  assumes "check_scope_len (ascii (arg_scope args)) = Inr ()"
  shows "\<exists>out. issue_link env args seed now = Done (Inr out) \<and> lo_not_before out = now"
  using assms by (auto simp: issue_link_def Let_def cap_sign_def cap_encode_def assert_encodable_scope_def check_scope_len_def
      split: if_splits)

lemma make_link_parts:
  assumes "make_link env args = Done (Inr out)"
  shows "\<exists>seed now. length seed = 32 \<and> le_now env = Some now \<and> issue_link env args seed now = Done (Inr out)"
proof -
  let ?k = "resolve_signing_key (le_read_file env) (signing_key_file args) (le_env_key env) (signing_key args)"
  obtain key where k: "?k = Inr key" using assms by (cases ?k) (simp_all add: make_link_def)
  obtain d where "link_hex_decode key = Done d" using assms k by (cases "link_hex_decode key") (simp_all add: make_link_def)
  then obtain seed where d: "link_hex_decode key = Done (Some seed)" using assms k by (cases d) (simp_all add: make_link_def)
  have l: "length seed = 32" "le_seed_ok env seed" using assms k d by (auto simp: make_link_def split: if_splits)
  then obtain now where "le_now env = Some now" using assms k d by (cases "le_now env") (simp_all add: make_link_def)
  then show ?thesis using assms k d l by (intro exI [of _ seed] exI [of _ now]) (simp add: make_link_def)
qed

text \<open>The only way the tool panics is a signing key with a wider character in it.\<close>

lemma issue_link_total: "issue_link env args seed now \<noteq> Panic"
proof -
  let ?t = "\<lparr>ticket_id = le_ticket_id env, auth_key = le_key_bytes env, not_before = now,
    not_after = now + arg_days args * 24 * 60 * 60, suite_id = arg_suite_id args\<rparr>"
  have "\<exists>b. cap_encode c = Done b" if "cap_sign (le_crypto env) ?t (ascii (arg_scope args)) seed = Inr c" for c
    using that by (auto simp: cap_sign_def check_scope_len_def cap_encode_def assert_encodable_scope_def split: if_splits)
  then show ?thesis
    by (cases "cap_sign (le_crypto env) ?t (ascii (arg_scope args)) seed") (fastforce simp: issue_link_def Let_def)+
qed

lemma make_link_panics:
  "make_link env args = Panic \<Longrightarrow>
     \<exists>key. resolve_signing_key (le_read_file env) (signing_key_file args) (le_env_key env) (signing_key args) = Inr key
       \<and> link_hex_decode key = Panic"
  using issue_link_total
  by (auto simp: make_link_def exec_bind_def split: sum.splits option.splits if_splits exec.splits)

text \<open>A QR file is readable by its owner only, also when the write was cut short and whatever was there
  before, and no other file is touched.\<close>

lemma write_private_mode:
  assumes "write_private io path contents fs = (res, fs')" "fs' path \<noteq> fs path"
  shows "fs' path = None \<or> (\<exists>b. fs' path = Some (384, b) \<and> prefix b contents)"
  using assms by (auto simp: write_private_def create_private_def take_is_prefix split: if_splits)

lemma create_private_others: "p \<noteq> path \<Longrightarrow> snd (create_private io path contents fs) p = fs p"
  by (simp add: create_private_def)

lemma write_private_others: "p \<noteq> path \<Longrightarrow> snd (write_private io path contents fs) p = fs p"
  by (simp add: write_private_def create_private_others)

text \<open>The link is printed whenever it could be made, also when the QR file then fails, and files change only
  at the path that was asked for.\<close>

lemma config_link_main_prints:
  assumes "make_link env args = Done (Inr out)"
  shows "\<exists>res fs'. config_link_main env qr io args fs = Done (res, lo_link out @ [CHR 0x0A], fs')
    \<and> (\<forall>p. qr_svg args \<noteq> Some p \<longrightarrow> fs' p = fs p)"
proof (cases "(qr (lo_link out), qr_svg args)" rule: prod.exhaust)
  case (Pair q path)
  obtain res fs' where w: "write_private io (the path) (the q) fs = (res, fs')" by fastforce
  then have "fs' p = fs p" if "p \<noteq> the path" for p
    using write_private_others [OF that, of io "the q" fs] by simp
  then show ?thesis using assms w Pair
    by (cases q; cases path) (simp_all add: config_link_main_def)
qed

lemma config_link_main_fails:
  assumes "make_link env args = Done (Inl e)"
  shows "config_link_main env qr io args fs = Done (Inl e, [], fs)"
  using assms by (simp add: config_link_main_def)

end
