(* ===== verification/Startup.thy ===== *)
theory Startup
  imports Relay Config_Link
begin

text \<open>Start-up of the relay (\<^verbatim>\<open>main\<close> in \<^verbatim>\<open>src/crates/construct-veil-relay/src/main.rs\<close> up to the accept loop):
  the command line, the generation of a chain identity, and the configuration that every connection
  is then handled with.

  The command line parser is library code: the model starts from the parsed arguments and their
  defaults.  Files, the PEM parser, the certificate generator, the random seed, the listening socket
  and the largest semaphore of the runtime are the record \<^verbatim>\<open>start_env\<close>.  The banner is not modelled.\<close>

section \<open>Command line\<close>

record RelayArgs =
  ra_listen :: string
  ra_dev :: bool
  ra_cert :: "string option"
  ra_key :: "string option"
  ra_issuer_pubkey :: "string option"
  ra_relay_scope :: string
  ra_backend :: string
  ra_backend_tls :: bool
  ra_backend_sni :: "string option"
  ra_site :: string
  ra_max_handshakes :: nat
  ra_max_conns_per_ip :: u32
  ra_handshake_timeout_secs :: u64
  ra_first_byte_timeout_secs :: u64
  ra_dial_timeout_secs :: u64
  ra_alpn :: "string list"
  ra_generate_relay_keypair :: bool
  ra_chain_upstream_addr :: "string option"
  ra_chain_upstream_sni :: "string option"
  ra_chain_upstream_spki :: "string option"
  ra_chain_capability_file :: "string option"
  ra_chain_veil_sk_file :: "string option"

definition relay_args_default :: RelayArgs where
  "relay_args_default =
     \<lparr>ra_listen = ''0.0.0.0:443'', ra_dev = False, ra_cert = None, ra_key = None, ra_issuer_pubkey = None,
      ra_relay_scope = [], ra_backend = ''127.0.0.1:50051'', ra_backend_tls = False, ra_backend_sni = None,
      ra_site = ''127.0.0.1:8080'', ra_max_handshakes = 512, ra_max_conns_per_ip = 64,
      ra_handshake_timeout_secs = 10, ra_first_byte_timeout_secs = 60, ra_dial_timeout_secs = 10, ra_alpn = [[]],
      ra_generate_relay_keypair = False, ra_chain_upstream_addr = None, ra_chain_upstream_sni = None,
      ra_chain_upstream_spki = None, ra_chain_capability_file = None, ra_chain_veil_sk_file = None\<rparr>"

record start_env =
  se_tls :: tls_lib
  se_crypto :: crypto
  se_seed :: bytes
  se_read_file :: "string \<Rightarrow> string + string"
  se_hex_error :: "string \<Rightarrow> string"
  se_pem_certs :: "string \<Rightarrow> string + bytes list"
  se_pem_key :: "string \<Rightarrow> string + bytes"
  se_generated :: "io_error + bytes \<times> bytes"
  se_bind :: "string \<Rightarrow> string + unit"
  se_max_permits :: nat
  se_io :: file_io

datatype start_error = StartText string | StartIo io_error

section \<open>A new chain identity\<close>

definition write_secret_file :: "file_io \<Rightarrow> string \<Rightarrow> bytes \<Rightarrow> files \<Rightarrow> (string + unit) \<times> files" where
  "write_secret_file io path contents fs = create_private io path contents fs"

text \<open>The result holds what is printed about the public key; the second line printed is fixed text.\<close>

definition generate_relay_keypair :: "start_env \<Rightarrow> RelayArgs \<Rightarrow> files \<Rightarrow> (start_error + string) \<times> files" where
  "generate_relay_keypair env args fs =
     (case ra_chain_veil_sk_file args of
        None \<Rightarrow> (Inl (StartText ''--generate-relay-keypair requires --chain-veil-sk-file''), fs)
      | Some sk_path \<Rightarrow>
          (case write_secret_file (se_io env) sk_path (ascii (tl_hex_encode (se_tls env) (se_seed env))) fs of
             (Inl e, fs') \<Rightarrow>
               (Inl (StartText (''writing '' @ sk_path @ '': '' @ e @ '' (an existing seed is never overwritten)'')), fs')
           | (Inr _, fs') \<Rightarrow>
               (Inr (''veil_pk: '' @ tl_hex_encode (se_tls env) (verifying_key (se_crypto env) (se_seed env))), fs')))"

section \<open>The parts of the configuration\<close>

definition chain_setup :: "start_env \<Rightarrow> RelayArgs \<Rightarrow> start_error + ChainConfig option" where
  "chain_setup env args =
     (case (ra_chain_upstream_addr args, ra_chain_upstream_sni args, ra_chain_upstream_spki args,
            ra_chain_capability_file args, ra_chain_veil_sk_file args) of
        (Some addr, Some sni, Some spki, Some cap_file, Some sk_file) \<Rightarrow>
          (case se_read_file env cap_file of
             Inl e \<Rightarrow> Inl (StartText (''reading --chain-capability-file: '' @ e))
           | Inr cap_text \<Rightarrow>
               (case se_read_file env sk_file of
                  Inl e \<Rightarrow> Inl (StartText (''reading --chain-veil-sk-file: '' @ e))
                | Inr sk_text \<Rightarrow>
                    (case tl_hex_decode (se_tls env) (trim sk_text) of
                       None \<Rightarrow> Inl (StartText (''veil_sk hex: '' @ se_hex_error env (trim sk_text)))
                     | Some sk_bytes \<Rightarrow>
                         if length sk_bytes \<noteq> 32 then Inl (StartText ''veil_sk must be 32 bytes'')
                         else Inr (Some \<lparr>upstream_addr = addr, upstream_sni = sni, upstream_spki_hex = spki,
                                capability_v2_b64 = trim cap_text, chain_veil_sk = sk_bytes\<rparr>))))
      | (None, None, None, None, None) \<Rightarrow> Inr None
      | _ \<Rightarrow> Inl (StartText (''chain relay mode requires ALL of --chain-upstream-addr, --chain-upstream-sni, '' @
               ''--chain-upstream-spki, --chain-capability-file, --chain-veil-sk-file'')))"

definition tls_source :: "start_env \<Rightarrow> RelayArgs \<Rightarrow> start_error + RelayTls" where
  "tls_source env args =
     (if ra_dev args
      then (case self_signed (se_tls env) (se_generated env) of Inl e \<Rightarrow> Inl (StartIo e) | Inr t \<Rightarrow> Inr t)
      else case ra_cert args of
        None \<Rightarrow> Inl (StartText ''Production mode requires --cert'')
      | Some cert_path \<Rightarrow>
          (case ra_key args of
             None \<Rightarrow> Inl (StartText ''Production mode requires --key'')
           | Some key_path \<Rightarrow>
               (case from_pem_files (se_tls env) (se_pem_certs env cert_path) (se_pem_key env key_path) of
                  Inl e \<Rightarrow> Inl (StartIo e)
                | Inr t \<Rightarrow> Inr t)))"

definition alpn_list :: "RelayArgs \<Rightarrow> string list" where
  "alpn_list args = filter (\<lambda>p. p \<noteq> []) (map trim (ra_alpn args))"

definition tls_setup :: "start_env \<Rightarrow> RelayArgs \<Rightarrow> start_error + RelayTls" where
  "tls_setup env args =
     (case tls_source env args of
        Inl e \<Rightarrow> Inl e
      | Inr relay_tls \<Rightarrow>
          (let alpn = alpn_list args
           in Inr (if alpn \<noteq> [] then set_alpn alpn relay_tls else relay_tls)))"

definition issuer_setup :: "start_env \<Rightarrow> RelayArgs \<Rightarrow> start_error + bytes" where
  "issuer_setup env args =
     (case ra_issuer_pubkey args of
        None \<Rightarrow> Inl (StartText ''--issuer-pubkey is required (home-server Ed25519 public key, 64 hex chars)'')
      | Some hex_key \<Rightarrow>
          (case tl_hex_decode (se_tls env) (trim hex_key) of
             None \<Rightarrow> Inl (StartText (''invalid --issuer-pubkey hex: '' @ se_hex_error env (trim hex_key)))
           | Some bs \<Rightarrow>
               if length bs \<noteq> 32
               then Inl (StartText (''--issuer-pubkey must be 32 bytes (64 hex chars), got '' @ digits (length bs)))
               else Inr bs))"

definition dialer_setup :: "start_env \<Rightarrow> RelayArgs \<Rightarrow> start_error + BackendDialer" where
  "dialer_setup env args =
     (if ra_backend_tls args
      then let sni = (case ra_backend_sni args of Some n \<Rightarrow> n | None \<Rightarrow> host_part (ra_backend args)) in
        (case tl_server_name (se_tls env) sni of
           Inl e \<Rightarrow> Inl (StartText (''invalid backend SNI '' @ [CHR 0x27] @ sni @ [CHR 0x27] @ '': '' @ e))
         | Inr _ \<Rightarrow> Inr (DialTls sni))
      else Inr DialPlain)"

section \<open>The whole start\<close>

record Timeouts =
  to_first_byte :: u64
  to_dial :: u64

record RelaySetup =
  su_chain :: "ChainConfig option"
  su_tls :: RelayTls
  su_issuer_pubkey :: bytes
  su_relay_scope :: string
  su_dialer :: BackendDialer
  su_backend :: string
  su_site :: string
  su_admission :: Admission
  su_handshake_timeout :: u64
  su_timeouts :: Timeouts

definition finish_setup ::
  "RelayArgs \<Rightarrow> ChainConfig option \<Rightarrow> RelayTls \<Rightarrow> bytes \<Rightarrow> BackendDialer \<Rightarrow> RelaySetup" where
  "finish_setup args chain relay_tls issuer dialer =
     \<lparr>su_chain = chain, su_tls = relay_tls, su_issuer_pubkey = issuer, su_relay_scope = ra_relay_scope args,
      su_dialer = dialer, su_backend = ra_backend args, su_site = ra_site args,
      su_admission = admission_new (ra_max_handshakes args) (unat (ra_max_conns_per_ip args)),
      su_handshake_timeout = max (ra_handshake_timeout_secs args) 1,
      su_timeouts = \<lparr>to_first_byte = max (ra_first_byte_timeout_secs args) 1, to_dial = max (ra_dial_timeout_secs args) 1\<rparr>\<rparr>"

text \<open>The parts in the order of the source, each ending the start with its error; a semaphore larger than the
  runtime allows panics.\<close>

definition relay_setup :: "start_env \<Rightarrow> RelayArgs \<Rightarrow> (start_error + RelaySetup) exec" where
  "relay_setup env args =
     try_bind (Done (chain_setup env args)) (\<lambda>chain.
     try_bind (Done (tls_setup env args)) (\<lambda>relay_tls.
     try_bind (Done (issuer_setup env args)) (\<lambda>issuer.
     try_bind (Done (dialer_setup env args)) (\<lambda>dialer.
       case se_bind env (ra_listen args) of
         Inl e \<Rightarrow> Done (Inl (StartText (''Failed to bind '' @ ra_listen args @ '': '' @ e)))
       | Inr _ \<Rightarrow>
           if se_max_permits env < max (ra_max_handshakes args) 1 then Panic
           else Done (Inr (finish_setup args chain relay_tls issuer dialer))))))"

datatype start_outcome = Generated string | Serving RelaySetup

definition relay_main :: "start_env \<Rightarrow> RelayArgs \<Rightarrow> files \<Rightarrow> ((start_error + start_outcome) \<times> files) exec" where
  "relay_main env args fs =
     (if ra_generate_relay_keypair args
      then (case generate_relay_keypair env args fs of
              (Inl e, fs') \<Rightarrow> Done (Inl e, fs')
            | (Inr printed, fs') \<Rightarrow> Done (Inr (Generated printed), fs'))
      else exec_bind (relay_setup env args) (\<lambda>r.
        case r of
          Inl e \<Rightarrow> Done (Inl e, fs)
        | Inr su \<Rightarrow> Done (Inr (Serving su), fs)))"

text \<open>The task of an accepted connection passes that configuration on; the rest of the environment is the
  network's.\<close>

definition serve_connection ::
  "crypto \<Rightarrow> 's rng \<Rightarrow> 's \<Rightarrow> RelaySetup \<Rightarrow> relay_env \<Rightarrow> bytes option \<Rightarrow> (nat \<Rightarrow> u64 option) \<Rightarrow>
     gate_stream_in \<Rightarrow> writer \<Rightarrow> writer \<Rightarrow> GateStats \<Rightarrow> (conn_out \<times> GateStats) exec" where
  "serve_connection cr g s su net exporter clock stream client_wr far_wr st =
     handle_connection cr g s (net\<lparr>re_chain := su_chain su, re_dialer := su_dialer su\<rparr>) exporter (su_issuer_pubkey su)
       (ascii (su_relay_scope su)) clock stream client_wr far_wr st"

section \<open>What a served configuration holds\<close>

lemma relay_main_serving:
  assumes "relay_main env args fs = Done (Inr (Serving su), fs')"
  obtains chain relay_tls issuer dialer where
    "chain_setup env args = Inr chain" "tls_setup env args = Inr relay_tls" "issuer_setup env args = Inr issuer"
    "dialer_setup env args = Inr dialer" "se_bind env (ra_listen args) = Inr ()"
    "su = finish_setup args chain relay_tls issuer dialer" "fs' = fs"
proof -
  have g: "\<not> ra_generate_relay_keypair args" using assms by (auto simp: relay_main_def split: prod.splits sum.splits)
  then obtain r where r: "relay_setup env args = Done r" using assms by (auto simp: relay_main_def exec_bind_eq_Done)
  then have "relay_setup env args = Done (Inr su)" "fs' = fs" using assms g by (cases r; simp add: relay_main_def)+
  then show thesis using that
    by (cases "se_bind env (ra_listen args)") (auto simp: relay_setup_def try_bind_eq_Inr split: if_splits)
qed

lemma issuer_setup_iff:
  assumes "\<forall>s b. tl_hex_decode (se_tls env) s = Some b \<longleftrightarrow> to_ascii_lowercase s = hex_text b"
  shows "issuer_setup env args = Inr k \<longleftrightarrow>
    length k = 32 \<and> (\<exists>s. ra_issuer_pubkey args = Some s \<and> to_ascii_lowercase (trim s) = hex_text k)"
proof (cases "ra_issuer_pubkey args")
  case (Some s)
  show ?thesis
  proof (cases "tl_hex_decode (se_tls env) (trim s)")
    case None
    then have "to_ascii_lowercase (trim s) \<noteq> hex_text k" using assms by (metis option.distinct(1))
    then show ?thesis using Some None by (simp add: issuer_setup_def)
  next
    case (Some b)
    then have "to_ascii_lowercase (trim s) = hex_text k \<longleftrightarrow> b = k" using assms hex_text_inject by metis
    then show ?thesis using \<open>ra_issuer_pubkey args = Some s\<close> Some by (auto simp: issuer_setup_def)
  qed
qed (simp add: issuer_setup_def)

lemma served_issuer_key:
  assumes "\<forall>s b. tl_hex_decode (se_tls env) s = Some b \<longleftrightarrow> to_ascii_lowercase s = hex_text b"
    and "relay_main env args fs = Done (Inr (Serving su), fs')" "ra_issuer_pubkey args = Some s"
  shows "to_ascii_lowercase (trim s) = hex_text (su_issuer_pubkey su) \<and> length (su_issuer_pubkey su) = 32"
proof -
  have "issuer_setup env args = Inr (su_issuer_pubkey su)"
    by (rule relay_main_serving [OF assms(2)]) (simp add: finish_setup_def)
  then show ?thesis using issuer_setup_iff [OF assms(1)] assms(3) by simp
qed

lemma chain_setup_none:
  "chain_setup env args = Inr None \<longleftrightarrow>
     ra_chain_upstream_addr args = None \<and> ra_chain_upstream_sni args = None \<and> ra_chain_upstream_spki args = None
     \<and> ra_chain_capability_file args = None \<and> ra_chain_veil_sk_file args = None"
  by (auto simp: chain_setup_def split: option.splits sum.splits if_splits)

lemma chain_setup_some:
  assumes "chain_setup env args = Inr (Some cfg)"
  obtains sk_file sk_text where "ra_chain_veil_sk_file args = Some sk_file" "se_read_file env sk_file = Inr sk_text"
    "tl_hex_decode (se_tls env) (trim sk_text) = Some (chain_veil_sk cfg)" "length (chain_veil_sk cfg) = 32"
    "ra_chain_upstream_addr args = Some (upstream_addr cfg)" "ra_chain_upstream_sni args = Some (upstream_sni cfg)"
    "ra_chain_upstream_spki args = Some (upstream_spki_hex cfg)"
  using assms by (auto simp: chain_setup_def split: option.splits sum.splits if_splits)

text \<open>An offered protocol list never holds an empty name, and the default offers none.\<close>

lemma alpn_list_ok: "[] \<notin> set (alpn_list args)" "alpn_list relay_args_default = []"
  by (simp_all add: alpn_list_def relay_args_default_def trim_none)

lemma finish_setup_limits:
  "1 \<le> su_handshake_timeout (finish_setup args c t i d)" "1 \<le> to_first_byte (su_timeouts (finish_setup args c t i d))"
  "1 \<le> to_dial (su_timeouts (finish_setup args c t i d))" "1 \<le> handshakes (su_admission (finish_setup args c t i d))"
  "1 \<le> max_per_ip (su_admission (finish_setup args c t i d))"
  by (simp_all add: finish_setup_def admission_new_def)

text \<open>Where a tunnel goes is decided by the chain configuration alone.\<close>

lemma tunnelled_side:
  "\<exists>out. dispatch_gate_result cr g s env (Tunnel stream leftover) cw fw = Done out
     \<and> co_side out = (if re_chain env = None then FarBackend else FarUpstream)"
proof -
  obtain out where "dispatch_gate_result cr g s env (Tunnel stream leftover) cw fw = Done out"
    using dispatch_total [of cr g s env "Tunnel stream leftover" cw fw] by (metis exec.exhaust)
  moreover from this have "co_side out = (if re_chain env = None then FarBackend else FarUpstream)"
    by (auto simp: dispatch_gate_result_def exec_bind_def of_run_def split: option.splits sum.splits exec.splits BackendConn.splits)
  ultimately show ?thesis by blast
qed

section \<open>A generated identity\<close>

lemma generate_writes:
  assumes "relay_main env args fs = Done (Inr (Generated printed), fs')" "\<forall>b. tl_hex_encode (se_tls env) b = hex_text b"
  obtains path where "ra_chain_veil_sk_file args = Some path" "fs path = None"
    "fs' = fs(path \<mapsto> (384, ascii (hex_text (se_seed env))))"
    "printed = ''veil_pk: '' @ hex_text (verifying_key (se_crypto env) (se_seed env))"
proof -
  have g: "ra_generate_relay_keypair args"
    using assms(1) by (auto simp: relay_main_def exec_bind_def split: if_splits sum.splits exec.splits)
  then have k: "generate_relay_keypair env args fs = (Inr printed, fs')"
    using assms(1) by (auto simp: relay_main_def split: prod.splits sum.splits)
  then obtain path where p: "ra_chain_veil_sk_file args = Some path"
    by (cases "ra_chain_veil_sk_file args") (simp_all add: generate_relay_keypair_def)
  then have "fs path = None" using k
    by (cases "fs path") (simp_all add: generate_relay_keypair_def write_secret_file_def create_private_def)
  then show thesis using that [OF p] k p assms(2)
    by (simp add: generate_relay_keypair_def write_secret_file_def create_private_def split: if_splits)
qed

lemma generate_keeps_existing:
  assumes "ra_generate_relay_keypair args" "ra_chain_veil_sk_file args = Some path" "fs path \<noteq> None"
  shows "\<exists>e. relay_main env args fs = Done (Inl e, fs)"
  using assms by (auto simp: relay_main_def generate_relay_keypair_def write_secret_file_def create_private_def)

lemma ascii_inject: "ascii s = ascii t \<longleftrightarrow> s = t"
proof -
  have "c = d" if "(of_char c :: byte) = of_char d" for c d
  proof -
    have "(of_nat (of_char c) :: byte) = of_nat (of_char d)" using that by (simp only: of_nat_of_char)
    then have "unat (of_nat (of_char c) :: byte) = unat (of_nat (of_char d) :: byte)" by (simp only:)
    then have "(of_char c :: nat) = of_char d" by (simp add: unat_of_nat)
    then show ?thesis by simp
  qed
  then show ?thesis by (auto simp: ascii_def inj_on_def inj_map_eq_map [OF injI])
qed

text \<open>(C18) A chain identity survives the restart.  The run that generates it writes the seed to a new file only its
  owner can read, touches nothing else and prints the public key; a relay that later starts in chain
  mode from that file authenticates to its upstream with exactly the key pair that was printed; and generating again at the same path fails and leaves the seed as it is.\<close>

theorem generated_identity_survives:
  assumes "\<forall>b. tl_hex_encode (se_tls env) b = hex_text b"
    and "\<forall>s b. tl_hex_decode (se_tls env') s = Some b \<longleftrightarrow> to_ascii_lowercase s = hex_text b"
    and "ra_chain_veil_sk_file args = Some path" "ra_chain_veil_sk_file args' = Some path"
    and "relay_main env args fs = Done (Inr (Generated printed), fs')"
    and "relay_main env' args' fs'' = Done (Inr (Serving su), fs''')"
    and "fs' path = Some (perm, ascii contents)" "se_read_file env' path = Inr contents"
  shows "fs path = None \<and> perm = 384 \<and> (\<forall>p. p \<noteq> path \<longrightarrow> fs' p = fs p)
    \<and> (\<exists>cfg. su_chain su = Some cfg \<and> chain_veil_sk cfg = se_seed env
        \<and> printed = ''veil_pk: '' @ hex_text (verifying_key (se_crypto env) (chain_veil_sk cfg)))
    \<and> (\<forall>env2 args2. ra_generate_relay_keypair args2 \<and> ra_chain_veil_sk_file args2 = Some path \<longrightarrow>
        (\<exists>e. relay_main env2 args2 fs' = Done (Inl e, fs')))"
proof -
  have g: "fs path = None" "fs' = fs(path \<mapsto> (384, ascii (hex_text (se_seed env))))"
    "printed = ''veil_pk: '' @ hex_text (verifying_key (se_crypto env) (se_seed env))"
    by (rule generate_writes [OF assms(5,1)]; use assms(3) in simp)+
  then have t: "perm = 384" "contents = hex_text (se_seed env)" using assms(7) by (simp_all add: ascii_inject)
  from assms(6) obtain chain where c: "chain_setup env' args' = Inr chain" "su_chain su = chain"
    by (rule relay_main_serving) (simp add: finish_setup_def)
  then obtain cfg where cfg: "chain = Some cfg"
    using assms(4) chain_setup_none [of env' args'] by (cases chain) simp_all
  from c(1) [unfolded cfg] have "to_ascii_lowercase (trim contents) = hex_text (chain_veil_sk cfg)"
    by (rule chain_setup_some) (use assms(2,4,8) in simp)
  then have "chain_veil_sk cfg = se_seed env" unfolding t(2) by (simp add: hex_text_inject)
  then show ?thesis using g t(1) c(2) cfg generate_keeps_existing [of _ path fs'] by auto
qed


text \<open>An example: both runs with a seed of zeros.\<close>

definition demo_start_env :: start_env where
  "demo_start_env =
     \<lparr>se_tls = demo_tls, se_crypto = demo_crypto, se_seed = replicate 32 0,
      se_read_file = (\<lambda>_. Inr (hex_text (replicate 32 0))), se_hex_error = (\<lambda>_. []), se_pem_certs = (\<lambda>_. Inl []),
      se_pem_key = (\<lambda>_. Inl []), se_generated = Inr ([1, 2], [3]), se_bind = (\<lambda>_. Inr ()), se_max_permits = 1000,
      se_io = \<lparr>io_removable = True, io_creatable = True, io_room = 1000\<rparr>\<rparr>"

definition demo_generate_args :: RelayArgs where
  "demo_generate_args = relay_args_default\<lparr>ra_generate_relay_keypair := True, ra_chain_veil_sk_file := Some ''sk''\<rparr>"

definition demo_chain_args :: RelayArgs where
  "demo_chain_args = relay_args_default\<lparr>ra_dev := True, ra_issuer_pubkey := Some (hex_text (replicate 32 9)),
     ra_chain_upstream_addr := Some ''clean:443'', ra_chain_upstream_sni := Some ''clean'',
     ra_chain_upstream_spki := Some (hex_text (replicate 32 9)), ra_chain_capability_file := Some ''cap'',
     ra_chain_veil_sk_file := Some ''sk''\<rparr>"

lemma demo_hex: "tl_hex_encode demo_tls b = hex_text b" "tl_hex_decode demo_tls s = decode_hex s"
  by (simp_all add: demo_tls_def)

lemma demo_generated:
  "relay_main demo_start_env demo_generate_args Map.empty =
     Done (Inr (Generated (''veil_pk: '' @ hex_text (verifying_key demo_crypto (replicate 32 0)))),
       [''sk'' \<mapsto> (384, ascii (hex_text (replicate 32 0)))])"
  by (simp add: relay_main_def generate_relay_keypair_def write_secret_file_def create_private_def demo_start_env_def
      demo_generate_args_def relay_args_default_def demo_hex ascii_def length_hex_text)

text \<open>The same environment also starts without chain mode.\<close>

lemma demo_parts:
  "tls_setup demo_start_env args = Inr t \<Longrightarrow> issuer_setup demo_start_env args = Inr k \<Longrightarrow> \<not> ra_backend_tls args \<Longrightarrow>
   chain_setup demo_start_env args = Inr c \<Longrightarrow> \<not> ra_generate_relay_keypair args \<Longrightarrow> ra_max_handshakes args \<le> 1000 \<Longrightarrow>
   relay_main demo_start_env args fs = Done (Inr (Serving (finish_setup args c t k DialPlain)), fs)"
proof -
  have "se_bind demo_start_env a = Inr ()" "se_max_permits demo_start_env = 1000" for a by (simp_all add: demo_start_env_def)
  then show "tls_setup demo_start_env args = Inr t \<Longrightarrow> issuer_setup demo_start_env args = Inr k \<Longrightarrow> \<not> ra_backend_tls args \<Longrightarrow>
   chain_setup demo_start_env args = Inr c \<Longrightarrow> \<not> ra_generate_relay_keypair args \<Longrightarrow> ra_max_handshakes args \<le> 1000 \<Longrightarrow> ?thesis"
    by (simp add: relay_main_def relay_setup_def dialer_setup_def)
qed

lemma demo_dev_tls: "ra_dev args \<Longrightarrow> \<exists>t. tls_setup demo_start_env args = Inr t"
  by (simp add: tls_setup_def tls_source_def self_signed_def server_config_def demo_start_env_def demo_tls_def Let_def)

lemma demo_serving: "\<exists>su. relay_main demo_start_env demo_chain_args fs = Done (Inr (Serving su), fs)"
proof -
  have "\<exists>cfg. chain_setup demo_start_env demo_chain_args = Inr (Some cfg)"
    by (simp add: chain_setup_def demo_start_env_def demo_chain_args_def relay_args_default_def demo_hex)
  moreover have "issuer_setup demo_start_env demo_chain_args = Inr (replicate 32 9)"
    by (simp add: issuer_setup_def demo_start_env_def demo_chain_args_def demo_hex)
  moreover have "ra_dev demo_chain_args" "\<not> ra_backend_tls demo_chain_args" "\<not> ra_generate_relay_keypair demo_chain_args"
    "ra_max_handshakes demo_chain_args \<le> 1000"
    by (simp_all add: demo_chain_args_def relay_args_default_def)
  ultimately show ?thesis using demo_parts demo_dev_tls by blast
qed

theorem generated_identity_survives_witness:
  "\<exists>su cfg. relay_main demo_start_env demo_chain_args Map.empty = Done (Inr (Serving su), Map.empty)
     \<and> su_chain su = Some cfg \<and> chain_veil_sk cfg = replicate 32 0"
proof -
  obtain su where su: "relay_main demo_start_env demo_chain_args Map.empty = Done (Inr (Serving su), Map.empty)"
    using demo_serving by blast
  have "\<forall>b. tl_hex_encode (se_tls demo_start_env) b = hex_text b"
    "\<forall>s b. tl_hex_decode (se_tls demo_start_env) s = Some b \<longleftrightarrow> to_ascii_lowercase s = hex_text b"
    "ra_chain_veil_sk_file demo_generate_args = Some ''sk''" "ra_chain_veil_sk_file demo_chain_args = Some ''sk''"
    by (simp_all add: demo_start_env_def demo_hex decode_hex_iff demo_generate_args_def demo_chain_args_def)
  from generated_identity_survives [OF this demo_generated su, of 384 "hex_text (replicate 32 0)"] su
  show ?thesis by (auto simp: demo_start_env_def)
qed

end
