(* ===== verification/Spec2Isabelle.thy ===== *)
theory Spec2Isabelle
  imports Ffi Startup
begin

text \<open>
  A verification of construct-veil, a censorship-resistant transport: a client library that mobile
  apps embed (\<^verbatim>\<open>src/src\<close>), a relay (\<^verbatim>\<open>src/crates/construct-veil-relay\<close>) and the protocol they share
  (\<^verbatim>\<open>src/crates/construct-veil-protocol\<close>).

  \<^bold>\<open>How the parts interact.\<close>  An operator runs the issuing tool, which signs a capability and puts it
  into a configuration link; the app hands the capability to the client library.  The client's
  coordinator runs its state machine, which picks methods to probe from the scores of the current
  network.  A probe dials the relay over pinned TLS, sends one AUTH frame that is bound to the TLS
  session, and waits for a DATA frame.  After a success a local listener serves the app, and a ferry
  carries each local connection in frames with padding and cover traffic.  On the relay every
  accepted connection passes admission control and the TLS handshake; the gate then reads at most
  twice and decides: a verified AUTH record opens a tunnel to the backend or, in chain mode, to an
  upstream relay, and everything else is answered by the cover site with all bytes it sent.

  \<^bold>\<open>Theories, in the order of their imports, with the sources they model.\<close>
  \<^item> \<^verbatim>\<open>Prelude\<close>: bytes and machine words, the outcome of code that may panic, cursors, shared facts.
  \<^item> \<^verbatim>\<open>Varint\<close>, \<^verbatim>\<open>Framing\<close>: \<^verbatim>\<open>varint.rs\<close>, \<^verbatim>\<open>framing.rs\<close> and the wire constants of \<^verbatim>\<open>lib.rs\<close>.  The codec accepts
    exactly the encodings, survives any splitting of the stream, waits only for bounded input.
  \<^item> \<^verbatim>\<open>Auth\<close>, \<^verbatim>\<open>Capability\<close>: \<^verbatim>\<open>ticket.rs\<close>, \<^verbatim>\<open>auth.rs\<close>, \<^verbatim>\<open>capability.rs\<close>.  Round trips; a verified record was
    issued, field by field; acceptance in two sessions breaks a primitive.
  \<^item> \<^verbatim>\<open>Pump\<close>: byte streams with arbitrary chunks and write faults, and the loop contract that the
    forwarding loops of tunnel and chain satisfy.
  \<^item> \<^verbatim>\<open>Gate\<close>, \<^verbatim>\<open>Tunnel\<close>, \<^verbatim>\<open>Chain\<close>: \<^verbatim>\<open>gate.rs\<close>, \<^verbatim>\<open>tunnel.rs\<close>, \<^verbatim>\<open>chain.rs\<close>.  Only verified records are admitted, the
    cover site sees all bytes, payload is carried exactly and, under any fault, as a prefix; no frame
    of one hop reaches the other; warnings are spaced and none is lost under interleaving.
  \<^item> \<^verbatim>\<open>Admission\<close>, \<^verbatim>\<open>Relay\<close>, \<^verbatim>\<open>Startup\<close>: \<^verbatim>\<open>main.rs\<close> and \<^verbatim>\<open>site.rs\<close>.  The caps hold in every reachable state of the
    accept loop; a connection goes where its authentication says; start-up with all its errors, and
    a generated chain identity that survives the restart.
  \<^item> \<^verbatim>\<open>F64\<close>, \<^verbatim>\<open>Fsm_Types\<close>, \<^verbatim>\<open>Fsm_Scoring\<close>, \<^verbatim>\<open>Fsm\<close>: \<^verbatim>\<open>veil/fsm/types.rs\<close>, \<^verbatim>\<open>scoring.rs\<close>, \<^verbatim>\<open>reducer.rs\<close>.  Scores in IEEE
    doubles, the choice of candidates, and the reducer: well-formed states, effects that match the
    transitions, races that end.
  \<^item> \<^verbatim>\<open>Scores\<close>, \<^verbatim>\<open>Score_Store\<close>: \<^verbatim>\<open>veil/scoring.rs\<close>.  The table under failing queries, its refinement to a map,
    and the agreement of the cached copy with it.
  \<^item> \<^verbatim>\<open>Session\<close>: \<^verbatim>\<open>veil/veil_front\<close>.  Payload first and in order, bounded cover traffic.
  \<^item> \<^verbatim>\<open>Tls\<close>: \<^verbatim>\<open>tls_fingerprint.rs\<close>, \<^verbatim>\<open>tls_pinned.rs\<close>, and the relay's \<^verbatim>\<open>tls.rs\<close> and \<^verbatim>\<open>upstream_tls.rs\<close>.  Pins are enforced
    and the printed pin is the right one.
  \<^item> \<^verbatim>\<open>Adapter\<close>: \<^verbatim>\<open>veil_front_adapter.rs\<close>, \<^verbatim>\<open>obfuscator.rs\<close>.  The verdict of a probe, the ferry and its end.
  \<^item> \<^verbatim>\<open>Coordinator\<close>: \<^verbatim>\<open>coordinator.rs\<close>, \<^verbatim>\<open>accept.rs\<close>.  One cycle of probes and what it records; the session slot
    under every interleaving of starts, stops and ending proxies.
  \<^item> \<^verbatim>\<open>Ffi\<close>: \<^verbatim>\<open>ffi.rs\<close>, \<^verbatim>\<open>diag.rs\<close>.  What a start call reports to the host.
  \<^item> \<^verbatim>\<open>Config_Link\<close>: \<^verbatim>\<open>bin/make_config_link.rs\<close>.  Key decoding, canonical JSON that is unambiguous, the link.
  \<^item> This theory: the properties that need both sides.  A credential the issuer signed opens the gate;
    an issued link works at a relay that was started with the printed key; and end to end the backend
    receives exactly the local bytes and the local side exactly the bytes of the backend.

  \<^bold>\<open>State and effects.\<close>  Structs are records and enums datatypes, with the names of the source; a name that
  clashes carries a prefix.  Code that may panic has the result type \<^verbatim>\<open>exec\<close>, errors are left summands.
  A read half is the list of what its reads deliver, so every splitting into chunks is one value and
  an exhausted list is a silent peer; a write half records its actions and a list of faults, so every
  failure at every point is one value.  Timers and clocks are arguments.  Tasks that share state
  (admission, warnings, the session slot) are step relations, and their invariants hold for all
  interleavings.  Numbers keep their width where they can wrap, with the arithmetic of a release
  build; counters of connections and durations are natural numbers.

  \<^bold>\<open>Bounds.\<close>  There is no fuel: every loop is a recursion on the events it consumes or has a termination
  proof by the bytes left in its buffer.  Limits in the statements (the copy buffers of 8 KiB, 64 KiB of a
  probe, the largest payload of a frame) are those of the source.

  \<^bold>\<open>Library code\<close> is a parameter: HMAC and Ed25519 (\<^verbatim>\<open>crypto\<close>), the random generators (\<^verbatim>\<open>rng\<close>, \<^verbatim>\<open>chacha\<close>), rustls,
  X.509 and hex (\<^verbatim>\<open>tls_lib\<close>), base64 (\<^verbatim>\<open>text_codecs\<close>), SQLite and the digests of the store, sockets, files
  and clocks (\<^verbatim>\<open>relay_env\<close>, \<^verbatim>\<open>client_dial\<close>, \<^verbatim>\<open>coord_env\<close>, \<^verbatim>\<open>ffi_env\<close>, \<^verbatim>\<open>link_env\<close>, \<^verbatim>\<open>start_env\<close>).  What the code relies on
  is a named hypothesis: \<^verbatim>\<open>hmac_ok\<close> (length of a tag), \<^verbatim>\<open>ed25519_ok\<close> (signatures verify, keys and signatures have
  their length), \<^verbatim>\<open>rng_ok\<close> and \<^verbatim>\<open>chacha_ok\<close> (results in the requested range).  Unforgeability is never
  assumed: where it matters the statement says which primitive an attack would break.

  \<^bold>\<open>Not modelled.\<close>  Log lines and progress reports; the argument parser, the log set-up, the start-up banner
  and socket options; the rendering of QR images; the tokio runtime and raw memory access behind the C
  interface; \<^verbatim>\<open>VeilCoordinator::report_failure\<close>, which only logs; module roots, examples, tests, fuzz
  targets (written against an earlier crate), the Go vector check, the traffic lab in Python and the
  deployment scripts, none of which is part of the running client or relay.
\<close>

section \<open>From the credential to the tunnel\<close>

text \<open>A bearer credential as the host configures it: the base64 text of a capability the issuer signed for
  a scope this relay serves, with its validity window.\<close>

definition bearer_ok :: "crypto \<Rightarrow> text_codecs \<Rightarrow> bytes \<Rightarrow> bytes \<Rightarrow> u64 \<Rightarrow> u64 \<Rightarrow> string \<Rightarrow> bool" where
  "bearer_ok cr tc seed relay_scope nb na cap_b64 \<longleftrightarrow> cap_b64 \<noteq> [] \<and>
     (\<exists>t sc c blob. cap_sign cr t sc seed = Inr c \<and> ticket_wf t \<and> suite_id t = SUITE_CLASSIC_V1
        \<and> not_before t = nb \<and> not_after t = na \<and> utf8_valid sc \<and> scope_matches sc relay_scope
        \<and> cap_encode c = Done blob \<and> base64_decode tc cap_b64 = Some blob)"

text \<open>A key-bound credential: the capability names the public key of the configured private key.\<close>

definition key_bound_ok :: "crypto \<Rightarrow> text_codecs \<Rightarrow> bytes \<Rightarrow> bytes \<Rightarrow> u64 \<Rightarrow> u64 \<Rightarrow> VeilFrontAuthV3 \<Rightarrow> bool" where
  "key_bound_ok cr tc seed relay_scope nb na auth \<longleftrightarrow>
     (\<exists>tid rl sc c veil_sk blob. cap2_sign cr tid (verifying_key cr veil_sk) rl nb na SUITE_CLASSIC_V1 sc seed = Inr c
        \<and> length tid = TICKET_ID_LEN \<and> rl \<in> {ROLE_USER, ROLE_RELAY} \<and> utf8_valid sc \<and> scope_matches sc relay_scope
        \<and> cap2_encode c = Done blob \<and> base64_decode tc (auth_capability_v2_b64 auth) = Some blob
        \<and> hex_decode tc (veil_sk_hex auth) = Some veil_sk \<and> length veil_sk = 32)"

text \<open>The client uses the key-bound credential when both of its texts are configured.\<close>

definition credential_ok ::
  "crypto \<Rightarrow> text_codecs \<Rightarrow> bytes \<Rightarrow> bytes \<Rightarrow> u64 \<Rightarrow> u64 \<Rightarrow> string \<Rightarrow> VeilFrontAuthV3 \<Rightarrow> bool" where
  "credential_ok cr tc seed relay_scope nb na cap_b64 auth \<longleftrightarrow>
     (if auth_capability_v2_b64 auth \<noteq> [] \<and> veil_sk_hex auth \<noteq> []
      then key_bound_ok cr tc seed relay_scope nb na auth
      else bearer_ok cr tc seed relay_scope nb na cap_b64)"

lemma bearer_frame:
  assumes "hmac_ok cr" "ed25519_ok cr" "bearer_ok cr tc seed rs nb na cap_b64" "unix_now clock \<in> {nb..na}"
    and "\<not> (auth_capability_v2_b64 auth \<noteq> [] \<and> veil_sk_hex auth \<noteq> [])"
  shows "\<exists>f. auth_frame cr tc clock exporter cap_b64 auth = Done (Inr f) \<and> length (payload f) \<le> 1024
    \<and> (\<forall>now\<in>{nb..na}. opens_gate cr f exporter (issuer_public_key cr seed) rs now)"
proof -
  from assms(3) obtain t sc c blob where c: "cap_sign cr t sc seed = Inr c" "ticket_wf t" "suite_id t = SUITE_CLASSIC_V1"
    "not_before t = nb" "not_after t = na" "utf8_valid sc" "scope_matches sc rs" "cap_encode c = Done blob"
    "base64_decode tc cap_b64 = Some blob" "cap_b64 \<noteq> []"
    unfolding bearer_ok_def by blast
  note s = cap_sign_verifies [OF assms(2) c(1)]
  have wf: "cap_wf c" using s c(2,6) by (simp add: cap_wf_def MAX_SCOPE_LEN_def cap_len_defs)
  have d: "cap_decode blob = Done (Some c, [])" using v2.dec_enc [OF wf] c(8) by (auto dest: spec [of _ "[]"])
  let ?r = "v2_from_capability cr c exporter"
  have wr: "cap_wf (capability ?r)" "length (authcode ?r) = AUTHCODE_LEN"
    using wf assms(1) by (simp_all add: v2_from_capability_def from_ticket_def hmac_ok_def auth_len_defs)
  from v2.payload_roundtrip [OF wr] obtain p where p: "v2_encode_payload ?r = Done p" "v2_decode_payload p = Done (Some ?r)"
    by blast
  have "length p \<le> 1024"
    using p(1) wr(2) wf s(2,3,4,5) c(2)
    by (auto simp: v2_encode_payload_def v2_from_capability_def cap_encode_Done ticket_wf_def auth_len_defs)
  moreover have "auth_frame cr tc clock exporter cap_b64 auth = Done (Inr (frame_auth_v2 p))"
    using assms(4,5) c s(2) d p(1)
    by (auto simp: auth_frame_def parse_capability_def cap_decode_slice_def try_bind_def exec_bind_def ensure_valid_now_def
        cap_is_valid_at_def is_valid_at_def)
  moreover have "v2_verify cr ?r (issuer_public_key cr seed) rs exporter now" if "now \<in> {nb..na}" for now
    using s(1,2,3) c(3-7) that by (simp add: v2_verify_iff v2_from_capability_def cap_is_valid_at_def is_valid_at_def)
  ultimately show ?thesis using p(2)
    by (intro exI [of _ "frame_auth_v2 p"]) (auto simp: opens_gate_def frame_kind_defs frame_type_defs)
qed

lemma key_bound_frame:
  assumes "ed25519_ok cr" "key_bound_ok cr tc seed rs nb na auth" "unix_now clock \<in> {nb..na}"
    and "auth_capability_v2_b64 auth \<noteq> [] \<and> veil_sk_hex auth \<noteq> []"
  shows "\<exists>f. auth_frame cr tc clock exporter cap_b64 auth = Done (Inr f) \<and> length (payload f) \<le> 1024
    \<and> (\<forall>now\<in>{nb..na}. opens_gate cr f exporter (issuer_public_key cr seed) rs now)"
proof -
  from assms(2) obtain tid rl sc c veil_sk blob where
    c: "cap2_sign cr tid (verifying_key cr veil_sk) rl nb na SUITE_CLASSIC_V1 sc seed = Inr c" "length tid = TICKET_ID_LEN"
      "rl \<in> {ROLE_USER, ROLE_RELAY}" "utf8_valid sc" "scope_matches sc rs" "cap2_encode c = Done blob"
      "base64_decode tc (auth_capability_v2_b64 auth) = Some blob" "hex_decode tc (veil_sk_hex auth) = Some veil_sk"
      "length veil_sk = 32"
    unfolding key_bound_ok_def by blast
  note s = cap2_sign_verifies [OF assms(1) c(1)]
  have f: "role c = rl" "veil_pk c = verifying_key cr veil_sk" "v2_not_before c = nb" "v2_ticket_id c = tid"
    "v2_not_after c = na" "v2_suite_id c = SUITE_CLASSIC_V1" "v2_scope c = sc"
    by (subst s(2), simp)+
  have pk: "length (verifying_key cr veil_sk) = 32" using assms(1) by (simp add: ed25519_ok_def)
  have wf: "cap2_wf c" using s(3,4) f c(2,4) pk by (simp add: cap2_wf_def MAX_SCOPE_LEN_def cap_len_defs)
  have d: "cap2_decode blob = Done (Some c, [])" using v3.dec_enc [OF wf] c(6) by (auto dest: spec [of _ "[]"])
  let ?r = "v3_from_capability cr c veil_sk exporter"
  have wr: "cap2_wf (v3_capability ?r)" "length (client_sig ?r) = CLIENT_SIG_LEN"
    using wf assms(1) by (simp_all add: v3_from_capability_def ed25519_ok_def cap_len_defs)
  from v3.payload_roundtrip [OF wr] obtain p where p: "v3_encode_payload ?r = Done p" "v3_decode_payload p = Done (Some ?r)"
    by blast
  have "length p \<le> 1024"
    using p(1) wr(2) wf s(3,4) c(2) f pk
    by (auto simp: v3_encode_payload_def v3_from_capability_def cap2_encode_Done cap_len_defs auth_len_defs)
  moreover have "auth_frame cr tc clock exporter cap_b64 auth = Done (Inr (frame_auth_v3 p))"
    using assms(3,4) c(7-9) f d p(1)
    by (auto simp: auth_frame_def parse_capability_v2_def cap2_decode_slice_def try_bind_def exec_bind_def
        ensure_valid_now_def cap2_is_valid_at_def parse_veil_sk_def)
  moreover have "v3_verify cr ?r (issuer_public_key cr seed) rs rl exporter now" if "now \<in> {nb..na}" for now
    using s(1) f c(5) that assms(1)
    by (simp add: v3_verify_iff v3_from_capability_def cap2_is_valid_at_def ed25519_ok_def)
  ultimately show ?thesis using p(2) c(3) f(1)
    by (intro exI [of _ "frame_auth_v3 p"])
      (auto simp: opens_gate_def frame_kind_defs frame_type_defs v3_from_capability_def)
qed

lemma credential_frame:
  assumes "hmac_ok cr" "ed25519_ok cr" "credential_ok cr tc seed rs nb na cap_b64 auth" "unix_now clock \<in> {nb..na}"
  shows "\<exists>f. auth_frame cr tc clock exporter cap_b64 auth = Done (Inr f) \<and> length (payload f) \<le> 1024
    \<and> (\<forall>now\<in>{nb..na}. opens_gate cr f exporter (issuer_public_key cr seed) rs now)"
  using assms bearer_frame [OF assms(1,2) _ assms(4)] key_bound_frame [OF assms(2) _ assms(4)]
  unfolding credential_ok_def by (metis (no_types, lifting))

text \<open>One AUTH frame is written and flushed.\<close>

lemma authenticate_over_faultless:
  assumes "auth_frame cr tc clock exporter cap_b64 auth = Done (Inr f)" "faultless w"
  shows "authenticate_over cr tc clock w exporter cap_b64 auth =
    Done (Inr (), w\<lparr>acts := acts w @ [Write (frame_bytes padded_codec f), Flush]\<rparr>)"
  using assms by (simp add: authenticate_over_def send_flushed_def send_frame_ok write_op_ok)

text \<open>The AUTH frame is in the first read, or in the first two together.\<close>

fun auth_arrives :: "bytes \<Rightarrow> gate_stream_in \<Rightarrow> bool" where
  "auth_arrives a (ReadData d1 # rest) = (d1 \<noteq> [] \<and> (prefix a d1 \<or>
     (case rest of ReadData d2 # _ \<Rightarrow> prefix a (d1 @ d2) | _ \<Rightarrow> False)))"
| "auth_arrives a _ = False"

lemma gate_opens_on_arrival:
  assumes "opens_gate cr f e pk rs (now_unix (clock 0))" "opens_gate cr f e pk rs (now_unix (clock 2))"
    and "length (payload f) \<le> 1024" "auth_arrives (frame_bytes padded_codec f) reads"
  shows "\<exists>st' rest early. gate_stream cr e pk rs clock reads st = Done (Inr (Tunnel rest early), st')
    \<and> stream_data (to_reads reads) = frame_bytes padded_codec f @ early @ stream_data (to_reads rest)"
proof -
  let ?pad = "replicate (frame_pad padded_codec f) 0" let ?a = "frame_bytes padded_codec f"
  have fits: "fits codec_new f (length ?pad)"
    using padded_fits [of f] assms(3) by (simp add: codec_new_def DEFAULT_MAX_PAYLOAD_def)
  obtain d1 rest where r: "reads = ReadData d1 # rest" "d1 \<noteq> []"
    using assms(4) by (cases "(?a, reads)" rule: auth_arrives.cases) auto
  show ?thesis
  proof (cases "prefix ?a d1")
    case True
    then obtain early where "d1 = wire f ?pad @ early" by (auto simp: prefix_def frame_bytes_def)
    then show ?thesis using gate_opens_one_read [where clock = clock, OF assms(1) fits, of early rest st] r
      by (auto simp: frame_bytes_def)
  next
    case False
    then obtain d2 rest2 where d2: "rest = ReadData d2 # rest2" "prefix ?a (d1 @ d2)"
      using assms(4) r by (auto split: list.splits gate_read.splits)
    then obtain early where e: "d1 @ d2 = wire f ?pad @ early" by (auto simp: prefix_def frame_bytes_def)
    have l: "length d1 < length (wire f ?pad)"
      using False e by (metis append_eq_append_conv_if frame_bytes_def not_less prefix_def take_is_prefix)
    then have "d2 \<noteq> []" using e by (cases d2) auto
    then show ?thesis using gate_opens_two_reads [where clock = clock, OF assms(2) fits e r(2) l, of rest2 st] r d2(1) e
      by (auto simp: frame_bytes_def)
  qed
qed

text \<open>(C2) A configured credential gets the client in.  When the issuer signed the capability for this relay's
  scope and both clocks are inside its validity window, the client writes exactly one AUTH frame and
  flushes it, and the relay's gate, given the exporter of the same TLS session and the frame in its
  first read or split over two, opens the tunnel with every byte after the frame still to be
  forwarded.\<close>

theorem credential_opens_tunnel:
  assumes "hmac_ok cr" "ed25519_ok cr" "credential_ok cr tc seed rs nb na cap_b64 auth" "faultless w"
    and "unix_now clock \<in> {nb..na}" "now_unix (relay_clock 0) \<in> {nb..na}" "now_unix (relay_clock 2) \<in> {nb..na}"
  shows "\<exists>a. authenticate_over cr tc clock w exporter cap_b64 auth = Done (Inr (), w\<lparr>acts := acts w @ [Write a, Flush]\<rparr>)
    \<and> (\<forall>reads st. auth_arrives a reads \<longrightarrow>
        (\<exists>st' rest early. gate_stream cr exporter (issuer_public_key cr seed) rs relay_clock reads st =
            Done (Inr (Tunnel rest early), st')
          \<and> stream_data (to_reads reads) = a @ early @ stream_data (to_reads rest)))"
proof -
  obtain f where f: "auth_frame cr tc clock exporter cap_b64 auth = Done (Inr f)" "length (payload f) \<le> 1024"
    "\<forall>now\<in>{nb..na}. opens_gate cr f exporter (issuer_public_key cr seed) rs now"
    using credential_frame [OF assms(1-3,5)] by blast
  show ?thesis
    using authenticate_over_faultless [OF f(1) assms(4)] gate_opens_on_arrival [where clock = relay_clock, OF _ _ f(2)]
      f(3) assms(6,7) by blast
qed

text \<open>An issued bearer capability and a decoder that returns it, for the examples.\<close>

definition demo_capability :: Capability where
  "demo_capability = \<lparr>ticket = demo_ticket, scope = [], sig = sk_sign demo_crypto [7] (cap_signing_message demo_ticket [])\<rparr>"

definition demo_codecs :: text_codecs where
  "demo_codecs = \<lparr>base64_decode = (\<lambda>_. case cap_encode demo_capability of Done b \<Rightarrow> Some b | Panic \<Rightarrow> None),
     hex_decode = (\<lambda>_. None)\<rparr>"

lemma demo_credential: "credential_ok demo_crypto demo_codecs [7] [] 10 20 ''c'' auth_v3_default"
proof -
  have "cap_sign demo_crypto demo_ticket [] [7] = Inr demo_capability"
    by (simp add: cap_sign_def check_scope_len_def demo_capability_def)
  moreover have "ticket_wf demo_ticket" "suite_id demo_ticket = SUITE_CLASSIC_V1" "not_before demo_ticket = 10" "not_after demo_ticket = 20"
    by (simp_all add: demo_ticket_def ticket_wf_def auth_len_defs SUITE_CLASSIC_V1_def)
  moreover obtain b where "cap_encode demo_capability = Done b"
    by (simp add: cap_encode_def assert_encodable_scope_def demo_capability_def)
  moreover have "utf8_valid []" "scope_matches [] []" by (simp_all add: scope_matches_def)
  ultimately show ?thesis
    unfolding credential_ok_def bearer_ok_def
    by (auto simp: auth_v3_default_def demo_codecs_def intro!: exI)
qed

theorem credential_opens_tunnel_witness:
  "\<exists>a rest early st'. authenticate_over demo_crypto demo_codecs (Some 15) demo_writer [5] ''c'' auth_v3_default =
       Done (Inr (), demo_writer\<lparr>acts := [Write a, Flush]\<rparr>)
     \<and> gate_stream demo_crypto [5] (issuer_public_key demo_crypto [7]) [] (\<lambda>_. Some 15) [ReadData (a @ [1, 2])] demo_stats =
         Done (Inr (Tunnel rest early), st')"
proof -
  have n: "unix_now (Some 15) \<in> {10..20 :: u64}" "now_unix ((\<lambda>_. Some 15) i) \<in> {10..20 :: u64}" for i :: nat
    by (simp_all add: unix_now_def now_unix_def)
  from credential_opens_tunnel [where relay_clock = "\<lambda>_. Some 15", OF demo_crypto_ok demo_credential demo_writer_ok(1) n(1) n(2) n(2), of "[5]"]
  obtain a where a: "authenticate_over demo_crypto demo_codecs (Some 15) demo_writer [5] ''c'' auth_v3_default =
       Done (Inr (), demo_writer\<lparr>acts := [Write a, Flush]\<rparr>)"
    "\<forall>reads st. auth_arrives a reads \<longrightarrow> (\<exists>st' rest early. gate_stream demo_crypto [5] (issuer_public_key demo_crypto [7]) []
       (\<lambda>_. Some 15) reads st = Done (Inr (Tunnel rest early), st') \<and> stream_data (to_reads reads) = a @ early @ stream_data (to_reads rest))"
    unfolding demo_writer_ok(2) append_Nil by blast
  have "auth_arrives a [ReadData (a @ [1, 2])]" by simp
  with a show ?thesis by blast
qed

text \<open>What the client writes to the relay does not depend on what it reads from it.\<close>

lemma fr_relay_indep:
  "fr_relay (run_ferry c s fresh up_first ticks relay_rd w local_wr) =
   fr_relay (run_ferry c s fresh up_first ticks relay_rd' w local_wr)"
  by (simp add: run_ferry_def case_prod_beta Let_def)

text \<open>(C1) End to end.  A client with a valid credential ferries a local connection through a relay to its
  backend: when the relay reads what the client wrote and the client reads what the relay wrote, in
  any chunks, over working connections, the backend receives exactly the bytes of the local side and
  the local side exactly the bytes of the backend; AUTH, framing, padding and cover traffic leave no
  trace on either side.\<close>

theorem end_to_end:
  fixes c :: "'s chacha" and g :: "'t rng"
  assumes "hmac_ok cr" "ed25519_ok cr" "credential_ok cr tc seed rs nb na cap_b64 auth" "chacha_ok c" "rng_ok g"
    and "unix_now clock \<in> {nb..na}" "now_unix (relay_clock 0) \<in> {nb..na}" "now_unix (relay_clock 2) \<in> {nb..na}"
    and "\<forall>w\<in>{relay_wr, local_wr, client_wr, far_wr}. faultless w \<and> acts w = []"
    and "\<forall>d\<in>set (local_chunks ticks). length d \<le> RBUF" "\<forall>d\<in>set (arrived (re_far_rd env)). length d \<le> COPY_BUF"
    and "re_chain env = None" "open_backend env = Inr conn"
    and client: "run_veil_front_ferry_external cr tc clock c s fresh up_first ticks relay_rd local_wr relay_wr exporter
        cap_b64 auth = Done run"
    and relay: "handle_connection cr g s' env (Some exporter) (issuer_public_key cr seed) rs relay_clock reads client_wr
        far_wr st = Done (out, st')"
    and "stream_data (to_reads reads) = written (acts (fr_relay run))" "auth_arrives (written (take 1 (acts (fr_relay run)))) reads"
    and "stream_data relay_rd = written (acts (co_client out))"
  shows "co_side out = FarBackend \<and> written (acts (co_far out)) = concat (local_chunks ticks)
    \<and> written (acts (fr_local run)) = concat (arrived (re_far_rd env))
    \<and> all_flushed (acts (co_far out)) \<and> all_flushed (acts (fr_relay run))"
proof -
  have w: "faultless relay_wr" "faultless local_wr" "faultless client_wr" "faultless far_wr"
    "acts relay_wr = []" "acts local_wr = []" "acts client_wr = []" "acts far_wr = []"
    using assms(9) by simp_all
  obtain f where f: "auth_frame cr tc clock exporter cap_b64 auth = Done (Inr f)" "length (payload f) \<le> 1024"
    "\<forall>now\<in>{nb..na}. opens_gate cr f exporter (issuer_public_key cr seed) rs now"
    using credential_frame [OF assms(1-3,6)] by blast
  let ?a = "frame_bytes padded_codec f"
  define w1 where "w1 = relay_wr\<lparr>acts := [Write ?a, Flush]\<rparr>"
  have w1: "faultless w1" "acts w1 = [Write ?a, Flush]" "all_flushed (acts w1)" using w(1) by (simp_all add: w1_def all_flushed_def)
  have run: "run = run_ferry c s fresh up_first ticks relay_rd w1 local_wr"
    using client authenticate_over_faultless [OF f(1) w(1)] w(5)
    by (simp add: run_veil_front_ferry_external_def exec_bind_def w1_def)
  obtain frames as where up: "acts (fr_relay run) = acts w1 @ as" "drain_frames codec_new (written as) = (frames, None, [])"
    "data_payloads frames = local_chunks ticks" "all_flushed (acts w1 @ as)"
    using run_ferry_run [where relay_rd = "[]", OF assms(4) w1(1) w(2) w1(3) assms(10), of "[]" "[]" s fresh up_first]
      fr_relay_indep [of c s fresh up_first ticks relay_rd w1 local_wr "[]"] unfolding run by auto
  have arr: "auth_arrives ?a reads" using assms(17) up(1) w1(2) by simp
  obtain st1 rest early where gate: "gate_stream cr exporter (issuer_public_key cr seed) rs relay_clock reads st =
      Done (Inr (Tunnel rest early), st1)" "stream_data (to_reads reads) = ?a @ early @ stream_data (to_reads rest)"
    using gate_opens_on_arrival [where clock = relay_clock, OF _ _ f(2) arr] f(3) assms(7,8) by blast
  have d: "drain_frames codec_new (early @ stream_data (to_reads rest)) = (frames, None, [])"
    using assms(16) gate(2) up(1,2) w1(2) by simp
  obtain ua frames' bs chaff where tun: "written ua = concat (data_payloads frames)" "all_flushed ua"
    "drain_frames codec_new (written bs) = (frames', None, [])" "data_payloads frames' = arrived (re_far_rd env)"
    "tr_client (forward_tunnel g s' (re_up_first env) (to_reads rest) early (re_far_rd env) client_wr far_wr) = client_wr\<lparr>acts := bs\<rparr>"
    "tr_backend (forward_tunnel g s' (re_up_first env) (to_reads rest) early (re_far_rd env) client_wr far_wr) = far_wr\<lparr>acts := ua\<rparr>"
    using forward_tunnel_run [OF assms(5) w(3,4,7,8) assms(11) d, of s' "re_up_first env"] by fastforce
  have out: "out = of_run FarBackend (forward_tunnel g s' (re_up_first env) (to_reads rest) early (re_far_rd env) client_wr far_wr)"
    using relay assms(12,13)
    by (cases conn) (simp_all add: handle_connection_def gate_with_exporter_def gate(1) handle_with_gate_def exec_bind_def
        dispatch_gate_result_def)
  have "drain_frames codec_new (stream_data relay_rd) = (frames', None, [])"
    using assms(18) tun(3,5) by (simp add: out of_run_def)
  from run_ferry_run [OF assms(4) w1(1) w(2) w1(3) assms(10) this, of s fresh up_first]
  have "written (acts (fr_local run)) = concat (arrived (re_far_rd env))"
    unfolding run using w(6) tun(4) by auto
  then show ?thesis using tun(1,2,6) up by (simp add: out of_run_def)
qed

theorem end_to_end_witness:
  "\<exists>relay_rd reads run out st'.
     run_veil_front_ferry_external demo_crypto demo_codecs (Some 15) demo_chacha () () True [(0, Some (RData [7]), 0)] relay_rd
       demo_writer demo_writer [5] ''c'' auth_v3_default = Done run
   \<and> handle_connection demo_crypto demo_rng () (demo_env\<lparr>re_far_rd := [(9, Arrives (RData [5])), (10, Arrives (RData []))]\<rparr>)
       (Some [5]) (issuer_public_key demo_crypto [7]) [] (\<lambda>_. Some 15) reads demo_writer demo_writer demo_stats = Done (out, st')
   \<and> written (acts (co_far out)) = [7] \<and> written (acts (fr_local run)) = [5]"
proof -
  let ?ticks = "[(0, Some (RData [7]), 0)] :: up_tick list"
  let ?env = "demo_env\<lparr>re_far_rd := [(9, Arrives (RData [5])), (10, Arrives (RData []))]\<rparr>"
  let ?c = "\<lambda>rd. run_veil_front_ferry_external demo_crypto demo_codecs (Some 15) demo_chacha () () True ?ticks rd
    demo_writer demo_writer [5] ''c'' auth_v3_default"
  let ?h = "\<lambda>reads. handle_connection demo_crypto demo_rng () ?env (Some [5]) (issuer_public_key demo_crypto [7]) []
    (\<lambda>_. Some 15) reads demo_writer demo_writer demo_stats"
  have n: "unix_now (Some 15) \<in> {10..20 :: u64}" "now_unix ((\<lambda>_. Some 15) i) \<in> {10..20 :: u64}" for i :: nat
    by (simp_all add: unix_now_def now_unix_def)
  obtain f where f: "auth_frame demo_crypto demo_codecs (Some 15) [5] ''c'' auth_v3_default = Done (Inr f)"
    "length (payload f) \<le> 1024" "\<forall>now\<in>{10..20}. opens_gate demo_crypto f [5] (issuer_public_key demo_crypto [7]) [] now"
    using credential_frame [OF demo_crypto_ok demo_credential n(1)] by blast
  define w where "w = demo_writer\<lparr>acts := [Write (frame_bytes padded_codec f), Flush]\<rparr>"
  have run: "?c rd = Done (run_ferry demo_chacha () () True ?ticks rd w demo_writer)" for rd
    using authenticate_over_faultless [OF f(1) demo_writer_ok(1)]
    by (simp add: run_veil_front_ferry_external_def w_def demo_writer_ok(2))
  define sent where "sent = acts (fr_relay (run_ferry demo_chacha () () True ?ticks [] w demo_writer))"
  have s: "acts (fr_relay (run_ferry demo_chacha () () True ?ticks rd w demo_writer)) = sent" for rd
    unfolding sent_def by (simp only: fr_relay_indep [of _ _ _ _ _ rd _ _ "[]"])
  obtain as where as: "sent = [Write (frame_bytes padded_codec f), Flush] @ as"
    using run_ferry_run [where relay_rd = "[]", OF demo_chacha_ok, of w demo_writer ?ticks "[]" "[]" "()" "()" True] demo_writer_ok
    unfolding sent_def by (auto simp: w_def all_flushed_def RBUF_def)
  have ne: "written sent \<noteq> []" by (simp add: as frame_bytes_def)
  obtain out st' where out: "?h [ReadData (written sent)] = Done (out, st')"
  proof -
    have "auth_arrives (frame_bytes padded_codec f) [ReadData (written sent)]" using ne by (simp add: as)
    from gate_opens_on_arrival [where clock = "\<lambda>_. Some 15", OF _ _ f(2) this] f(3) n(2) obtain rest early st1
      where g: "gate_stream demo_crypto [5] (issuer_public_key demo_crypto [7]) [] (\<lambda>_. Some 15)
        [ReadData (written sent)] demo_stats = Done (Inr (Tunnel rest early), st1)" by blast
    obtain o1 where "dispatch_gate_result demo_crypto demo_rng () ?env (Tunnel rest early) demo_writer demo_writer = Done o1"
      using dispatch_total by (metis exec.exhaust)
    then show ?thesis using that by (simp add: handle_connection_def gate_with_exporter_def g handle_with_gate_def)
  qed
  let ?rd = "[RData (written (acts (co_client out)))]"
  have "\<forall>w\<in>{demo_writer, demo_writer, demo_writer, demo_writer}. faultless w \<and> acts w = []" by (simp add: demo_writer_ok)
  then have "written (acts (co_far out)) = [7] \<and> written (acts (fr_local (run_ferry demo_chacha () () True ?ticks ?rd w demo_writer))) = [5]"
    using end_to_end [where relay_clock = "\<lambda>_. Some 15" and conn = ConnPlain and relay_rd = ?rd,
        OF demo_crypto_ok demo_credential demo_chacha_ok demo_rng_ok n(1) n(2) n(2) _ _ _ _ _ run out] ne
    by (auto simp: s as RBUF_def COPY_BUF_def demo_env_def open_backend_def)
  then show ?thesis using run out by blast
qed

section \<open>From the issuing tool to the client\<close>

text \<open>What the tool puts into a link is a credential for every relay that serves its scope.\<close>

lemma link_credential:
  assumes "issue_link env args seed now = Done (Inr out)" "arg_suite_id args = SUITE_CLASSIC_V1"
    and "length (le_ticket_id env) = TICKET_ID_LEN" "length (le_key_bytes env) = AUTH_KEY_LEN"
    and "utf8_valid (ascii (arg_scope args))" "scope_matches (ascii (arg_scope args)) rs"
    and "\<forall>b. base64_decode tc (le_base64 env b) = Some b \<and> (b \<noteq> [] \<longrightarrow> le_base64 env b \<noteq> [])"
  shows "lo_pub_hex out = hex_text (issuer_public_key (le_crypto env) seed)
    \<and> credential_ok (le_crypto env) tc seed rs (lo_not_before out) (lo_exp out) (lo_capability out) auth_v3_default"
proof -
  from issue_link_parts [OF assms(1)] obtain c blob where
    o: "lo_not_before out = now"
      "cap_sign (le_crypto env) \<lparr>ticket_id = le_ticket_id env, auth_key = le_key_bytes env, not_before = now,
        not_after = lo_exp out, suite_id = arg_suite_id args\<rparr> (ascii (arg_scope args)) seed = Inr c"
      "cap_encode c = Done blob" "lo_capability out = le_base64 env blob"
      "lo_pub_hex out = hex_text (verifying_key (le_crypto env) seed)"
    by blast
  have "blob \<noteq> []" using o(2,3) by (auto simp: cap_sign_def cap_encode_def assert_encodable_scope_def check_scope_len_def split: if_splits)
  then have "bearer_ok (le_crypto env) tc seed rs now (lo_exp out) (lo_capability out)"
    unfolding bearer_ok_def o(4) using assms(2-7) o(2,3) by (auto simp: ticket_wf_def intro!: exI)
  then show ?thesis by (simp add: credential_ok_def auth_v3_default_def o(1,5) issuer_public_key_def)
qed


text \<open>A run of the tool with a key of zeros and encoders that change nothing, for the example.\<close>

definition demo_link_env :: link_env where
  "demo_link_env = \<lparr>le_read_file = (\<lambda>_. Inl ''no file''), le_env_key = None, le_crypto = demo_crypto, le_seed_ok = (\<lambda>_. True),
     le_ticket_id = replicate 16 1, le_key_bytes = replicate 32 2, le_now = Some 100, le_base64 = utf8_text, le_base64url = utf8_text\<rparr>"

definition demo_args :: Args where
  "demo_args = \<lparr>signing_key_file = None, signing_key = Some (hex_text (replicate 32 0)), arg_relay = ''front:443'', arg_sni = None,
     arg_spki = ''pin'', arg_days = 60, arg_suite_id = 1, arg_scope = [], qr_svg = None\<rparr>"

lemma utf8_text_empty [simp]: "utf8_text b = [] \<longleftrightarrow> b = []"
  by (simp add: utf8_text_def)

lemma ascii_utf8_text [simp]: "ascii (utf8_text b) = b"
proof -
  have "of_char (char_of (unat x)) = x" for x :: byte
    using of_nat_of_char [of "char_of (unat x)", where ?'a = "8 word"] by simp
  then show ?thesis by (simp add: ascii_def utf8_text_def o_def)
qed

lemma demo_link:
  "\<exists>out. make_link demo_link_env demo_args = Done (Inr out) \<and> lo_not_before out = 100 \<and> lo_exp out = 5184100
     \<and> lo_pub_hex out = hex_text (verifying_key demo_crypto (replicate 32 0))"
proof -
  have m: "make_link demo_link_env demo_args = issue_link demo_link_env demo_args (replicate 32 0) 100"
    by (simp add: make_link_def demo_link_env_def demo_args_def resolve_signing_key_def link_hex_decode_text)
  have "check_scope_len (ascii (arg_scope demo_args)) = Inr ()"
    by (simp add: check_scope_len_def demo_args_def ascii_def)
  then obtain out where o: "issue_link demo_link_env demo_args (replicate 32 0) 100 = Done (Inr out)"
    using issue_link_succeeds by blast
  from issue_link_parts [OF o] have "lo_not_before out = 100 \<and> lo_exp out = 5184100
      \<and> lo_pub_hex out = hex_text (verifying_key demo_crypto (replicate 32 0))"
    by (auto simp: demo_link_env_def demo_args_def)
  then show ?thesis using m o by simp
qed

lemmas demo_link_parts = demo_link_env_def demo_args_def demo_crypto_ok SUITE_CLASSIC_V1_def auth_len_defs ascii_def [of "[]"]
  scope_matches_def


text \<open>(C3) A deployment works.  A relay is started with the key the issuing tool printed and a scope that
  admits the one of the link; a client that was given the capability of the link then writes one AUTH frame,
  and every connection to that relay on which the frame arrives is tunnelled, to the backend or, in
  chain mode, to the upstream relay, and not to the cover site.\<close>

theorem issued_link_opens_relay:
  assumes "hmac_ok (le_crypto env)" "ed25519_ok (le_crypto env)" "make_link env args = Done (Inr out)"
    and "arg_suite_id args = SUITE_CLASSIC_V1" "length (le_ticket_id env) = TICKET_ID_LEN"
    and "length (le_key_bytes env) = AUTH_KEY_LEN" "utf8_valid (ascii (arg_scope args))"
    and "\<forall>b. base64_decode tc (le_base64 env b) = Some b \<and> (b \<noteq> [] \<longrightarrow> le_base64 env b \<noteq> [])"
    and "\<forall>s b. tl_hex_decode (se_tls start) s = Some b \<longleftrightarrow> to_ascii_lowercase s = hex_text b"
    and "ra_issuer_pubkey rargs = Some (lo_pub_hex out)" "relay_main start rargs fs = Done (Inr (Serving su), fs')"
    and "scope_matches (ascii (arg_scope args)) (ascii (su_relay_scope su))" "faultless w"
    and "unix_now clock \<in> {lo_not_before out..lo_exp out}"
    and "\<forall>i. now_unix (relay_clock i) \<in> {lo_not_before out..lo_exp out}"
  shows "\<exists>a. authenticate_over (le_crypto env) tc clock w exporter (lo_capability out) auth_v3_default =
        Done (Inr (), w\<lparr>acts := acts w @ [Write a, Flush]\<rparr>)
    \<and> (\<forall>reads st client_wr far_wr net. auth_arrives a reads \<longrightarrow>
        (\<exists>conn st'. serve_connection (le_crypto env) g s su net (Some exporter) relay_clock reads client_wr far_wr st =
            Done (conn, st') \<and> co_side conn = (if su_chain su = None then FarBackend else FarUpstream)))"
proof -
  let ?cr = "le_crypto env" and ?rs = "ascii (su_relay_scope su)"
  obtain seed now where m: "issue_link env args seed now = Done (Inr out)" using make_link_parts [OF assms(3)] by blast
  note k = link_credential [OF m assms(4-7,12,8)]
  have pk: "su_issuer_pubkey su = issuer_public_key ?cr seed"
    using served_issuer_key [OF assms(9,11,10)] k hex_text_inject by simp
  obtain f where f: "auth_frame ?cr tc clock exporter (lo_capability out) auth_v3_default = Done (Inr f)" "length (payload f) \<le> 1024"
    "\<forall>now\<in>{lo_not_before out..lo_exp out}. opens_gate ?cr f exporter (issuer_public_key ?cr seed) ?rs now"
    using credential_frame [OF assms(1,2) conjunct2 [OF k] assms(14)] by blast
  obtain a where a: "authenticate_over ?cr tc clock w exporter (lo_capability out) auth_v3_default =
      Done (Inr (), w\<lparr>acts := acts w @ [Write a, Flush]\<rparr>)"
    "\<forall>reads st. auth_arrives a reads \<longrightarrow> (\<exists>st' rest early.
       gate_stream ?cr exporter (issuer_public_key ?cr seed) ?rs relay_clock reads st = Done (Inr (Tunnel rest early), st'))"
    using authenticate_over_faultless [OF f(1) assms(13)] gate_opens_on_arrival [where clock = relay_clock, OF _ _ f(2)]
      f(3) assms(15) by blast
  have "\<exists>conn st'. serve_connection ?cr g s su net (Some exporter) relay_clock reads client_wr far_wr st = Done (conn, st')
      \<and> co_side conn = (if su_chain su = None then FarBackend else FarUpstream)"
    if r: "auth_arrives a reads" for reads st client_wr far_wr net
  proof -
    obtain st' rest early where
      "gate_stream ?cr exporter (su_issuer_pubkey su) ?rs relay_clock reads st = Done (Inr (Tunnel rest early), st')"
      using a(2) r unfolding pk by blast
    then show ?thesis using tunnelled_side [of ?cr g s "net\<lparr>re_chain := su_chain su, re_dialer := su_dialer su\<rparr>" rest early client_wr far_wr]
      by (auto simp: serve_connection_def handle_connection_def handle_with_gate_def gate_with_exporter_def)
  qed
  then show ?thesis using a(1) by blast
qed

definition demo_served_args :: "string \<Rightarrow> RelayArgs" where
  "demo_served_args key = relay_args_default\<lparr>ra_dev := True, ra_issuer_pubkey := Some key\<rparr>"

lemma demo_served:
  "length k = 32 \<Longrightarrow> \<exists>su. relay_main demo_start_env (demo_served_args (hex_text k)) fs = Done (Inr (Serving su), fs)
     \<and> su_chain su = None \<and> su_relay_scope su = []"
proof -
  assume "length k = 32"
  then have "issuer_setup demo_start_env (demo_served_args (hex_text k)) = Inr k"
    by (simp add: issuer_setup_def demo_start_env_def demo_served_args_def demo_hex)
  moreover have "chain_setup demo_start_env (demo_served_args (hex_text k)) = Inr None"
    by (simp add: chain_setup_none demo_served_args_def relay_args_default_def)
  moreover obtain t where "tls_setup demo_start_env (demo_served_args (hex_text k)) = Inr t"
    using demo_dev_tls [of "demo_served_args (hex_text k)"] by (auto simp: demo_served_args_def)
  ultimately show ?thesis using demo_parts [of "demo_served_args (hex_text k)" t k None fs]
    by (simp add: finish_setup_def demo_served_args_def relay_args_default_def)
qed

theorem issued_link_opens_relay_witness:
  "\<exists>out su a conn st'. make_link demo_link_env demo_args = Done (Inr out)
     \<and> relay_main demo_start_env (demo_served_args (lo_pub_hex out)) Map.empty = Done (Inr (Serving su), Map.empty)
     \<and> serve_connection demo_crypto demo_rng () su demo_env (Some [5]) (\<lambda>_. Some 200) [ReadData (a @ [1])] demo_writer demo_writer
         demo_stats = Done (conn, st') \<and> co_side conn = FarBackend"
proof -
  let ?tc = "\<lparr>base64_decode = (\<lambda>s. Some (ascii s)), hex_decode = (\<lambda>_. None)\<rparr>"
  obtain out where o: "make_link demo_link_env demo_args = Done (Inr out)" "lo_not_before out = 100" "lo_exp out = 5184100"
    "lo_pub_hex out = hex_text (verifying_key demo_crypto (replicate 32 0))"
    using demo_link by blast
  have "length (verifying_key demo_crypto (replicate 32 0)) = 32" by (simp add: demo_crypto_def)
  then obtain su where su: "relay_main demo_start_env (demo_served_args (lo_pub_hex out)) Map.empty = Done (Inr (Serving su), Map.empty)"
    "su_chain su = None" "su_relay_scope su = []"
    unfolding o(4) using demo_served by blast
  have h: "hmac_ok (le_crypto demo_link_env)" "ed25519_ok (le_crypto demo_link_env)" "arg_suite_id demo_args = SUITE_CLASSIC_V1"
    "length (le_ticket_id demo_link_env) = TICKET_ID_LEN" "length (le_key_bytes demo_link_env) = AUTH_KEY_LEN"
    "utf8_valid (ascii (arg_scope demo_args))" "scope_matches (ascii (arg_scope demo_args)) (ascii (su_relay_scope su))"
    "\<forall>b. base64_decode ?tc (le_base64 demo_link_env b) = Some b \<and> (b \<noteq> [] \<longrightarrow> le_base64 demo_link_env b \<noteq> [])"
    "ra_issuer_pubkey (demo_served_args (lo_pub_hex out)) = Some (lo_pub_hex out)"
    "\<forall>s b. tl_hex_decode (se_tls demo_start_env) s = Some b \<longleftrightarrow> to_ascii_lowercase s = hex_text b"
    by (simp_all add: demo_link_parts demo_served_args_def demo_start_env_def demo_hex decode_hex_iff)
  have n: "unix_now (Some 200) \<in> {lo_not_before out..lo_exp out}"
    "\<forall>i :: nat. now_unix ((\<lambda>_. Some 200) i) \<in> {lo_not_before out..lo_exp out}"
    using o by (simp_all add: unix_now_def now_unix_def)
  have cr: "le_crypto demo_link_env = demo_crypto" by (simp add: demo_link_env_def)
  from issued_link_opens_relay [where relay_clock = "\<lambda>_. Some 200" and exporter = "[5]" and g = demo_rng and s = "()", OF h(1,2) o(1) h(3-6,8,10,9) su(1) h(7) demo_writer_ok(1) n]
  obtain a where "\<forall>reads st client_wr far_wr net. auth_arrives a reads \<longrightarrow>
    (\<exists>conn st'. serve_connection demo_crypto demo_rng () su net (Some [5]) (\<lambda>_. Some 200) reads client_wr far_wr st = Done (conn, st')
       \<and> co_side conn = (if su_chain su = None then FarBackend else FarUpstream))"
    unfolding cr by blast
  moreover have "auth_arrives a [ReadData (a @ [1])]" by simp
  ultimately show ?thesis using o(1) su(1,2) by fastforce
qed

end
